(* ===== verification/Prelude.thy ===== *)
theory Prelude
  imports Main "HOL-Library.Word" "HOL-Library.AList" "HOL-Library.Multiset"
begin

text \<open>
  Shared vocabulary of the GoMQTT development: the Go types the broker uses (bytes,
  \<open>uint16\<close>, \<open>uint64\<close>, strings, maps, instants), the result type of a Go function
  with an error return, and the generic lemmas that the component theories rely on.

  \<^item> A Go \<open>string\<close> is an immutable byte sequence. It is modelled by HOL's \<open>string\<close>, a
    list of 8-bit characters; \<open>bytes_of\<close> and \<open>string_of\<close> are the conversions
    \<open>[]byte(s)\<close> and \<open>string(b)\<close>.
  \<^item> A Go \<open>map\<close> is an association list with distinct keys. Go visits a map in an
    unspecified order: the order of the list stands for the order of one visit, and the
    theorems quantify over all lists, hence over all orders.
  \<^item> An instant (\<open>time.Time\<close>) is a number of nanoseconds since the zero time, so
    \<open>t.UTC()\<close> is the identity; a \<open>time.Duration\<close> is an integer, and \<open>time_sub\<close> saturates
    at the limits of \<open>int64\<close> as \<open>Time.Sub\<close> does.
\<close>

unbundle bit_operations_syntax

subsection \<open>Go's basic types\<close>

type_synonym byte = "8 word"
type_synonym u16 = "16 word"
type_synonym u32 = "32 word"
type_synonym u64 = "64 word"
type_synonym bytes = "byte list"
type_synonym time = int
type_synonym duration = int
type_synonym ('k, 'v) gomap = "('k \<times> 'v) list"

named_theorems codec_simps "facts that compute the wire format"
named_theorems varint_simps "facts that compute the digits of a varint"
named_theorems session_defs "the operations of the Session aggregate, unfolded"
named_theorems broker_defs "the operations of the services, unfolded"

subsection \<open>Strings and bytes\<close>

definition bytes_of :: "string \<Rightarrow> bytes" where
  "bytes_of s = map of_char s"

definition string_of :: "bytes \<Rightarrow> string" where
  "string_of b = map (\<lambda>w. char_of (unat w)) b"

lemma of_char_word_nat: "(of_char c :: byte) = word_of_nat (of_char c)"
  by (simp add: of_nat_of_char)

lemma unat_of_char: "unat (of_char c :: byte) = (of_char c :: nat)"
proof -
  have "(of_char c :: nat) < 256"
    by (rule nat_of_char_less_256)
  then show ?thesis
    unfolding of_char_word_nat by (simp add: unat_of_nat)
qed

lemma of_char_char_of_unat: "of_char (char_of (unat w)) = (w :: byte)"
proof -
  have "unat w < 256"
    using unsigned_less [of w] by simp
  then have "(of_char (char_of (unat w)) :: nat) = unat w"
    by simp
  then show ?thesis
    unfolding of_char_word_nat by simp
qed

lemma string_of_bytes_of [simp]: "string_of (bytes_of s) = s"
  by (simp add: string_of_def bytes_of_def comp_def unat_of_char)

lemma bytes_of_string_of [simp]: "bytes_of (string_of b) = b"
  by (simp add: string_of_def bytes_of_def comp_def of_char_char_of_unat)

lemma length_bytes_of [simp]: "length (bytes_of s) = length s"
  by (simp add: bytes_of_def)

lemma length_string_of [simp]: "length (string_of b) = length b"
  by (simp add: string_of_def)

lemma bytes_of_inject [simp]: "bytes_of s = bytes_of t \<longleftrightarrow> s = t"
  by (metis string_of_bytes_of)

text \<open>Decimal digits, as \<open>strconv.FormatUint(n, 10)\<close> and the verb \<open>%d\<close> print them.\<close>

definition digit_char :: "nat \<Rightarrow> char" where
  "digit_char d = char_of (48 + d)"

fun decimal :: "nat \<Rightarrow> string" where
  "decimal n = (if n < 10 then [digit_char n] else decimal (n div 10) @ [digit_char (n mod 10)])"

declare decimal.simps [simp del]

text \<open>Two upper-case hexadecimal digits, as the verb \<open>%02X\<close> prints a byte.\<close>

definition hex_digit :: "nat \<Rightarrow> char" where
  "hex_digit d = (if d < 10 then char_of (48 + d) else char_of (55 + d))"

definition hex2 :: "byte \<Rightarrow> string" where
  "hex2 b = [hex_digit (unat b div 16), hex_digit (unat b mod 16)]"

subsection \<open>Functions with an error return\<close>

text \<open>
  A Go function returning \<open>(T, error)\<close> is a function into \<open>'e + 'a\<close>. \<open>andThen\<close> is the
  statement \<^verbatim>\<open>if err != nil { return ..., err }\<close> after a call.
\<close>

definition andThen :: "'e + 'a \<Rightarrow> ('a \<Rightarrow> 'e + 'b) \<Rightarrow> 'e + 'b" where
  "andThen r f = (case r of Inl e \<Rightarrow> Inl e | Inr x \<Rightarrow> f x)"

lemma andThen_simps [simp]:
  "andThen (Inl e) f = Inl e"
  "andThen (Inr x) f = f x"
  by (simp_all add: andThen_def)

lemma andThen_Inr_iff: "andThen r f = Inr y \<longleftrightarrow> (\<exists>x. r = Inr x \<and> f x = Inr y)"
  by (cases r) auto

lemma andThen_InrE:
  assumes "andThen r f = Inr y"
  obtains x where "r = Inr x" and "f x = Inr y"
  using assms by (auto simp: andThen_Inr_iff)

lemma andThen_if [simp]:
  "andThen (if b then x else y) f = (if b then andThen x f else andThen y f)"
  by simp

subsection \<open>Go maps\<close>

abbreviation mget :: "('k, 'v) gomap \<Rightarrow> 'k \<Rightarrow> 'v option" where
  "mget m k \<equiv> map_of m k"

abbreviation mput :: "'k \<Rightarrow> 'v \<Rightarrow> ('k, 'v) gomap \<Rightarrow> ('k, 'v) gomap" where
  "mput k v m \<equiv> AList.update k v m"

abbreviation mdel :: "'k \<Rightarrow> ('k, 'v) gomap \<Rightarrow> ('k, 'v) gomap" where
  "mdel k m \<equiv> AList.delete k m"

definition map_ok :: "('k, 'v) gomap \<Rightarrow> bool" where
  "map_ok m = distinct (map fst m)"

lemma map_ok_Nil [simp]: "map_ok []"
  by (simp add: map_ok_def)

lemma map_ok_mput [simp]: "map_ok m \<Longrightarrow> map_ok (mput k v m)"
  by (simp add: map_ok_def distinct_update)

lemma map_ok_mdel [simp]: "map_ok m \<Longrightarrow> map_ok (mdel k m)"
  by (simp add: map_ok_def distinct_delete)

lemma mget_mput [simp]: "mget (mput k v m) k' = (if k' = k then Some v else mget m k')"
  by (simp add: update_conv')

lemma mget_mdel [simp]: "mget (mdel k m) k' = (if k' = k then None else mget m k')"
  by (simp add: delete_conv')

lemma mget_None_iff: "mget m k = None \<longleftrightarrow> k \<notin> fst ` set m"
  by (simp add: map_of_eq_None_iff)

lemma mput_fresh: "mget m k = None \<Longrightarrow> mput k v m = m @ [(k, v)]"
  by (induction m) (auto split: if_splits)

lemma mdel_absent: "mget m k = None \<Longrightarrow> mdel k m = m"
  by (induction m) (auto split: if_splits)

lemma length_mput: "length (mput k v m) = (if mget m k = None then Suc (length m) else length m)"
  by (induction m) (auto split: if_splits)

lemma length_mdel:
  "map_ok m \<Longrightarrow> length (mdel k m) = (if mget m k = None then length m else length m - 1)"
proof (induction m)
  case Nil
  then show ?case by simp
next
  case (Cons p m)
  obtain a b where p: "p = (a, b)" by (cases p)
  have ok: "map_ok m" and a: "a \<notin> fst ` set m"
    using Cons.prems p by (auto simp: map_ok_def)
  show ?case
  proof (cases "a = k")
    case True
    with a have "mdel k m = m" by (simp add: mdel_absent mget_None_iff)
    with p True show ?thesis by simp
  next
    case False
    have "mget m k \<noteq> None \<Longrightarrow> 0 < length m" by (cases m) auto
    with False p Cons.IH [OF ok] show ?thesis by auto
  qed
qed

lemma length_mdel_le: "length (mdel k m) \<le> length m"
  by (simp add: AList.length_delete_le)

lemma map_ok_in_set: "map_ok m \<Longrightarrow> (k, v) \<in> set m \<longleftrightarrow> mget m k = Some v"
  unfolding map_ok_def by (metis map_of_eq_Some_iff)

lemma map_ok_Cons [simp]: "map_ok ((k, v) # m) \<longleftrightarrow> map_ok m \<and> mget m k = None"
  by (auto simp: map_ok_def map_of_eq_None_iff)

lemma in_set_mput: "x \<in> set (mput k v m) \<Longrightarrow> x = (k, v) \<or> x \<in> set m"
  by (induction m) (auto split: if_splits)

lemma in_set_mdel: "x \<in> set (mdel k m) \<Longrightarrow> x \<in> set m \<and> fst x \<noteq> k"
  by (induction m) (auto split: if_splits)

lemma length_card_dom: "map_ok m \<Longrightarrow> length m = card (dom (map_of m))"
  unfolding map_ok_def by (metis distinct_card dom_map_of_conv_image_fst length_map set_map)

subsection \<open>Instants\<close>

definition max_duration :: duration where
  "max_duration = 2 ^ 63 - 1"

definition min_duration :: duration where
  "min_duration = - (2 ^ 63)"

definition time_sub :: "time \<Rightarrow> time \<Rightarrow> duration" where
  "time_sub t u = max min_duration (min max_duration (t - u))"

definition second :: duration where
  "second = 1000000000"

lemma time_sub_gt_iff: "0 \<le> d \<Longrightarrow> d < max_duration \<Longrightarrow> time_sub t u > d \<longleftrightarrow> t - u > d"
  by (auto simp: time_sub_def min_duration_def max_duration_def)

end
