(* ===== verification/App_Errors.thy ===== *)
theory App_Errors
  imports Prelude
begin

text \<open>
  The transport-agnostic error type of \<open>pkg/common/errors\<close> and the stable error codes
  owned by the message, client and session aggregates. An error of the domain or the
  application layer is a value of \<open>app_error\<close>; the wrapped cause is modelled as an optional
  inner error.
\<close>

datatype kind = KindInternal | KindInvalidArgument | KindNotFound | KindConflict | KindUnavailable

fun kind_String :: "kind \<Rightarrow> string" where
  "kind_String KindInvalidArgument = ''invalid_argument''"
| "kind_String KindNotFound = ''not_found''"
| "kind_String KindConflict = ''conflict''"
| "kind_String KindUnavailable = ''unavailable''"
| "kind_String KindInternal = ''internal''"

datatype app_error =
  AppError (err_kind: kind) (err_code: string) (err_message: string) (err_cause: "app_error option")

fun Error_string :: "app_error \<Rightarrow> string" where
  "Error_string (AppError k c m None) = c @ '': '' @ m"
| "Error_string (AppError k c m (Some e)) = c @ '': '' @ m @ '': '' @ Error_string e"

definition New :: "kind \<Rightarrow> string \<Rightarrow> string \<Rightarrow> app_error" where
  "New k code message = AppError k code message None"

definition Wrap :: "kind \<Rightarrow> string \<Rightarrow> string \<Rightarrow> app_error \<Rightarrow> app_error" where
  "Wrap k code message cause = AppError k code message (Some cause)"

definition WithCause :: "app_error \<Rightarrow> app_error \<Rightarrow> app_error" where
  "WithCause e cause = AppError (err_kind e) (err_code e) (err_message e) (Some cause)"

definition Invalid :: "string \<Rightarrow> string \<Rightarrow> app_error" where
  "Invalid code message = New KindInvalidArgument code message"

definition NotFound :: "string \<Rightarrow> string \<Rightarrow> app_error" where
  "NotFound code message = New KindNotFound code message"

definition Conflict :: "string \<Rightarrow> string \<Rightarrow> app_error" where
  "Conflict code message = New KindConflict code message"

definition Internal :: "string \<Rightarrow> string \<Rightarrow> app_error \<Rightarrow> app_error" where
  "Internal code message cause = Wrap KindInternal code message cause"

subsection \<open>Error codes of the aggregates\<close>

definition EInvalidTopicName :: string where "EInvalidTopicName = ''invalid_topic_name''"
definition EInvalidTopicFilter :: string where "EInvalidTopicFilter = ''invalid_topic_filter''"
definition EInvalidQoS :: string where "EInvalidQoS = ''invalid_qos''"
definition EPayloadTooLarge :: string where "EPayloadTooLarge = ''payload_too_large''"
definition EInvalidPacketID :: string where "EInvalidPacketID = ''invalid_packet_id''"

definition EInvalidClientID :: string where "EInvalidClientID = ''invalid_client_id''"
definition EUnsupportedProtocolVersion :: string where
  "EUnsupportedProtocolVersion = ''unsupported_protocol_version''"

definition ESessionNotFound :: string where "ESessionNotFound = ''session_not_found''"
definition EPacketIDExhausted :: string where "EPacketIDExhausted = ''packet_id_exhausted''"
definition EUnknownPacketID :: string where "EUnknownPacketID = ''unknown_packet_id''"
definition EInflightFull :: string where "EInflightFull = ''inflight_window_full''"
definition ESubscriptionLimit :: string where "ESubscriptionLimit = ''subscription_limit_reached''"

lemmas error_constructors = New_def Wrap_def Invalid_def NotFound_def Conflict_def Internal_def

lemmas session_error_codes = ESessionNotFound_def EPacketIDExhausted_def EUnknownPacketID_def
  EInflightFull_def ESubscriptionLimit_def

lemma kind_of_constructors [simp]:
  "err_kind (Invalid c m) = KindInvalidArgument"
  "err_kind (NotFound c m) = KindNotFound"
  "err_kind (Conflict c m) = KindConflict"
  "err_kind (Internal c m e) = KindInternal"
  "err_code (Invalid c m) = c"
  "err_code (NotFound c m) = c"
  "err_code (Conflict c m) = c"
  "err_code (Internal c m e) = c"
  by (simp_all add: error_constructors)

end
