(* ===== verification/Topics.thy ===== *)
theory Topics
  imports App_Errors
begin

text \<open>
  The value objects of the message aggregate
  (\<open>pkg/domain/message_aggregate/value_objects\<close>): the quality-of-service level, the topic
  name and the topic filter, with the reference definition \<open>Matches\<close> of topic matching.

  The lemmas show that splitting a topic into levels loses nothing, which strings the
  constructors accept, and that \<open>Matches\<close> is the level-by-level rule of section 4.7 of the
  protocol. The subscription index is later shown to agree with \<open>Matches\<close>.
\<close>

subsection \<open>Quality of service\<close>

type_synonym qos = byte

abbreviation QoSAtMostOnce :: qos where "QoSAtMostOnce \<equiv> 0"
abbreviation QoSAtLeastOnce :: qos where "QoSAtLeastOnce \<equiv> 1"
abbreviation QoSExactlyOnce :: qos where "QoSExactlyOnce \<equiv> 2"
abbreviation MaxSupportedQoS :: qos where "MaxSupportedQoS \<equiv> QoSAtLeastOnce"

definition NewQoS :: "byte \<Rightarrow> app_error + qos" where
  "NewQoS level =
     (if level > QoSExactlyOnce then Inl (Invalid EInvalidQoS ''QoS must be 0, 1 or 2'')
      else Inr level)"

definition qos_String :: "qos \<Rightarrow> string" where
  "qos_String q =
     (if q = QoSAtMostOnce then ''0'' else if q = QoSAtLeastOnce then ''1''
      else if q = QoSExactlyOnce then ''2'' else ''invalid'')"

definition IsSupported :: "qos \<Rightarrow> bool" where
  "IsSupported q = (q \<le> MaxSupportedQoS)"

definition RequiresAcknowledgement :: "qos \<Rightarrow> bool" where
  "RequiresAcknowledgement q = (q \<ge> QoSAtLeastOnce)"

definition Downgrade :: "qos \<Rightarrow> qos \<Rightarrow> qos" where
  "Downgrade q other =
     (let effective = q;
          effective = (if other < effective then other else effective)
      in if effective > MaxSupportedQoS then MaxSupportedQoS else effective)"

subsection \<open>Topic levels\<close>

type_synonym topic_name = string
type_synonym topic_filter = string
type_synonym level = string

abbreviation separator :: char where "separator \<equiv> CHR ''/''"
definition SingleLevelWildcard :: level where "SingleLevelWildcard = ''+''"
definition MultiLevelWildcard :: level where "MultiLevelWildcard = ''#''"
definition MaxTopicLength :: nat where "MaxTopicLength = 65535"
definition MaxTopicLevels :: nat where "MaxTopicLevels = 128"

text \<open>\<open>strings.Split(s, ''/'')\<close>, \<open>strings.Count(s, ''/'')\<close>, and the containment tests.\<close>

fun Split :: "string \<Rightarrow> level list" where
  "Split [] = [[]]"
| "Split (c # cs) =
     (if c = separator then [] # Split cs
      else case Split cs of [] \<Rightarrow> [[c]] | l # ls \<Rightarrow> (c # l) # ls)"

definition Count :: "string \<Rightarrow> nat" where
  "Count s = length (filter (\<lambda>c. c = separator) s)"

definition ContainsAny :: "string \<Rightarrow> string \<Rightarrow> bool" where
  "ContainsAny s chars = list_ex (\<lambda>c. c \<in> set chars) s"

definition ContainsNull :: "string \<Rightarrow> bool" where
  "ContainsNull s = (CHR 0x00 \<in> set s)"

subsection \<open>Topic names\<close>

definition NewTopicName :: "string \<Rightarrow> app_error + topic_name" where
  "NewTopicName raw =
     (if raw = '''' then Inl (Invalid EInvalidTopicName ''topic name must not be empty'')
      else if length raw > MaxTopicLength
        then Inl (Invalid EInvalidTopicName ''topic name must not exceed 65535 bytes'')
      else if ContainsAny raw (SingleLevelWildcard @ MultiLevelWildcard)
        then Inl (Invalid EInvalidTopicName ''topic name must not contain the wildcard characters + or #'')
      else if ContainsNull raw
        then Inl (Invalid EInvalidTopicName ''topic name must not contain a null character'')
      else if Count raw + 1 > MaxTopicLevels
        then Inl (Invalid EInvalidTopicName ''topic name has too many levels'')
      else Inr raw)"

definition Levels :: "string \<Rightarrow> level list" where
  "Levels s = Split s"

definition IsSystem :: "topic_name \<Rightarrow> bool" where
  "IsSystem t = (case t of [] \<Rightarrow> False | c # cs \<Rightarrow> c = CHR ''$'')"

subsection \<open>Topic filters\<close>

fun filterLevelError :: "nat \<Rightarrow> nat \<Rightarrow> level list \<Rightarrow> app_error option" where
  "filterLevelError n i [] = None"
| "filterLevelError n i (level # levels) =
     (if \<not> (level = SingleLevelWildcard \<or> level = MultiLevelWildcard)
         \<and> (CHR ''+'' \<in> set level \<or> CHR ''#'' \<in> set level)
      then Some (Invalid EInvalidTopicFilter ''a wildcard must occupy an entire topic level'')
      else if level = MultiLevelWildcard \<and> i \<noteq> n - 1
      then Some (Invalid EInvalidTopicFilter
                  ''the multi-level wildcard # must be the last level of a filter'')
      else filterLevelError n (i + 1) levels)"

definition NewTopicFilter :: "string \<Rightarrow> app_error + topic_filter" where
  "NewTopicFilter raw =
     (if raw = '''' then Inl (Invalid EInvalidTopicFilter ''topic filter must not be empty'')
      else if length raw > MaxTopicLength
        then Inl (Invalid EInvalidTopicFilter ''topic filter must not exceed 65535 bytes'')
      else if ContainsNull raw
        then Inl (Invalid EInvalidTopicFilter ''topic filter must not contain a null character'')
      else
        let levels = Split raw in
        if length levels > MaxTopicLevels
        then Inl (Invalid EInvalidTopicFilter ''topic filter has too many levels'')
        else case filterLevelError (length levels) 0 levels of
          Some e \<Rightarrow> Inl e
        | None \<Rightarrow> Inr raw)"

definition HasWildcard :: "topic_filter \<Rightarrow> bool" where
  "HasWildcard f = ContainsAny f (SingleLevelWildcard @ MultiLevelWildcard)"

text \<open>The loop of \<open>Matches\<close>: \<open>Some b\<close> is an early \<open>return b\<close>, \<open>None\<close> the end of the loop.\<close>

fun matchLoop :: "nat \<Rightarrow> level list \<Rightarrow> level list \<Rightarrow> bool option" where
  "matchLoop i [] topicLevels = None"
| "matchLoop i (filterLevel # filterLevels) topicLevels =
     (if filterLevel = MultiLevelWildcard then Some True
      else if i \<ge> length topicLevels then Some False
      else if filterLevel = SingleLevelWildcard then matchLoop (i + 1) filterLevels topicLevels
      else if filterLevel \<noteq> topicLevels ! i then Some False
      else matchLoop (i + 1) filterLevels topicLevels)"

definition Matches :: "topic_filter \<Rightarrow> topic_name \<Rightarrow> bool" where
  "Matches f topic =
     (let filterLevels = Levels f; topicLevels = Levels topic in
      if IsSystem topic \<and> (filterLevels ! 0 = SingleLevelWildcard \<or> filterLevels ! 0 = MultiLevelWildcard)
      then False
      else case matchLoop 0 filterLevels topicLevels of
        Some b \<Rightarrow> b
      | None \<Rightarrow> length filterLevels = length topicLevels)"

subsection \<open>Lemmas on levels\<close>

fun Join :: "level list \<Rightarrow> string" where
  "Join [] = ''''"
| "Join [l] = l"
| "Join (l # ls) = l @ separator # Join ls"

lemma Split_not_Nil [simp]: "Split s \<noteq> []"
  by (induction s) (auto split: list.splits)

lemma Join_Cons: "ls \<noteq> [] \<Longrightarrow> Join (l # ls) = l @ separator # Join ls"
  by (cases ls) auto

lemma Join_push: "Join ((c # l) # ls) = c # Join (l # ls)"
  by (cases ls) auto

lemma Join_Split [simp]: "Join (Split s) = s"
proof (induction s)
  case (Cons c cs)
  then show ?case
    by (cases "Split cs") (auto simp: Join_Cons Join_push)
qed simp

lemma Split_inject: "Split s = Split t \<longleftrightarrow> s = t"
  by (metis Join_Split)

lemma Split_no_separator: "l \<in> set (Split s) \<Longrightarrow> separator \<notin> set l"
proof (induction s arbitrary: l)
  case (Cons c cs)
  then show ?case
    by (cases "Split cs") (auto split: if_splits)
qed auto

lemma Split_level: "separator \<notin> set l \<Longrightarrow> Split l = [l]"
  by (induction l) auto

lemma Split_append: "separator \<notin> set l \<Longrightarrow> Split (l @ separator # s) = l # Split s"
  by (induction l) auto

lemma Split_Join:
  "ls \<noteq> [] \<Longrightarrow> \<forall>l \<in> set ls. separator \<notin> set l \<Longrightarrow> Split (Join ls) = ls"
  by (induction ls rule: Join.induct) (auto simp: Split_level Split_append)

lemma length_Split: "length (Split s) = Count s + 1"
proof (induction s)
  case (Cons c cs)
  then show ?case
    by (cases "Split cs") (auto simp: Count_def)
qed (simp add: Count_def)

lemma set_Join: "l \<in> set ls \<Longrightarrow> set l \<subseteq> set (Join ls)"
  by (induction ls rule: Join.induct) auto

lemma set_Split_subset: "l \<in> set (Split s) \<Longrightarrow> set l \<subseteq> set s"
  using set_Join [of l "Split s"] by simp

lemma Levels_not_Nil [simp]: "Levels s \<noteq> []"
  by (simp add: Levels_def)

lemma Levels_inject [simp]: "Levels s = Levels t \<longleftrightarrow> s = t"
  by (simp add: Levels_def Split_inject)

lemma wildcards_differ [simp]:
  "SingleLevelWildcard \<noteq> MultiLevelWildcard" "MultiLevelWildcard \<noteq> SingleLevelWildcard"
  by (simp_all add: SingleLevelWildcard_def MultiLevelWildcard_def)

subsection \<open>Matching, level by level\<close>

text \<open>
  A structural form of the loop, and the rule of section 4.7 stated over whole levels:
  a level of the filter is the single-level wildcard or equals the level of the topic, and a
  final multi-level wildcard stands for any number of levels, none included.
\<close>

fun level_match :: "level list \<Rightarrow> level list \<Rightarrow> bool" where
  "level_match [] ts = (ts = [])"
| "level_match (f # fs) ts =
     (f = MultiLevelWildcard \<or>
      (case ts of [] \<Rightarrow> False
       | t # ts' \<Rightarrow> (f = SingleLevelWildcard \<or> f = t) \<and> level_match fs ts'))"

definition level_ok :: "level \<Rightarrow> level \<Rightarrow> bool" where
  "level_ok f t = (f = SingleLevelWildcard \<or> f = t)"

definition guarded :: "level list \<Rightarrow> topic_name \<Rightarrow> bool" where
  "guarded fs t = (IsSystem t \<longrightarrow> hd fs \<noteq> SingleLevelWildcard \<and> hd fs \<noteq> MultiLevelWildcard)"

lemma matchLoop_level_match:
  assumes "i \<le> length ts"
  shows "matchLoop i fs ts = Some True \<or> matchLoop i fs ts = None \<and> i + length fs = length ts
    \<longleftrightarrow> level_match fs (drop i ts)"
  using assms
proof (induction i fs ts rule: matchLoop.induct)
  case (2 i f fs ts)
  show ?case
  proof (cases "i < length ts")
    case True
    then have "drop i ts = ts ! i # drop (Suc i) ts" by (simp add: Cons_nth_drop_Suc)
    with True 2 show ?thesis by auto
  qed (use 2 in auto)
qed auto

lemma Matches_level_match: "Matches f t \<longleftrightarrow> guarded (Levels f) t \<and> level_match (Levels f) (Levels t)"
  using matchLoop_level_match [of 0 "Levels t" "Levels f"]
  by (auto simp: Matches_def guarded_def Let_def hd_conv_nth split: option.splits)

lemma level_match_nth:
  assumes "MultiLevelWildcard \<notin> set (butlast fs)"
  shows "level_match fs ts \<longleftrightarrow>
    (if fs \<noteq> [] \<and> last fs = MultiLevelWildcard
     then length fs - 1 \<le> length ts \<and> (\<forall>i < length fs - 1. level_ok (fs ! i) (ts ! i))
     else length fs = length ts \<and> (\<forall>i < length fs. level_ok (fs ! i) (ts ! i)))"
  using assms
proof (induction fs arbitrary: ts)
  case (Cons f fs)
  show ?case
  proof (cases "fs = []")
    case True
    then show ?thesis by (auto simp: level_ok_def split: list.splits)
  next
    case False
    then obtain n where n: "length fs = Suc n" by (cases fs) auto
    have f: "f \<noteq> MultiLevelWildcard" using Cons.prems False by auto
    have IH: "level_match fs ts' \<longleftrightarrow>
      (if last fs = MultiLevelWildcard
       then n \<le> length ts' \<and> (\<forall>i < n. level_ok (fs ! i) (ts' ! i))
       else Suc n = length ts' \<and> (\<forall>i < Suc n. level_ok (fs ! i) (ts' ! i)))" for ts'
      using Cons.IH [of ts'] Cons.prems False n by auto
    show ?thesis
      using f False n by (cases ts) (auto simp: IH All_less_Suc2 level_ok_def)
  qed
qed auto

lemma filterLevelError_None:
  "filterLevelError n i ls = None \<longleftrightarrow>
     (\<forall>j < length ls. (ls ! j = SingleLevelWildcard \<or> ls ! j = MultiLevelWildcard
         \<or> CHR ''+'' \<notin> set (ls ! j) \<and> CHR ''#'' \<notin> set (ls ! j))
       \<and> (ls ! j = MultiLevelWildcard \<longrightarrow> i + j = n - 1))"
proof (induction ls arbitrary: i)
  case (Cons l ls)
  show ?case
    using Cons.IH [of "Suc i"] by (auto simp: All_less_Suc2)
qed auto

lemma NewTopicFilter_Inr:
  "NewTopicFilter raw = Inr f \<longleftrightarrow>
     f = raw \<and> raw \<noteq> '''' \<and> length raw \<le> MaxTopicLength \<and> CHR 0x00 \<notin> set raw
     \<and> length (Split raw) \<le> MaxTopicLevels
     \<and> (\<forall>l \<in> set (Split raw). l = SingleLevelWildcard \<or> l = MultiLevelWildcard
           \<or> CHR ''+'' \<notin> set l \<and> CHR ''#'' \<notin> set l)
     \<and> MultiLevelWildcard \<notin> set (butlast (Split raw))"
proof -
  have last: "(\<forall>j < length ls. ls ! j = MultiLevelWildcard \<longrightarrow> j = length ls - 1) \<longleftrightarrow>
      MultiLevelWildcard \<notin> set (butlast ls)" for ls :: "level list"
  proof -
    have "j < length ls - 1 \<or> j = length ls - 1 \<longleftrightarrow> j < length ls" if "ls \<noteq> []" for j
      using that by (cases ls) auto
    then show ?thesis
      by (cases "ls = []") (auto simp: in_set_conv_nth nth_butlast)
  qed
  have all: "(\<forall>l \<in> set ls. P l) \<longleftrightarrow> (\<forall>j < length ls. P (ls ! j))" for ls :: "level list" and P
    by (metis in_set_conv_nth)
  have ok: "(case x of Some e \<Rightarrow> Inl e | None \<Rightarrow> Inr raw) = Inr f \<longleftrightarrow> x = None \<and> f = raw"
    for x :: "app_error option"
    by (cases x) auto
  show ?thesis
    unfolding NewTopicFilter_def ContainsNull_def Let_def last [symmetric] all
    by (simp add: ok filterLevelError_None not_less) blast
qed

lemma ContainsAny_wildcards:
  "ContainsAny s (SingleLevelWildcard @ MultiLevelWildcard) \<longleftrightarrow> CHR ''+'' \<in> set s \<or> CHR ''#'' \<in> set s"
  by (auto simp: ContainsAny_def SingleLevelWildcard_def MultiLevelWildcard_def list_ex_iff)

lemma NewTopicName_Inr:
  "NewTopicName raw = Inr t \<longleftrightarrow>
     t = raw \<and> raw \<noteq> '''' \<and> length raw \<le> MaxTopicLength \<and> CHR ''+'' \<notin> set raw \<and> CHR ''#'' \<notin> set raw
     \<and> CHR 0x00 \<notin> set raw \<and> length (Split raw) \<le> MaxTopicLevels"
  by (auto simp: NewTopicName_def ContainsAny_wildcards ContainsNull_def length_Split)

lemma plain_levels:
  assumes "\<not> HasWildcard f" and "l \<in> set (Levels f)"
  shows "l \<noteq> SingleLevelWildcard \<and> l \<noteq> MultiLevelWildcard"
  using assms set_Split_subset [of l f]
  unfolding HasWildcard_def ContainsAny_wildcards Levels_def
  by (auto simp: SingleLevelWildcard_def MultiLevelWildcard_def)

lemma level_match_plain:
  assumes "\<forall>l \<in> set fs. l \<noteq> SingleLevelWildcard \<and> l \<noteq> MultiLevelWildcard"
  shows "level_match fs ts \<longleftrightarrow> fs = ts"
  using assms by (induction fs arbitrary: ts) (auto split: list.splits)

subsection \<open>Quality of service\<close>

lemma Downgrade_min: "Downgrade q r = min (min q r) MaxSupportedQoS"
  by (auto simp: Downgrade_def Let_def min_def)

lemma RequiresAcknowledgement_iff: "RequiresAcknowledgement q \<longleftrightarrow> q \<noteq> 0"
  by (simp add: RequiresAcknowledgement_def word_le_nat_alt Suc_le_eq unat_gt_0)

subsection \<open>Properties\<close>

text \<open>Claim C39. For a filter that the constructor accepts, \<open>Matches\<close> is the rule of
  section 4.7 of the protocol: a filter ending in \<open>#\<close> selects a topic whose leading levels
  agree, level for level up to \<open>+\<close>, with the levels before the \<open>#\<close> (the parent included);
  any other filter selects a topic of the same number of levels that agree; and a filter
  whose first level is a wildcard never selects a topic that starts with a dollar sign.\<close>

theorem Matches_spec:
  assumes "NewTopicFilter raw = Inr f"
  shows "Matches f t \<longleftrightarrow>
    \<not> (IsSystem t \<and> (Levels f ! 0 = SingleLevelWildcard \<or> Levels f ! 0 = MultiLevelWildcard))
    \<and> (if last (Levels f) = MultiLevelWildcard
       then length (Levels f) - 1 \<le> length (Levels t)
         \<and> (\<forall>i < length (Levels f) - 1. level_ok (Levels f ! i) (Levels t ! i))
       else length (Levels f) = length (Levels t)
         \<and> (\<forall>i < length (Levels f). level_ok (Levels f ! i) (Levels t ! i)))"
proof -
  from assms have "MultiLevelWildcard \<notin> set (butlast (Levels f))"
    by (simp add: NewTopicFilter_Inr Levels_def)
  then show ?thesis
    unfolding Matches_level_match guarded_def by (subst level_match_nth) (auto simp: hd_conv_nth)
qed

lemma Matches_spec_witness:
  "Matches ''a/#'' ''a'' \<longleftrightarrow>
    \<not> (IsSystem ''a'' \<and> (Levels ''a/#'' ! 0 = SingleLevelWildcard \<or> Levels ''a/#'' ! 0 = MultiLevelWildcard))
    \<and> (if last (Levels ''a/#'') = MultiLevelWildcard
       then length (Levels ''a/#'') - 1 \<le> length (Levels ''a'')
         \<and> (\<forall>i < length (Levels ''a/#'') - 1. level_ok (Levels ''a/#'' ! i) (Levels ''a'' ! i))
       else length (Levels ''a/#'') = length (Levels ''a'')
         \<and> (\<forall>i < length (Levels ''a/#''). level_ok (Levels ''a/#'' ! i) (Levels ''a'' ! i)))"
  by (rule Matches_spec [of "''a/#''"])
    (simp add: NewTopicFilter_Inr MaxTopicLength_def MaxTopicLevels_def SingleLevelWildcard_def MultiLevelWildcard_def)

text \<open>A filter without a wildcard selects exactly the topic of its own name.\<close>

theorem Matches_without_wildcard:
  assumes "\<not> HasWildcard f"
  shows "Matches f t \<longleftrightarrow> f = t"
proof -
  have "hd (Levels f) \<in> set (Levels f)" by simp
  with plain_levels [OF assms] have "guarded (Levels f) t" by (auto simp: guarded_def)
  moreover have "level_match (Levels f) (Levels t) \<longleftrightarrow> Levels f = Levels t"
    using plain_levels [OF assms] by (intro level_match_plain) auto
  ultimately show ?thesis by (simp add: Matches_level_match)
qed

lemma Matches_without_wildcard_witness: "Matches ''a/b'' ''a/c'' \<longleftrightarrow> ''a/b'' = ''a/c''"
  by (rule Matches_without_wildcard)
    (simp add: HasWildcard_def ContainsAny_def SingleLevelWildcard_def MultiLevelWildcard_def)

end
