(* ===== verification/Messages.thy ===== *)
theory Messages
  imports Topics
begin

text \<open>
  The Message aggregate (\<open>pkg/domain/message_aggregate/message.go\<close>) and the Subscription
  entity (\<open>pkg/domain/subscription_aggregate/subscription.go\<close>). Messages are immutable, so
  the pointer to a message is the message; \<open>Payload\<close>, \<open>PayloadRef\<close> and the other getters
  are the selectors of the record.

  The lemmas show which parameters \<open>NewMessage\<close> accepts, that a message is well-formed
  after every derivation the delivery path uses, and that a delivery never exceeds the
  publisher's, the subscription's or the broker's level.
\<close>

subsection \<open>Messages\<close>

definition DefaultMaxPayloadBytes :: int where
  "DefaultMaxPayloadBytes = 2 ^ 20"

record message =
  m_topic :: topic_name
  m_payload :: bytes
  m_qos :: qos
  m_retain :: bool
  m_dup :: bool
  m_packetID :: u16
  m_createdAt :: time

record newMessageParams =
  mp_Topic :: topic_name
  mp_Payload :: bytes
  mp_QoS :: qos
  mp_Retain :: bool
  mp_DUP :: bool
  mp_PacketID :: u16
  mp_Now :: time
  mp_MaxPayloadBytes :: int

text \<open>\<open>wall\<close> is the value of \<open>time.Now()\<close>, used when the caller supplies the zero time.\<close>

definition NewMessage :: "time \<Rightarrow> newMessageParams \<Rightarrow> app_error + message" where
  "NewMessage wall p =
     (if mp_Topic p = '''' then Inl (Invalid EInvalidTopicName ''topic is required'')
      else if mp_QoS p > QoSExactlyOnce then Inl (Invalid EInvalidQoS ''QoS must be 0, 1 or 2'')
      else
        let limit = (if mp_MaxPayloadBytes p \<le> 0 then DefaultMaxPayloadBytes else mp_MaxPayloadBytes p) in
        if int (length (mp_Payload p)) > limit
        then Inl (Invalid EPayloadTooLarge ''payload exceeds the configured maximum size'')
        else if RequiresAcknowledgement (mp_QoS p) \<and> mp_PacketID p = 0
        then Inl (Invalid EInvalidPacketID ''a packet identifier is required for QoS 1 and 2'')
        else
          let now = (if mp_Now p = 0 then wall else mp_Now p) in
          Inr \<lparr>m_topic = mp_Topic p, m_payload = mp_Payload p, m_qos = mp_QoS p, m_retain = mp_Retain p,
               m_dup = mp_DUP p, m_packetID = mp_PacketID p, m_createdAt = now\<rparr>)"

definition PayloadSize :: "message \<Rightarrow> nat" where
  "PayloadSize m = length (m_payload m)"

definition IsEmpty :: "message \<Rightarrow> bool" where
  "IsEmpty m = (length (m_payload m) = 0)"

definition ClearsRetained :: "message \<Rightarrow> bool" where
  "ClearsRetained m = (m_retain m \<and> IsEmpty m)"

definition WithQoS :: "message \<Rightarrow> qos \<Rightarrow> u16 \<Rightarrow> message" where
  "WithQoS m qos packetID =
     (let clone = m\<lparr>m_qos := qos, m_packetID := packetID\<rparr> in
      if \<not> RequiresAcknowledgement qos then clone\<lparr>m_packetID := 0\<rparr> else clone)"

definition AsRetainedDelivery :: "message \<Rightarrow> message" where
  "AsRetainedDelivery m = m\<lparr>m_retain := True\<rparr>"

definition AsLiveDelivery :: "message \<Rightarrow> message" where
  "AsLiveDelivery m = m\<lparr>m_retain := False\<rparr>"

definition AsRedelivery :: "message \<Rightarrow> message" where
  "AsRedelivery m = m\<lparr>m_dup := True\<rparr>"

subsection \<open>Subscriptions\<close>

record subscription =
  sub_clientID :: string
  sub_filter :: topic_filter
  sub_requestedQoS :: qos
  sub_grantedQoS :: qos
  sub_createdAt :: time

definition NewSubscription :: "string \<Rightarrow> topic_filter \<Rightarrow> qos \<Rightarrow> time \<Rightarrow> subscription" where
  "NewSubscription clientID filt requestedQoS now =
     (let granted = requestedQoS;
          granted = (if granted > MaxSupportedQoS then MaxSupportedQoS else granted)
      in \<lparr>sub_clientID = clientID, sub_filter = filt, sub_requestedQoS = requestedQoS,
          sub_grantedQoS = granted, sub_createdAt = now\<rparr>)"

definition subscription_Matches :: "subscription \<Rightarrow> topic_name \<Rightarrow> bool" where
  "subscription_Matches s topic = Matches (sub_filter s) topic"

definition EffectiveQoS :: "subscription \<Rightarrow> qos \<Rightarrow> qos" where
  "EffectiveQoS s publishQoS = Downgrade publishQoS (sub_grantedQoS s)"

definition WasDowngraded :: "subscription \<Rightarrow> bool" where
  "WasDowngraded s = (sub_grantedQoS s < sub_requestedQoS s)"

subsection \<open>Lemmas\<close>

text \<open>The level is legal, and an identifier is present exactly when the level needs one.\<close>

definition message_ok :: "message \<Rightarrow> bool" where
  "message_ok m = (m_topic m \<noteq> '''' \<and> m_qos m \<le> QoSExactlyOnce \<and> (m_qos m \<noteq> 0 \<longrightarrow> m_packetID m \<noteq> 0))"

lemma NewMessage_Inr:
  "NewMessage wall p = Inr m \<longleftrightarrow>
     mp_Topic p \<noteq> '''' \<and> mp_QoS p \<le> QoSExactlyOnce \<and> (mp_QoS p \<noteq> 0 \<longrightarrow> mp_PacketID p \<noteq> 0)
     \<and> int (length (mp_Payload p))
        \<le> (if mp_MaxPayloadBytes p \<le> 0 then DefaultMaxPayloadBytes else mp_MaxPayloadBytes p)
     \<and> m = \<lparr>m_topic = mp_Topic p, m_payload = mp_Payload p, m_qos = mp_QoS p, m_retain = mp_Retain p,
            m_dup = mp_DUP p, m_packetID = mp_PacketID p, m_createdAt = (if mp_Now p = 0 then wall else mp_Now p)\<rparr>"
  by (auto simp: NewMessage_def Let_def not_less RequiresAcknowledgement_iff)

lemma NewMessage_ok: "NewMessage wall p = Inr m \<Longrightarrow> message_ok m"
  by (auto simp: NewMessage_Inr message_ok_def)

lemma message_ok_derived [simp]:
  "message_ok m \<Longrightarrow> message_ok (AsRetainedDelivery m)"
  "message_ok m \<Longrightarrow> message_ok (AsLiveDelivery m)"
  "message_ok m \<Longrightarrow> message_ok (AsRedelivery m)"
  by (simp_all add: message_ok_def AsRetainedDelivery_def AsLiveDelivery_def AsRedelivery_def)

lemma message_ok_WithQoS:
  "message_ok m \<Longrightarrow> q \<le> QoSExactlyOnce \<Longrightarrow> q \<noteq> 0 \<longrightarrow> pid \<noteq> 0 \<Longrightarrow> message_ok (WithQoS m q pid)"
  by (auto simp: message_ok_def WithQoS_def Let_def RequiresAcknowledgement_iff)

lemma WithQoS_simps [simp]:
  "m_topic (WithQoS m q pid) = m_topic m" "m_payload (WithQoS m q pid) = m_payload m"
  "m_qos (WithQoS m q pid) = q" "m_retain (WithQoS m q pid) = m_retain m" "m_dup (WithQoS m q pid) = m_dup m"
  "m_packetID (WithQoS m q pid) = (if q = 0 then 0 else pid)" "m_createdAt (WithQoS m q pid) = m_createdAt m"
  by (simp_all add: WithQoS_def Let_def RequiresAcknowledgement_iff)

lemma delivery_simps [simp]:
  "m_topic (AsLiveDelivery m) = m_topic m" "m_payload (AsLiveDelivery m) = m_payload m"
  "m_qos (AsLiveDelivery m) = m_qos m" "m_retain (AsLiveDelivery m) = False" "m_dup (AsLiveDelivery m) = m_dup m"
  "m_packetID (AsLiveDelivery m) = m_packetID m"
  "m_topic (AsRetainedDelivery m) = m_topic m" "m_payload (AsRetainedDelivery m) = m_payload m"
  "m_qos (AsRetainedDelivery m) = m_qos m" "m_retain (AsRetainedDelivery m) = True"
  "m_dup (AsRetainedDelivery m) = m_dup m" "m_packetID (AsRetainedDelivery m) = m_packetID m"
  "m_topic (AsRedelivery m) = m_topic m" "m_payload (AsRedelivery m) = m_payload m"
  "m_qos (AsRedelivery m) = m_qos m" "m_retain (AsRedelivery m) = m_retain m" "m_dup (AsRedelivery m) = True"
  "m_packetID (AsRedelivery m) = m_packetID m"
  by (simp_all add: AsLiveDelivery_def AsRetainedDelivery_def AsRedelivery_def)

lemma NewSubscription_simps [simp]:
  "sub_clientID (NewSubscription c f q now) = c" "sub_filter (NewSubscription c f q now) = f"
  "sub_requestedQoS (NewSubscription c f q now) = q" "sub_createdAt (NewSubscription c f q now) = now"
  "sub_grantedQoS (NewSubscription c f q now) = min q MaxSupportedQoS"
  by (auto simp: NewSubscription_def Let_def min_def)

lemma EffectiveQoS_bounds:
  "EffectiveQoS s q \<le> q" "EffectiveQoS s q \<le> sub_grantedQoS s" "EffectiveQoS s q \<le> MaxSupportedQoS"
  by (auto simp: EffectiveQoS_def Downgrade_min min_le_iff_disj)

end
