(* ===== verification/Sessions.thy ===== *)
theory Sessions
  imports Messages "HOL-Library.Product_Lexorder"
begin

text \<open>
  The Session aggregate: \<open>pkg/domain/session_aggregate/session.go\<close> and
  \<open>value_objects/packet_id.go\<close>. A session is a record; every method is a function that
  returns the session it leaves behind. The two maps of the session are association lists.

  The lemmas show that every method keeps the invariant \<open>session_ok\<close> (bounded maps and
  queue, no zero identifier, consistent keys), that the identifier allocator returns the
  first free identifier from its cursor and fails only when all 65535 are taken, that the
  in-place insertion sort is a stable sort by sending time and identifier, and that the
  offline queue is a bounded queue that drops its oldest element.
\<close>

subsection \<open>Packet identifiers\<close>

type_synonym packet_id = u16

abbreviation MinPacketID :: packet_id where "MinPacketID \<equiv> 1"
abbreviation MaxPacketID :: packet_id where "MaxPacketID \<equiv> 65535"

definition NewPacketID :: "u16 \<Rightarrow> app_error + packet_id" where
  "NewPacketID raw =
     (if raw = 0 then Inl (Invalid EUnknownPacketID ''packet identifier must not be zero'') else Inr raw)"

definition packetID_String :: "packet_id \<Rightarrow> string" where
  "packetID_String p = decimal (unat p)"

subsection \<open>The session\<close>

record inflightMessage =
  im_PacketID :: packet_id
  im_Message :: message
  im_SentAt :: time
  im_Attempts :: u32

record session =
  se_clientID :: string
  se_clean :: bool
  se_subscriptions :: "(topic_filter, subscription) gomap"
  se_inflight :: "(packet_id, inflightMessage) gomap"
  se_nextPacketID :: packet_id
  se_queued :: "message list"
  se_maxInflight :: int
  se_maxQueued :: int
  se_maxSubscriptions :: int
  se_connected :: bool
  se_createdAt :: time
  se_lastConnectAt :: time
  se_disconnectedAt :: "time option"
  se_droppedFromQueue :: u64

record limits =
  li_MaxInflight :: int
  li_MaxQueued :: int
  li_MaxSubscriptions :: int

definition DefaultMaxInflight :: int where "DefaultMaxInflight = 32"
definition DefaultMaxQueued :: int where "DefaultMaxQueued = 1000"
definition DefaultMaxSubscriptions :: int where "DefaultMaxSubscriptions = 512"

definition withDefaults :: "limits \<Rightarrow> limits" where
  "withDefaults l =
     (let l = (if li_MaxInflight l \<le> 0 then l\<lparr>li_MaxInflight := DefaultMaxInflight\<rparr> else l);
          l = (if li_MaxQueued l \<le> 0 then l\<lparr>li_MaxQueued := DefaultMaxQueued\<rparr> else l)
      in if li_MaxSubscriptions l \<le> 0 then l\<lparr>li_MaxSubscriptions := DefaultMaxSubscriptions\<rparr> else l)"

definition NewSession :: "string \<Rightarrow> bool \<Rightarrow> limits \<Rightarrow> time \<Rightarrow> session" where
  "NewSession clientID clean limits now =
     (let limits = withDefaults limits in
      \<lparr>se_clientID = clientID, se_clean = clean, se_subscriptions = [], se_inflight = [],
       se_nextPacketID = MinPacketID, se_queued = [], se_maxInflight = li_MaxInflight limits,
       se_maxQueued = li_MaxQueued limits, se_maxSubscriptions = li_MaxSubscriptions limits,
       se_connected = True, se_createdAt = now, se_lastConnectAt = now, se_disconnectedAt = None,
       se_droppedFromQueue = 0\<rparr>)"

definition IsPersistent :: "session \<Rightarrow> bool" where
  "IsPersistent s = (\<not> se_clean s)"

definition InflightCount :: "session \<Rightarrow> nat" where
  "InflightCount s = length (se_inflight s)"

definition QueuedCount :: "session \<Rightarrow> nat" where
  "QueuedCount s = length (se_queued s)"

definition SubscriptionCount :: "session \<Rightarrow> nat" where
  "SubscriptionCount s = length (se_subscriptions s)"

definition HasInflightCapacity :: "session \<Rightarrow> bool" where
  "HasInflightCapacity s = (int (length (se_inflight s)) < se_maxInflight s)"

definition Subscriptions :: "session \<Rightarrow> subscription list" where
  "Subscriptions s = map snd (se_subscriptions s)"

definition session_Subscription :: "session \<Rightarrow> topic_filter \<Rightarrow> subscription option" where
  "session_Subscription s filt = mget (se_subscriptions s) filt"

subsection \<open>Connection lifecycle and subscriptions\<close>

definition Resume :: "session \<Rightarrow> time \<Rightarrow> session" where
  "Resume s now = s\<lparr>se_connected := True, se_lastConnectAt := now, se_disconnectedAt := None\<rparr>"

definition session_Disconnect :: "session \<Rightarrow> time \<Rightarrow> session" where
  "session_Disconnect s now = s\<lparr>se_connected := False, se_disconnectedAt := Some now\<rparr>"

definition session_Subscribe :: "session \<Rightarrow> topic_filter \<Rightarrow> qos \<Rightarrow> time \<Rightarrow> (app_error + qos) \<times> session" where
  "session_Subscribe s filt requestedQoS now =
     (if mget (se_subscriptions s) filt = None
         \<and> int (length (se_subscriptions s)) \<ge> se_maxSubscriptions s
      then (Inl (Invalid ESubscriptionLimit ''session has reached its subscription limit''), s)
      else
        let sub = NewSubscription (se_clientID s) filt requestedQoS now
        in (Inr (sub_grantedQoS sub), s\<lparr>se_subscriptions := mput filt sub (se_subscriptions s)\<rparr>))"

definition session_Unsubscribe :: "session \<Rightarrow> topic_filter \<Rightarrow> bool \<times> session" where
  "session_Unsubscribe s filt =
     (if mget (se_subscriptions s) filt = None then (False, s)
      else (True, s\<lparr>se_subscriptions := mdel filt (se_subscriptions s)\<rparr>))"

definition betterMatch :: "topic_name \<Rightarrow> subscription option \<Rightarrow> subscription \<Rightarrow> subscription option" where
  "betterMatch topic best sub =
     (if \<not> subscription_Matches sub topic then best
      else case best of
        None \<Rightarrow> Some sub
      | Some b \<Rightarrow> if sub_grantedQoS sub > sub_grantedQoS b then Some sub else best)"

definition MatchingSubscription :: "session \<Rightarrow> topic_name \<Rightarrow> subscription option" where
  "MatchingSubscription s topic = foldl (betterMatch topic) None (map snd (se_subscriptions s))"

subsection \<open>Packet identifiers and the in-flight window\<close>

function nextPacketIDLoop :: "nat \<Rightarrow> session \<Rightarrow> (app_error + packet_id) \<times> session" where
  "nextPacketIDLoop i s =
     (if i < unat MaxPacketID then
        let candidate = se_nextPacketID s;
            s = (if se_nextPacketID s = MaxPacketID then s\<lparr>se_nextPacketID := MinPacketID\<rparr>
                 else s\<lparr>se_nextPacketID := se_nextPacketID s + 1\<rparr>)
        in if mget (se_inflight s) candidate = None then (Inr candidate, s)
           else nextPacketIDLoop (i + 1) s
      else (Inl (Invalid EPacketIDExhausted ''no packet identifier is available for this session''), s))"
  by pat_completeness auto
termination
  by (relation "measure (\<lambda>(i, s). unat MaxPacketID - i)") auto

declare nextPacketIDLoop.simps [simp del]

definition NextPacketID :: "session \<Rightarrow> (app_error + packet_id) \<times> session" where
  "NextPacketID s = nextPacketIDLoop 0 s"

definition TrackInflight :: "session \<Rightarrow> packet_id \<Rightarrow> message \<Rightarrow> time \<Rightarrow> app_error option \<times> session" where
  "TrackInflight s packetID message now =
     (if packetID = 0 then (Some (Invalid EUnknownPacketID ''packet identifier must not be zero''), s)
      else if int (length (se_inflight s)) \<ge> se_maxInflight s
      then (Some (Invalid EInflightFull ''the in-flight window for this session is full''), s)
      else (None, s\<lparr>se_inflight := mput packetID
                      \<lparr>im_PacketID = packetID, im_Message = message, im_SentAt = now, im_Attempts = 1\<rparr>
                      (se_inflight s)\<rparr>))"

definition session_Acknowledge :: "session \<Rightarrow> packet_id \<Rightarrow> (app_error + inflightMessage) \<times> session" where
  "session_Acknowledge s packetID =
     (case mget (se_inflight s) packetID of
        None \<Rightarrow> (Inl (Invalid EUnknownPacketID
                   (''no in-flight message has packet identifier '' @ packetID_String packetID)), s)
      | Some message \<Rightarrow> (Inr message, s\<lparr>se_inflight := mdel packetID (se_inflight s)\<rparr>))"

definition inflightAfter :: "inflightMessage \<Rightarrow> inflightMessage \<Rightarrow> bool" where
  "inflightAfter a b =
     (if im_SentAt a = im_SentAt b then im_PacketID a > im_PacketID b else im_SentAt a > im_SentAt b)"

text \<open>
  The insertion sort, on the slice itself. The inner loop is called with \<open>j + 1\<close>, the index
  that is free to be written.
\<close>

fun shiftLoop :: "inflightMessage list \<Rightarrow> inflightMessage \<Rightarrow> nat \<Rightarrow> inflightMessage list" where
  "shiftLoop messages current 0 = messages[0 := current]"
| "shiftLoop messages current (Suc j) =
     (if inflightAfter (messages ! j) current
      then shiftLoop (messages[Suc j := messages ! j]) current j
      else messages[Suc j := current])"

lemma length_shiftLoop [simp]: "length (shiftLoop ms c j) = length ms"
  by (induction ms c j rule: shiftLoop.induct) auto

function sortLoop :: "nat \<Rightarrow> inflightMessage list \<Rightarrow> inflightMessage list" where
  "sortLoop i messages =
     (if i < length messages then sortLoop (i + 1) (shiftLoop messages (messages ! i) i) else messages)"
  by pat_completeness auto
termination
  by (relation "measure (\<lambda>(i, ms). length ms - i)") auto

declare sortLoop.simps [simp del]

definition sortInflightBySentAt :: "inflightMessage list \<Rightarrow> inflightMessage list" where
  "sortInflightBySentAt messages = sortLoop 1 messages"

definition InflightMessages :: "session \<Rightarrow> inflightMessage list" where
  "InflightMessages s = sortInflightBySentAt (map snd (se_inflight s))"

definition MarkRetransmitted :: "session \<Rightarrow> packet_id \<Rightarrow> time \<Rightarrow> session" where
  "MarkRetransmitted s packetID now =
     (case mget (se_inflight s) packetID of
        None \<Rightarrow> s
      | Some m \<Rightarrow> s\<lparr>se_inflight := mput packetID (m\<lparr>im_Attempts := im_Attempts m + 1, im_SentAt := now\<rparr>)
                     (se_inflight s)\<rparr>)"

definition ExpiredInflight :: "session \<Rightarrow> time \<Rightarrow> duration \<Rightarrow> inflightMessage list" where
  "ExpiredInflight s now timeout =
     sortInflightBySentAt (filter (\<lambda>m. time_sub now (im_SentAt m) > timeout) (map snd (se_inflight s)))"

subsection \<open>The offline queue\<close>

text \<open>\<open>queued[1:]\<close> is taken only of a full queue, which is not empty as the limit is positive.\<close>

definition Enqueue :: "session \<Rightarrow> message \<Rightarrow> bool \<times> session" where
  "Enqueue s message =
     (let dropped = int (length (se_queued s)) \<ge> se_maxQueued s;
          s = (if dropped
               then s\<lparr>se_queued := tl (se_queued s), se_droppedFromQueue := se_droppedFromQueue s + 1\<rparr>
               else s)
      in (dropped, s\<lparr>se_queued := se_queued s @ [message]\<rparr>))"

definition DrainQueue :: "session \<Rightarrow> int \<Rightarrow> message list \<times> session" where
  "DrainQueue s limit =
     (if limit \<le> 0 \<or> length (se_queued s) = 0 then ([], s)
      else
        let limit = (if limit > int (length (se_queued s)) then int (length (se_queued s)) else limit);
            batch = take (nat limit) (se_queued s)
        in (batch, s\<lparr>se_queued := drop (nat limit) (se_queued s)\<rparr>))"

definition PeekQueue :: "session \<Rightarrow> message list" where
  "PeekQueue s = se_queued s"

definition Clear :: "session \<Rightarrow> session" where
  "Clear s = s\<lparr>se_subscriptions := [], se_inflight := [], se_queued := [], se_nextPacketID := MinPacketID\<rparr>"

subsection \<open>The invariant\<close>

definition subscription_ok :: "string \<Rightarrow> topic_filter \<times> subscription \<Rightarrow> bool" where
  "subscription_ok cid = (\<lambda>(f, sub). sub_filter sub = f \<and> sub_clientID sub = cid
     \<and> sub_grantedQoS sub = min (sub_requestedQoS sub) MaxSupportedQoS)"

definition inflight_ok :: "packet_id \<times> inflightMessage \<Rightarrow> bool" where
  "inflight_ok = (\<lambda>(p, im). p \<noteq> 0 \<and> im_PacketID im = p)"

definition session_ok :: "session \<Rightarrow> bool" where
  "session_ok s =
     (map_ok (se_subscriptions s) \<and> list_all (subscription_ok (se_clientID s)) (se_subscriptions s)
      \<and> map_ok (se_inflight s) \<and> list_all inflight_ok (se_inflight s)
      \<and> se_nextPacketID s \<noteq> 0
      \<and> 0 < se_maxInflight s \<and> 0 < se_maxQueued s \<and> 0 < se_maxSubscriptions s
      \<and> int (length (se_subscriptions s)) \<le> se_maxSubscriptions s
      \<and> int (length (se_inflight s)) \<le> se_maxInflight s
      \<and> int (length (se_queued s)) \<le> se_maxQueued s)"

lemma list_all_mput: "list_all P m \<Longrightarrow> P (k, v) \<Longrightarrow> list_all P (mput k v m)"
  by (induction m) auto

lemma list_all_mdel: "list_all P m \<Longrightarrow> list_all P (mdel k m)"
  by (induction m) auto

lemma list_all_mget: "list_all P m \<Longrightarrow> mget m k = Some v \<Longrightarrow> P (k, v)"
  by (induction m) (auto split: if_splits)

lemmas list_all_map = list_all_mput list_all_mdel list_all_mget

lemma withDefaults_pos:
  "0 < li_MaxInflight (withDefaults l)" "0 < li_MaxQueued (withDefaults l)"
  "0 < li_MaxSubscriptions (withDefaults l)"
  by (simp_all add: withDefaults_def Let_def DefaultMaxInflight_def DefaultMaxQueued_def
      DefaultMaxSubscriptions_def)

lemma NewSession_ok: "session_ok (NewSession cid clean l now)"
  using withDefaults_pos [of l] by (simp add: session_ok_def NewSession_def Let_def)

lemma Resume_ok: "session_ok s \<Longrightarrow> session_ok (Resume s now)"
  by (simp add: session_ok_def Resume_def)

lemma Disconnect_ok: "session_ok s \<Longrightarrow> session_ok (session_Disconnect s now)"
  by (simp add: session_ok_def session_Disconnect_def)

lemma Clear_ok: "session_ok s \<Longrightarrow> session_ok (Clear s)"
  by (simp add: session_ok_def Clear_def)

lemma Subscribe_ok:
  assumes "session_ok s"
  shows "session_ok (snd (session_Subscribe s f q now))"
  using assms
  by (auto simp: session_ok_def session_Subscribe_def Let_def length_mput list_all_map subscription_ok_def)

lemma Unsubscribe_ok: "session_ok s \<Longrightarrow> session_ok (snd (session_Unsubscribe s f))"
  using length_mdel_le [of f "se_subscriptions s"]
  by (auto simp: session_ok_def session_Unsubscribe_def list_all_map)

lemma TrackInflight_ok: "session_ok s \<Longrightarrow> session_ok (snd (TrackInflight s p m now))"
  by (auto simp: session_ok_def TrackInflight_def length_mput list_all_map inflight_ok_def)

lemma Acknowledge_ok: "session_ok s \<Longrightarrow> session_ok (snd (session_Acknowledge s p))"
  using length_mdel_le [of p "se_inflight s"]
  by (auto simp: session_ok_def session_Acknowledge_def list_all_map split: option.split)

lemma MarkRetransmitted_ok: "session_ok s \<Longrightarrow> session_ok (MarkRetransmitted s p now)"
  using list_all_mget [of inflight_ok "se_inflight s" p]
  by (auto simp: session_ok_def MarkRetransmitted_def length_mput list_all_map inflight_ok_def split: option.split)

lemma Enqueue_ok: "session_ok s \<Longrightarrow> session_ok (snd (Enqueue s m))"
  by (auto simp: session_ok_def Enqueue_def Let_def)

lemma DrainQueue_ok: "session_ok s \<Longrightarrow> session_ok (snd (DrainQueue s n))"
  by (auto simp: session_ok_def DrainQueue_def Let_def)

subsection \<open>The identifier allocator\<close>

definition advance :: "packet_id \<Rightarrow> packet_id" where
  "advance p = (if p = MaxPacketID then MinPacketID else p + 1)"

lemma unat_advance:
  assumes "p \<noteq> 0"
  shows "unat (advance p) = unat p mod 65535 + 1"
proof (cases "p = MaxPacketID")
  case False
  have "unat p < 65536" using unsigned_less [of p] by simp
  moreover have "unat p \<noteq> 65535" using False by (simp add: word_unat_eq_iff)
  ultimately have "unat p < 65535" by linarith
  then have "unat (p + 1) = unat p + 1" by (simp add: unat_word_ariths)
  with False \<open>unat p < 65535\<close> show ?thesis by (simp add: advance_def)
qed (simp add: advance_def)

lemma advance_pow:
  assumes "p \<noteq> 0"
  shows "(advance ^^ k) p \<noteq> 0 \<and> unat ((advance ^^ k) p) = (unat p - 1 + k) mod 65535 + 1"
proof (induction k)
  case 0
  have "0 < unat p" "unat p < 65536" using assms unsigned_less [of p] by (auto simp: unat_gt_0)
  with assms show ?case by simp
next
  case (Suc k)
  then have "unat ((advance ^^ Suc k) p) = (unat p - 1 + Suc k) mod 65535 + 1"
    by (simp add: unat_advance mod_Suc_eq)
  then show ?case by (metis add_is_0 unat_0 zero_neq_one)
qed

lemma advance_covers:
  assumes "p \<noteq> 0" and "q \<noteq> 0"
  shows "\<exists>k < 65535. (advance ^^ k) p = q"
proof -
  define a where "a = unat p - 1"
  define b where "b = unat q - 1"
  have "0 < unat p" "unat p < 65536" "0 < unat q" "unat q < 65536"
    using assms unsigned_less [of p] unsigned_less [of q] by (auto simp: unat_gt_0)
  then have ab: "a < 65535" "b < 65535" "unat q = b + 1" by (auto simp: a_def b_def)
  define k where "k = (b + 65535 - a) mod 65535"
  have "(a + k) mod 65535 = (a + (b + 65535 - a)) mod 65535" by (simp add: k_def mod_add_right_eq)
  also have "\<dots> = b" using ab by simp
  finally have "unat ((advance ^^ k) p) = unat q"
    using advance_pow [OF assms(1), of k] ab(3) by (simp add: a_def)
  moreover have "k < 65535" by (simp add: k_def)
  ultimately show ?thesis by (metis word_unat_eq_iff)
qed

lemma nextPacketIDLoop_step:
  assumes "i < 65535"
  shows "nextPacketIDLoop i s =
     (if mget (se_inflight s) (se_nextPacketID s) = None
      then (Inr (se_nextPacketID s), s\<lparr>se_nextPacketID := advance (se_nextPacketID s)\<rparr>)
      else nextPacketIDLoop (i + 1) (s\<lparr>se_nextPacketID := advance (se_nextPacketID s)\<rparr>))"
  using assms by (subst nextPacketIDLoop.simps) (auto simp: advance_def Let_def)

lemma nextPacketIDLoop_free:
  assumes "k < 65535 - i" and "mget (se_inflight s) ((advance ^^ k) (se_nextPacketID s)) = None"
    and "\<forall>j < k. mget (se_inflight s) ((advance ^^ j) (se_nextPacketID s)) \<noteq> None"
  shows "nextPacketIDLoop i s = (Inr ((advance ^^ k) (se_nextPacketID s)),
      s\<lparr>se_nextPacketID := (advance ^^ Suc k) (se_nextPacketID s)\<rparr>)"
  using assms
proof (induction k arbitrary: i s)
  case 0
  then show ?case by (simp add: nextPacketIDLoop_step)
next
  case (Suc k)
  let ?s = "s\<lparr>se_nextPacketID := advance (se_nextPacketID s)\<rparr>"
  have "mget (se_inflight s) (se_nextPacketID s) \<noteq> None" using Suc.prems(3) by (metis funpow_0 zero_less_Suc)
  then have "nextPacketIDLoop i s = nextPacketIDLoop (i + 1) ?s"
    using Suc.prems(1) by (subst nextPacketIDLoop_step) auto
  also have "\<dots> = (Inr ((advance ^^ k) (se_nextPacketID ?s)),
      ?s\<lparr>se_nextPacketID := (advance ^^ Suc k) (se_nextPacketID ?s)\<rparr>)"
  proof (rule Suc.IH)
    show "\<forall>j < k. mget (se_inflight ?s) ((advance ^^ j) (se_nextPacketID ?s)) \<noteq> None"
      using Suc.prems(3) by (auto simp: funpow_swap1 dest: spec [of _ "Suc _"])
  qed (use Suc.prems in \<open>simp_all add: funpow_swap1\<close>)
  finally show ?case by (simp add: funpow_swap1)
qed

lemma nextPacketIDLoop_full:
  assumes "\<forall>j < 65535 - i. mget (se_inflight s) ((advance ^^ j) (se_nextPacketID s)) \<noteq> None"
  shows "nextPacketIDLoop i s =
    (Inl (Invalid EPacketIDExhausted ''no packet identifier is available for this session''),
     s\<lparr>se_nextPacketID := (advance ^^ (65535 - i)) (se_nextPacketID s)\<rparr>)"
  using assms
proof (induction "65535 - i" arbitrary: i s)
  case 0
  then show ?case by (simp add: nextPacketIDLoop.simps)
next
  case (Suc n)
  let ?s = "s\<lparr>se_nextPacketID := advance (se_nextPacketID s)\<rparr>"
  have "mget (se_inflight s) (se_nextPacketID s) \<noteq> None"
    using Suc.prems Suc.hyps(2) by (metis funpow_0 zero_less_Suc)
  then have "nextPacketIDLoop i s = nextPacketIDLoop (i + 1) ?s"
    using Suc.hyps(2) by (subst nextPacketIDLoop_step) auto
  moreover have "\<forall>j < 65535 - (i + 1). mget (se_inflight ?s) ((advance ^^ j) (se_nextPacketID ?s)) \<noteq> None"
  proof (intro allI impI)
    fix j assume "j < 65535 - (i + 1)"
    then have "Suc j < 65535 - i" by simp
    with Suc.prems show "mget (se_inflight ?s) ((advance ^^ j) (se_nextPacketID ?s)) \<noteq> None"
      by (auto simp: funpow_swap1)
  qed
  moreover have n: "n = 65535 - (i + 1)" using Suc.hyps(2) by simp
  ultimately have "nextPacketIDLoop i s =
    (Inl (Invalid EPacketIDExhausted ''no packet identifier is available for this session''),
     ?s\<lparr>se_nextPacketID := (advance ^^ n) (se_nextPacketID ?s)\<rparr>)"
    using Suc.hyps(1) [OF n, of ?s] by simp
  then show ?case unfolding Suc.hyps(2) [symmetric] by (simp add: funpow_swap1)
qed

lemma NextPacketID_cases:
  assumes "session_ok s"
  obtains (free) k where "k < 65535"
      "NextPacketID s = (Inr ((advance ^^ k) (se_nextPacketID s)),
         s\<lparr>se_nextPacketID := (advance ^^ Suc k) (se_nextPacketID s)\<rparr>)"
      "mget (se_inflight s) ((advance ^^ k) (se_nextPacketID s)) = None"
      "\<forall>j < k. mget (se_inflight s) ((advance ^^ j) (se_nextPacketID s)) \<noteq> None"
  | (full) "NextPacketID s =
        (Inl (Invalid EPacketIDExhausted ''no packet identifier is available for this session''),
         s\<lparr>se_nextPacketID := (advance ^^ 65535) (se_nextPacketID s)\<rparr>)"
      "\<forall>q. q \<noteq> 0 \<longrightarrow> mget (se_inflight s) q \<noteq> None"
proof (cases "\<exists>k < 65535. mget (se_inflight s) ((advance ^^ k) (se_nextPacketID s)) = None")
  case True
  let ?P = "\<lambda>k. k < 65535 \<and> mget (se_inflight s) ((advance ^^ k) (se_nextPacketID s)) = None"
  from True obtain k where k: "?P k" "\<forall>j < k. \<not> ?P j"
    using exists_least_iff [of ?P] by auto
  from k have "\<forall>j < k. mget (se_inflight s) ((advance ^^ j) (se_nextPacketID s)) \<noteq> None"
    by (meson order.strict_trans)
  with k show thesis
    using free [of k] nextPacketIDLoop_free [of k 0 s] by (simp add: NextPacketID_def)
next
  case False
  then have "NextPacketID s =
        (Inl (Invalid EPacketIDExhausted ''no packet identifier is available for this session''),
         s\<lparr>se_nextPacketID := (advance ^^ 65535) (se_nextPacketID s)\<rparr>)"
    using nextPacketIDLoop_full [of 0 s] unfolding NextPacketID_def by auto
  moreover have "\<forall>q. q \<noteq> 0 \<longrightarrow> mget (se_inflight s) q \<noteq> None"
    using False advance_covers [of "se_nextPacketID s"] assms by (metis session_ok_def)
  ultimately show thesis by (rule full)
qed

lemma advance_nonzero: "session_ok s \<Longrightarrow> (advance ^^ k) (se_nextPacketID s) \<noteq> 0"
  using advance_pow [of "se_nextPacketID s" k] by (simp add: session_ok_def)

lemma NextPacketID_Inr:
  assumes "session_ok s" and "NextPacketID s = (Inr p, s')"
  shows "p \<noteq> 0 \<and> mget (se_inflight s) p = None \<and> (\<exists>n. n \<noteq> 0 \<and> s' = s\<lparr>se_nextPacketID := n\<rparr>)"
  using assms(1)
proof (cases rule: NextPacketID_cases)
  case (free k)
  with assms(2) have "p = (advance ^^ k) (se_nextPacketID s)"
    "s' = s\<lparr>se_nextPacketID := (advance ^^ Suc k) (se_nextPacketID s)\<rparr>" by auto
  with free(3) advance_nonzero [OF assms(1), of k] advance_nonzero [OF assms(1), of "Suc k"]
  show ?thesis by (intro conjI exI [of _ "(advance ^^ Suc k) (se_nextPacketID s)"]) simp_all
qed (use assms(2) in simp)

lemma NextPacketID_ok:
  assumes "session_ok s"
  shows "session_ok (snd (NextPacketID s))"
proof -
  have "session_ok (s\<lparr>se_nextPacketID := (advance ^^ k) (se_nextPacketID s)\<rparr>)" for k
    using assms advance_nonzero [OF assms, of k] by (simp add: session_ok_def)
  note ok = this
  from assms show ?thesis
  proof (cases rule: NextPacketID_cases)
    case (free k)
    show ?thesis unfolding free(2) snd_conv by (rule ok)
  next
    case full
    show ?thesis unfolding full(1) snd_conv by (rule ok)
  qed
qed

lemma card_nonzero_ids: "card {q :: packet_id. q \<noteq> 0} = 65535"
proof -
  have "{q :: packet_id. q \<noteq> 0} = UNIV - {0}" by auto
  then show ?thesis by (simp add: card_Diff_singleton card_word)
qed

lemma NextPacketID_window:
  assumes "session_ok s" and "length (se_inflight s) < 65535"
  shows "\<exists>p s'. NextPacketID s = (Inr p, s')"
  using assms(1)
proof (cases rule: NextPacketID_cases)
  case full
  then have "{q :: packet_id. q \<noteq> 0} \<subseteq> dom (map_of (se_inflight s))" by auto
  then have "65535 \<le> card (dom (map_of (se_inflight s)))"
    using card_mono [OF finite_dom_map_of] card_nonzero_ids by metis
  moreover have "map_ok (se_inflight s)" using assms(1) by (simp add: session_ok_def)
  ultimately show ?thesis using assms(2) by (simp add: length_card_dom)
qed auto

subsection \<open>The insertion sort\<close>

definition inflight_key :: "inflightMessage \<Rightarrow> time \<times> packet_id" where
  "inflight_key m = (im_SentAt m, im_PacketID m)"

lemma inflightAfter_key: "inflightAfter a b \<longleftrightarrow> inflight_key b < inflight_key a"
  by (auto simp: inflightAfter_def inflight_key_def less_prod_def)

text \<open>Where the inner loop puts an element into a prefix.\<close>

definition insert_right :: "inflightMessage \<Rightarrow> inflightMessage list \<Rightarrow> inflightMessage list" where
  "insert_right c xs = rev (dropWhile (\<lambda>x. inflightAfter x c) (rev xs))
     @ c # rev (takeWhile (\<lambda>x. inflightAfter x c) (rev xs))"

lemma shiftLoop_insert:
  "j < length ms \<Longrightarrow> shiftLoop ms c j = insert_right c (take j ms) @ drop (Suc j) ms"
proof (induction ms c j rule: shiftLoop.induct)
  case (1 ms c)
  then show ?case by (cases ms) (simp_all add: insert_right_def)
next
  case (2 ms c j)
  have take: "take (Suc j) ms = take j ms @ [ms ! j]" using 2(2) by (simp add: take_Suc_conv_app_nth)
  have drop: "drop (Suc j) (ms[Suc j := x]) = x # drop (Suc (Suc j)) ms" for x
    using 2(2) by (metis Cons_nth_drop_Suc drop_update_cancel length_list_update lessI nth_list_update_eq)
  show ?case
  proof (cases "inflightAfter (ms ! j) c")
    case True
    with 2 have "shiftLoop ms c (Suc j)
        = insert_right c (take j ms) @ ms ! j # drop (Suc (Suc j)) ms"
      using drop [of "ms ! j"] by simp
    with take True show ?thesis by (simp add: insert_right_def)
  next
    case False
    have "ms[Suc j := c] = take (Suc j) ms @ c # drop (Suc (Suc j)) ms"
      using 2(2) by (simp add: upd_conv_take_nth_drop)
    with take False show ?thesis by (simp add: insert_right_def)
  qed
qed

lemma mset_insert_right: "mset (insert_right c xs) = add_mset c (mset xs)"
proof -
  have "mset (rev xs) = mset (takeWhile (\<lambda>x. inflightAfter x c) (rev xs))
      + mset (dropWhile (\<lambda>x. inflightAfter x c) (rev xs))"
    by (metis mset_append takeWhile_dropWhile_id)
  then show ?thesis by (simp add: insert_right_def)
qed

lemma sorted_insert_right:
  assumes "sorted (map inflight_key xs)"
  shows "sorted (map inflight_key (insert_right c xs))"
proof -
  let ?P = "\<lambda>x. inflightAfter x c"
  define hi where "hi = rev (takeWhile ?P (rev xs))"
  define lo where "lo = rev (dropWhile ?P (rev xs))"
  have xs: "xs = lo @ hi"
    by (simp add: lo_def hi_def rev_append [symmetric] del: rev_append)
  have hi: "\<forall>x \<in> set hi. inflight_key c < inflight_key x"
    by (auto simp: hi_def inflightAfter_key dest: set_takeWhileD)
  have lo: "\<forall>x \<in> set lo. inflight_key x \<le> inflight_key c"
  proof (cases "lo = []")
    case False
    then have "dropWhile ?P (rev xs) \<noteq> []" by (simp add: lo_def)
    then have "\<not> ?P (hd (dropWhile ?P (rev xs)))" by (rule hd_dropWhile)
    then have "inflight_key (last lo) \<le> inflight_key c"
      using False by (simp add: lo_def last_rev inflightAfter_key)
    moreover have "\<forall>x \<in> set lo. inflight_key x \<le> inflight_key (last lo)"
    proof -
      obtain bl where bl: "lo = bl @ [last lo]" using False by (metis append_butlast_last_id)
      have "sorted (map inflight_key (bl @ [last lo]))"
        using assms unfolding xs bl [symmetric] by (simp add: sorted_append)
      then show ?thesis by (subst bl) (auto simp: sorted_append)
    qed
    ultimately show ?thesis by force
  qed simp
  show ?thesis
    unfolding insert_right_def hi_def [symmetric] lo_def [symmetric]
    using assms hi lo unfolding xs by (fastforce simp: sorted_append)
qed


lemma filter_insert_right:
  "filter (\<lambda>x. k = inflight_key x) (insert_right c xs)
    = filter (\<lambda>x. k = inflight_key x) xs @ (if k = inflight_key c then [c] else [])"
proof -
  let ?P = "\<lambda>x. inflightAfter x c"
  define hi where "hi = rev (takeWhile ?P (rev xs))"
  define lo where "lo = rev (dropWhile ?P (rev xs))"
  have xs: "xs = lo @ hi"
    by (simp add: lo_def hi_def rev_append [symmetric] del: rev_append)
  have "\<forall>x \<in> set hi. inflight_key c \<noteq> inflight_key x"
    by (auto simp: hi_def inflightAfter_key dest: set_takeWhileD)
  then have "k = inflight_key c \<Longrightarrow> filter (\<lambda>x. k = inflight_key x) hi = []"
    by (auto simp: filter_empty_conv)
  then show ?thesis
    unfolding insert_right_def hi_def [symmetric] lo_def [symmetric] by (simp add: xs)
qed

lemma sortLoop_invariant:
  assumes "i \<le> length ms" and "sorted (map inflight_key (take i ms))"
  shows "mset (sortLoop i ms) = mset ms \<and> sorted (map inflight_key (sortLoop i ms))
    \<and> (\<forall>k. filter (\<lambda>x. k = inflight_key x) (sortLoop i ms) = filter (\<lambda>x. k = inflight_key x) ms)"
  using assms
proof (induction i ms rule: sortLoop.induct)
  case (1 i ms)
  show ?case
  proof (cases "i < length ms")
    case True
    let ?ms = "shiftLoop ms (ms ! i) i"
    have shift: "?ms = insert_right (ms ! i) (take i ms) @ drop (Suc i) ms"
      using True by (rule shiftLoop_insert)
    have split: "ms = take i ms @ ms ! i # drop (Suc i) ms" using True by (rule id_take_nth_drop)
    have len: "length (insert_right (ms ! i) (take i ms)) = Suc i"
      using arg_cong [OF mset_insert_right, of size "ms ! i" "take i ms"] True by simp
    have "sorted (map inflight_key (take (i + 1) ?ms))"
      using 1(3) len by (simp add: shift sorted_insert_right)
    with 1(1) [OF True] True have IH: "mset (sortLoop (i + 1) ?ms) = mset ?ms
        \<and> sorted (map inflight_key (sortLoop (i + 1) ?ms))
        \<and> (\<forall>k. filter (\<lambda>x. k = inflight_key x) (sortLoop (i + 1) ?ms) = filter (\<lambda>x. k = inflight_key x) ?ms)"
      by simp
    have "mset ?ms = mset ms"
      using arg_cong [OF split, of mset] by (simp add: shift mset_insert_right)
    moreover have "filter (\<lambda>x. k = inflight_key x) ?ms = filter (\<lambda>x. k = inflight_key x) ms" for k
      using arg_cong [OF split, of "filter (\<lambda>x. k = inflight_key x)"] by (simp add: shift filter_insert_right)
    ultimately show ?thesis using IH True by (subst (1 2 3) sortLoop.simps) simp
  next
    case False
    with 1 show ?thesis by (simp add: sortLoop.simps)
  qed
qed

lemma sortInflightBySentAt_sort_key: "sortInflightBySentAt ms = sort_key inflight_key ms"
proof (cases ms)
  case Nil
  then show ?thesis by (simp add: sortInflightBySentAt_def sortLoop.simps)
next
  case (Cons m ms')
  then have "1 \<le> length ms" "sorted (map inflight_key (take 1 ms))" by simp_all
  from sortLoop_invariant [OF this] show ?thesis
    unfolding sortInflightBySentAt_def by (intro properties_for_sort_key [symmetric]) blast+
qed

lemma inflight_keys_inj:
  assumes "session_ok s"
  shows "distinct (map inflight_key (map snd (se_inflight s)))"
proof -
  have keys: "map snd (map inflight_key (map snd (se_inflight s))) = map fst (se_inflight s)"
    using assms by (auto simp: session_ok_def list_all_iff inflight_ok_def inflight_key_def)
  have "distinct (map snd (map inflight_key (map snd (se_inflight s))))"
    unfolding keys using assms by (simp add: session_ok_def map_ok_def)
  then show ?thesis by (metis distinct_map)
qed


subsection \<open>The offline queue as a bounded queue\<close>

text \<open>Putting a list of elements, and how many elements were given up on the way.\<close>

fun put_all :: "('s \<Rightarrow> 'a \<Rightarrow> bool \<times> 's) \<Rightarrow> 's \<Rightarrow> 'a list \<Rightarrow> nat \<times> 's" where
  "put_all put s [] = (0, s)"
| "put_all put s (x # xs) =
     (let (d, s') = put s x; (n, s'') = put_all put s' xs in ((if d then n + 1 else n), s''))"

text \<open>
  The contract of a bounded queue that gives up its oldest element when it is full: \<open>content\<close>
  is the abstract queue, \<open>cap\<close> its capacity, \<open>put\<close> and \<open>drain\<close> the operations, and \<open>ok\<close> the
  invariant of the concrete state.
\<close>

locale bounded_queue =
  fixes ok :: "'s \<Rightarrow> bool" and content :: "'s \<Rightarrow> 'a list" and cap :: "'s \<Rightarrow> int"
    and put :: "'s \<Rightarrow> 'a \<Rightarrow> bool \<times> 's" and drain :: "'s \<Rightarrow> int \<Rightarrow> 'a list \<times> 's"
  assumes cap_pos: "ok s \<Longrightarrow> 0 < cap s"
    and bounded: "ok s \<Longrightarrow> int (length (content s)) \<le> cap s"
    and put_ok: "ok s \<Longrightarrow> ok (snd (put s x)) \<and> cap (snd (put s x)) = cap s"
    and put_content: "ok s \<Longrightarrow> content (snd (put s x))
      = drop (length (content s) + 1 - nat (cap s)) (content s @ [x])"
    and put_dropped: "ok s \<Longrightarrow> fst (put s x) \<longleftrightarrow> int (length (content s)) = cap s"
    and drain_ok: "ok s \<Longrightarrow> ok (snd (drain s n)) \<and> cap (snd (drain s n)) = cap s"
    and drain_content: "ok s \<Longrightarrow>
      fst (drain s n) = take (nat n) (content s) \<and> content (snd (drain s n)) = drop (nat n) (content s)"
begin

lemma put_all_ok: "ok s \<Longrightarrow> ok (snd (put_all put s xs)) \<and> cap (snd (put_all put s xs)) = cap s"
proof (induction xs arbitrary: s)
  case (Cons x xs)
  from Cons.IH [of "snd (put s x)"] put_ok [OF Cons.prems, of x] show ?case
    by (simp add: split_beta Let_def)
qed simp

lemma put_all_content:
  assumes "ok s"
  shows "content (snd (put_all put s xs))
      = drop (length (content s) + length xs - nat (cap s)) (content s @ xs)
    \<and> fst (put_all put s xs) = length (content s) + length xs - nat (cap s)"
  using assms
proof (induction xs arbitrary: s)
  case Nil
  then show ?case using bounded [OF Nil] cap_pos [OF Nil] by simp
next
  case (Cons x xs)
  let ?s = "snd (put s x)"
  have ok: "ok ?s" "cap ?s = cap s" using put_ok [OF Cons.prems] by auto
  have b: "length (content s) \<le> nat (cap s)" "0 < nat (cap s)"
    using bounded [OF Cons.prems] cap_pos [OF Cons.prems] by auto
  have d: "fst (put s x) \<longleftrightarrow> length (content s) = nat (cap s)"
    using put_dropped [OF Cons.prems, of x] cap_pos [OF Cons.prems] by auto
  have c: "content ?s = drop (length (content s) + 1 - nat (cap s)) (content s @ [x])"
    using put_content [OF Cons.prems] .
  have rec: "put_all put s (x # xs)
      = ((if fst (put s x) then fst (put_all put ?s xs) + 1 else fst (put_all put ?s xs)), snd (put_all put ?s xs))"
    by (simp add: split_beta Let_def)
  show ?case
  proof (cases "length (content s) = nat (cap s)")
    case True
    then have "content s \<noteq> []" using b by auto
    then obtain y ys where y: "content s = y # ys" by (cases "content s") auto
    with True c have c': "content ?s = ys @ [x]" by simp
    have n: "nat (cap s) = Suc (length ys)" using True y by simp
    show ?thesis
      using Cons.IH [OF ok(1)] d unfolding ok(2) c' rec y n by simp
  next
    case False
    with b have "length (content s) < nat (cap s)" by simp
    with c have c': "content ?s = content s @ [x]" by simp
    show ?thesis
      using Cons.IH [OF ok(1)] False d rec unfolding ok(2) c' by simp
  qed
qed

text \<open>What was put and not dropped comes out in the order it went in.\<close>

lemma drain_after_put_all:
  assumes "ok s" and "content s = []" and "int (length xs) \<le> cap s"
  shows "fst (drain (snd (put_all put s xs)) (int (length xs))) = xs"
  using put_all_content [OF assms(1), of xs] put_all_ok [OF assms(1), of xs] assms(2,3)
  by (simp add: drain_content)

end

interpretation offline: bounded_queue session_ok se_queued se_maxQueued Enqueue DrainQueue
proof
  fix s :: session and m n
  assume ok: "session_ok s"
  show "0 < se_maxQueued s" "int (length (se_queued s)) \<le> se_maxQueued s"
    using ok by (simp_all add: session_ok_def)
  show "session_ok (snd (Enqueue s m)) \<and> se_maxQueued (snd (Enqueue s m)) = se_maxQueued s"
    using Enqueue_ok [OF ok] by (simp add: Enqueue_def Let_def)
  show "session_ok (snd (DrainQueue s n)) \<and> se_maxQueued (snd (DrainQueue s n)) = se_maxQueued s"
    using DrainQueue_ok [OF ok] by (simp add: DrainQueue_def Let_def)
  show "fst (Enqueue s m) \<longleftrightarrow> int (length (se_queued s)) = se_maxQueued s"
    using ok by (auto simp: Enqueue_def Let_def session_ok_def)
  show "se_queued (snd (Enqueue s m))
      = drop (length (se_queued s) + 1 - nat (se_maxQueued s)) (se_queued s @ [m])"
  proof (cases "int (length (se_queued s)) \<ge> se_maxQueued s")
    case True
    with ok have len: "length (se_queued s) = nat (se_maxQueued s)" "se_queued s \<noteq> []"
      by (auto simp: session_ok_def)
    then show ?thesis using True by (cases "se_queued s") (auto simp: Enqueue_def Let_def)
  qed (use ok in \<open>auto simp: Enqueue_def session_ok_def\<close>)
  show "fst (DrainQueue s n) = take (nat n) (se_queued s)
      \<and> se_queued (snd (DrainQueue s n)) = drop (nat n) (se_queued s)"
    by (auto simp: DrainQueue_def Let_def)
qed


subsection \<open>The best matching subscription\<close>

lemma betterMatch_fold:
  "foldl (betterMatch topic) best subs = None \<longleftrightarrow>
     best = None \<and> (\<forall>sub \<in> set subs. \<not> subscription_Matches sub topic)"
  by (induction subs arbitrary: best) (auto simp: betterMatch_def split: option.splits)

lemma betterMatch_Some:
  assumes "foldl (betterMatch topic) best subs = Some b"
    and "\<forall>b'. best = Some b' \<longrightarrow> subscription_Matches b' topic"
  shows "subscription_Matches b topic \<and> (best = Some b \<or> b \<in> set subs)
    \<and> (\<forall>b'. best = Some b' \<longrightarrow> sub_grantedQoS b' \<le> sub_grantedQoS b)
    \<and> (\<forall>sub \<in> set subs. subscription_Matches sub topic \<longrightarrow> sub_grantedQoS sub \<le> sub_grantedQoS b)"
  using assms
proof (induction subs arbitrary: best)
  case (Cons sub subs)
  let ?best = "betterMatch topic best sub"
  have m: "\<forall>b'. ?best = Some b' \<longrightarrow> subscription_Matches b' topic"
    using Cons.prems(2) by (auto simp: betterMatch_def split: option.splits if_splits)
  from Cons.IH [OF _ m] Cons.prems(1) have IH: "subscription_Matches b topic \<and> (?best = Some b \<or> b \<in> set subs)
    \<and> (\<forall>b'. ?best = Some b' \<longrightarrow> sub_grantedQoS b' \<le> sub_grantedQoS b)
    \<and> (\<forall>sub \<in> set subs. subscription_Matches sub topic \<longrightarrow> sub_grantedQoS sub \<le> sub_grantedQoS b)" by simp
  then show ?case
    by (cases "subscription_Matches sub topic"; cases best)
      (auto simp: betterMatch_def split: if_splits)
qed auto

subsection \<open>Properties\<close>

text \<open>The operations of a session as data, and the session each of them leaves behind.\<close>

datatype session_op =
    OpResume time
  | OpDisconnect time
  | OpSubscribe topic_filter qos time
  | OpUnsubscribe topic_filter
  | OpNextPacketID
  | OpTrackInflight packet_id message time
  | OpAcknowledge packet_id
  | OpMarkRetransmitted packet_id time
  | OpEnqueue message
  | OpDrainQueue int
  | OpClear

fun session_exec :: "session \<Rightarrow> session_op \<Rightarrow> session" where
  "session_exec s (OpResume now) = Resume s now"
| "session_exec s (OpDisconnect now) = session_Disconnect s now"
| "session_exec s (OpSubscribe f q now) = snd (session_Subscribe s f q now)"
| "session_exec s (OpUnsubscribe f) = snd (session_Unsubscribe s f)"
| "session_exec s OpNextPacketID = snd (NextPacketID s)"
| "session_exec s (OpTrackInflight p m now) = snd (TrackInflight s p m now)"
| "session_exec s (OpAcknowledge p) = snd (session_Acknowledge s p)"
| "session_exec s (OpMarkRetransmitted p now) = MarkRetransmitted s p now"
| "session_exec s (OpEnqueue m) = snd (Enqueue s m)"
| "session_exec s (OpDrainQueue n) = snd (DrainQueue s n)"
| "session_exec s OpClear = Clear s"

lemmas session_ops_ok = Resume_ok Disconnect_ok Subscribe_ok Unsubscribe_ok NextPacketID_ok TrackInflight_ok
  Acknowledge_ok MarkRetransmitted_ok Enqueue_ok DrainQueue_ok Clear_ok

lemma session_exec_ok: "session_ok s \<Longrightarrow> session_ok (session_exec s oper)"
  by (cases oper) (simp_all add: session_ops_ok)

text \<open>Claim C22. Whatever sequence of operations a session goes through from its creation,
  its invariant holds: subscriptions, in-flight window and offline queue stay within their
  limits, no packet identifier is zero, and every map entry is stored under its own key.\<close>

theorem session_reachable_ok:
  "session_ok (foldl session_exec (NewSession cid clean l now) ops)"
proof -
  have "session_ok s \<Longrightarrow> session_ok (foldl session_exec s ops)" for s
    by (induction ops arbitrary: s) (simp_all add: session_exec_ok)
  then show ?thesis using NewSession_ok by blast
qed

text \<open>Claim C21. A session with a free identifier always gets one: with fewer than 65535
  messages in flight \<open>NextPacketID\<close> returns an identifier that is not zero and not in
  flight, and it is the first such one from the rotating cursor, so that an identifier just
  freed is the last to be handed out again.\<close>

theorem NextPacketID_fresh:
  assumes "session_ok s" and "length (se_inflight s) < 65535"
  shows "\<exists>k < 65535. NextPacketID s = (Inr ((advance ^^ k) (se_nextPacketID s)),
       s\<lparr>se_nextPacketID := (advance ^^ Suc k) (se_nextPacketID s)\<rparr>)
     \<and> (advance ^^ k) (se_nextPacketID s) \<noteq> 0
     \<and> mget (se_inflight s) ((advance ^^ k) (se_nextPacketID s)) = None
     \<and> (\<forall>j < k. mget (se_inflight s) ((advance ^^ j) (se_nextPacketID s)) \<noteq> None)"
  using assms(1)
proof (cases rule: NextPacketID_cases)
  case (free k)
  with advance_nonzero [OF assms(1), of k] show ?thesis by blast
next
  case full
  with NextPacketID_window [OF assms] show ?thesis by simp
qed

definition sample_session :: session where
  "sample_session = NewSession ''c'' False \<lparr>li_MaxInflight = 2, li_MaxQueued = 2, li_MaxSubscriptions = 2\<rparr> 7"

lemma NextPacketID_fresh_witness:
  "\<exists>k < 65535. NextPacketID sample_session = (Inr ((advance ^^ k) (se_nextPacketID sample_session)),
       sample_session\<lparr>se_nextPacketID := (advance ^^ Suc k) (se_nextPacketID sample_session)\<rparr>)
     \<and> (advance ^^ k) (se_nextPacketID sample_session) \<noteq> 0
     \<and> mget (se_inflight sample_session) ((advance ^^ k) (se_nextPacketID sample_session)) = None
     \<and> (\<forall>j < k. mget (se_inflight sample_session) ((advance ^^ j) (se_nextPacketID sample_session)) \<noteq> None)"
  by (rule NextPacketID_fresh) (simp_all add: sample_session_def NewSession_ok, simp add: NewSession_def Let_def)

text \<open>\<open>InflightMessages\<close> returns the unacknowledged messages of a session, each
  once, in the order of their sending times with ties broken by identifier; the result does
  not depend on the order in which the map was visited.\<close>

theorem InflightMessages_sorted:
  assumes "session_ok s" and "set (se_inflight s') = set (se_inflight s)" and "session_ok s'"
  shows "sorted (map inflight_key (InflightMessages s))
    \<and> mset (InflightMessages s) = mset (map snd (se_inflight s))
    \<and> InflightMessages s' = InflightMessages s"
proof -
  let ?l = "map snd (se_inflight s)" and ?l' = "map snd (se_inflight s')"
  have "distinct ?l" "distinct ?l'"
    using inflight_keys_inj [OF assms(1)] inflight_keys_inj [OF assms(3)] distinct_map by blast+
  moreover have "set ?l' = set ?l" using assms(2) by simp
  ultimately have m: "mset ?l' = mset ?l" by (metis set_eq_iff_mset_eq_distinct)
  have "inj_on inflight_key (set ?l)" using inflight_keys_inj [OF assms(1)] distinct_map by blast
  then have "sort_key inflight_key ?l' = sort_key inflight_key ?l"
    using m \<open>set ?l' = set ?l\<close> by (intro sort_key_inj_key_eq) auto
  then show ?thesis
    by (simp add: InflightMessages_def sortInflightBySentAt_sort_key)
qed


definition busy_session :: session where
  "busy_session = sample_session\<lparr>se_inflight :=
     [(2, \<lparr>im_PacketID = 2, im_Message = \<lparr>m_topic = ''t'', m_payload = [], m_qos = 1, m_retain = False,
         m_dup = False, m_packetID = 2, m_createdAt = 1\<rparr>, im_SentAt = 9, im_Attempts = 1\<rparr>),
      (1, \<lparr>im_PacketID = 1, im_Message = \<lparr>m_topic = ''t'', m_payload = [], m_qos = 1, m_retain = False,
         m_dup = False, m_packetID = 1, m_createdAt = 1\<rparr>, im_SentAt = 8, im_Attempts = 1\<rparr>)]\<rparr>"

lemma busy_session_ok:
  "session_ok busy_session" "session_ok (busy_session\<lparr>se_inflight := rev (se_inflight busy_session)\<rparr>)"
  by (simp_all add: busy_session_def sample_session_def NewSession_def withDefaults_def Let_def session_ok_def
      inflight_ok_def)

lemma InflightMessages_sorted_witness:
  "sorted (map inflight_key (InflightMessages busy_session))
    \<and> mset (InflightMessages busy_session) = mset (map snd (se_inflight busy_session))
    \<and> InflightMessages (busy_session\<lparr>se_inflight := rev (se_inflight busy_session)\<rparr>) = InflightMessages busy_session"
  by (rule InflightMessages_sorted) (simp_all add: busy_session_ok)

lemma Enqueue_counts:
  "se_droppedFromQueue (snd (put_all Enqueue s ms))
    = se_droppedFromQueue s + word_of_nat (fst (put_all Enqueue s ms))"
proof (induction ms arbitrary: s)
  case (Cons m ms)
  have "se_droppedFromQueue (snd (Enqueue s m)) = se_droppedFromQueue s + (if fst (Enqueue s m) then 1 else 0)"
    by (simp add: Enqueue_def Let_def)
  with Cons.IH [of "snd (Enqueue s m)"] show ?case
    by (simp add: split_beta Let_def add.commute add.left_commute)
qed simp

text \<open>Claim C36. The offline queue is a bounded queue that gives up its oldest message: after
  any number of calls of \<open>Enqueue\<close> it holds the newest messages, as many as the limit allows
  and in the order they arrived, and the counter of the session has grown by exactly the
  number of messages that were given up (modulo the width of the counter).\<close>

theorem offline_queue_drops_oldest:
  assumes "session_ok s"
  shows "se_queued (snd (put_all Enqueue s ms))
      = drop (length (se_queued s) + length ms - nat (se_maxQueued s)) (se_queued s @ ms)
    \<and> se_droppedFromQueue (snd (put_all Enqueue s ms))
      = se_droppedFromQueue s + word_of_nat (length (se_queued s) + length ms - nat (se_maxQueued s))"
  using offline.put_all_content [OF assms, of ms] by (simp add: Enqueue_counts)

lemma offline_queue_drops_oldest_witness:
  "se_queued (snd (put_all Enqueue busy_session (replicate 3 (im_Message (snd (hd (se_inflight busy_session)))))))
      = drop (length (se_queued busy_session) + length (replicate 3 (im_Message (snd (hd (se_inflight busy_session)))))
          - nat (se_maxQueued busy_session))
        (se_queued busy_session @ replicate 3 (im_Message (snd (hd (se_inflight busy_session)))))
    \<and> se_droppedFromQueue (snd (put_all Enqueue busy_session (replicate 3 (im_Message (snd (hd (se_inflight busy_session)))))))
      = se_droppedFromQueue busy_session + word_of_nat (length (se_queued busy_session)
          + length (replicate 3 (im_Message (snd (hd (se_inflight busy_session))))) - nat (se_maxQueued busy_session))"
  by (rule offline_queue_drops_oldest) (rule busy_session_ok)

text \<open>Among several filters of one session that match a topic,
  \<open>MatchingSubscription\<close> finds one with the highest granted level, whatever the order of the
  map, and it finds none exactly when no filter matches.\<close>

theorem MatchingSubscription_best:
  "case MatchingSubscription s topic of
     None \<Rightarrow> \<forall>sub \<in> set (Subscriptions s). \<not> Matches (sub_filter sub) topic
   | Some b \<Rightarrow> b \<in> set (Subscriptions s) \<and> Matches (sub_filter b) topic
       \<and> (\<forall>sub \<in> set (Subscriptions s). Matches (sub_filter sub) topic \<longrightarrow> sub_grantedQoS sub \<le> sub_grantedQoS b)"
proof (cases "MatchingSubscription s topic")
  case None
  then have "\<forall>sub \<in> set (Subscriptions s). \<not> Matches (sub_filter sub) topic"
    by (simp add: MatchingSubscription_def betterMatch_fold Subscriptions_def subscription_Matches_def)
  with None show ?thesis by simp
next
  case (Some b)
  then have "foldl (betterMatch topic) None (map snd (se_subscriptions s)) = Some b"
    by (simp add: MatchingSubscription_def)
  from betterMatch_Some [OF this] have "b \<in> set (Subscriptions s) \<and> Matches (sub_filter b) topic
       \<and> (\<forall>sub \<in> set (Subscriptions s). Matches (sub_filter sub) topic \<longrightarrow> sub_grantedQoS sub \<le> sub_grantedQoS b)"
    by (simp add: Subscriptions_def subscription_Matches_def)
  with Some show ?thesis by simp
qed

lemma MatchingSubscription_best_witness:
  "case MatchingSubscription (snd (session_Subscribe sample_session ''a/#'' 1 3)) ''a/b'' of
     None \<Rightarrow> \<forall>sub \<in> set (Subscriptions (snd (session_Subscribe sample_session ''a/#'' 1 3))).
       \<not> Matches (sub_filter sub) ''a/b''
   | Some b \<Rightarrow> b \<in> set (Subscriptions (snd (session_Subscribe sample_session ''a/#'' 1 3)))
       \<and> Matches (sub_filter b) ''a/b''
       \<and> (\<forall>sub \<in> set (Subscriptions (snd (session_Subscribe sample_session ''a/#'' 1 3))).
           Matches (sub_filter sub) ''a/b'' \<longrightarrow> sub_grantedQoS sub \<le> sub_grantedQoS b)"
  by (rule MatchingSubscription_best)

end
