(* ===== verification/Codec.thy ===== *)
theory Codec
  imports Prelude
begin

text \<open>
  The lowest layer of the wire format: \<open>errors.go\<close>, \<open>packet.go\<close> and \<open>codec.go\<close> of
  \<open>pkg/infrastructure/mqtt/packet\<close>. It holds the codec's error values, the packet types and
  their required flags, the remaining-length varint, the length-prefixed fields, the
  bounds-checked \<open>reader\<close> over a packet body, and the string rules of MQTT (with Go's
  \<open>utf8.Valid\<close> and the rune decoding of a \<open>range\<close> loop over a string).

  The lemmas show that the varint decoder inverts the encoder on the whole range the four
  bytes can express and refuses every longer encoding, that the reader never leaves its
  buffer, and that each field decoder inverts its encoder.
\<close>

unbundle bit_operations_syntax

subsection \<open>Errors\<close>

datatype codec_error =
    ErrMalformedPacket
  | ErrRemainingLengthOverflow
  | ErrPacketTooLarge
  | ErrInvalidQoS
  | ErrInvalidUTF8
  | ErrInvalidPacketID
  | ErrUnsupportedProtocol
  | ProtocolError string
  | ReadErr string \<comment> \<open>an error of the underlying \<open>io.Reader\<close>; \<open>io.EOF\<close> is \<open>ReadErr ''EOF''\<close>\<close>

definition newProtocolError :: "string \<Rightarrow> codec_error" where
  "newProtocolError reason = ProtocolError reason"

text \<open>\<open>errors.Is(err, target)\<close> for a sentinel target, through \<open>ProtocolError.Is\<close>.\<close>

fun codec_error_Is :: "codec_error \<Rightarrow> codec_error \<Rightarrow> bool" where
  "codec_error_Is (ProtocolError r) target = (target = ErrMalformedPacket \<or> target = ProtocolError r)"
| "codec_error_Is e target = (e = target)"

subsection \<open>Packet types and required flags\<close>

type_synonym ptype = byte

abbreviation CONNECT :: ptype where "CONNECT \<equiv> 1"
abbreviation CONNACK :: ptype where "CONNACK \<equiv> 2"
abbreviation PUBLISH :: ptype where "PUBLISH \<equiv> 3"
abbreviation PUBACK :: ptype where "PUBACK \<equiv> 4"
abbreviation PUBREC :: ptype where "PUBREC \<equiv> 5"
abbreviation PUBREL :: ptype where "PUBREL \<equiv> 6"
abbreviation PUBCOMP :: ptype where "PUBCOMP \<equiv> 7"
abbreviation SUBSCRIBE :: ptype where "SUBSCRIBE \<equiv> 8"
abbreviation SUBACK :: ptype where "SUBACK \<equiv> 9"
abbreviation UNSUBSCRIBE :: ptype where "UNSUBSCRIBE \<equiv> 10"
abbreviation UNSUBACK :: ptype where "UNSUBACK \<equiv> 11"
abbreviation PINGREQ :: ptype where "PINGREQ \<equiv> 12"
abbreviation PINGRESP :: ptype where "PINGRESP \<equiv> 13"
abbreviation DISCONNECT :: ptype where "DISCONNECT \<equiv> 14"

definition ptype_String :: "ptype \<Rightarrow> string" where
  "ptype_String t =
     (if t = CONNECT then ''CONNECT'' else if t = CONNACK then ''CONNACK''
      else if t = PUBLISH then ''PUBLISH'' else if t = PUBACK then ''PUBACK''
      else if t = PUBREC then ''PUBREC'' else if t = PUBREL then ''PUBREL''
      else if t = PUBCOMP then ''PUBCOMP'' else if t = SUBSCRIBE then ''SUBSCRIBE''
      else if t = SUBACK then ''SUBACK'' else if t = UNSUBSCRIBE then ''UNSUBSCRIBE''
      else if t = UNSUBACK then ''UNSUBACK'' else if t = PINGREQ then ''PINGREQ''
      else if t = PINGRESP then ''PINGRESP'' else if t = DISCONNECT then ''DISCONNECT''
      else ''RESERVED('' @ decimal (unat t) @ '')'')"

definition IsValid :: "ptype \<Rightarrow> bool" where
  "IsValid t = (0 < t \<and> t < 15)"

definition requiredFlags :: "ptype \<Rightarrow> byte option" where
  "requiredFlags = map_of
     [(CONNECT, 0), (CONNACK, 0), (PUBACK, 0), (PUBREC, 0), (PUBREL, 2), (PUBCOMP, 0),
      (SUBSCRIBE, 2), (SUBACK, 0), (UNSUBSCRIBE, 2), (UNSUBACK, 0), (PINGREQ, 0),
      (PINGRESP, 0), (DISCONNECT, 0)]"

text \<open>\<open>validateFlags\<close> returns an error or nil: \<open>None\<close> is nil.\<close>

definition validateFlags :: "ptype \<Rightarrow> byte \<Rightarrow> codec_error option" where
  "validateFlags t flags =
     (if t = PUBLISH then
        (let qos = drop_bit 1 flags AND 0x03 in
         if qos = 3 then Some ErrInvalidQoS
         else if qos = 0 \<and> flags AND 0x08 \<noteq> 0
         then Some (newProtocolError ''PUBLISH with QoS 0 must not set the DUP flag'')
         else None)
      else case requiredFlags t of
        None \<Rightarrow> Some (newProtocolError (''unknown packet type '' @ ptype_String t))
      | Some expected \<Rightarrow>
          if flags \<noteq> expected
          then Some (newProtocolError (ptype_String t @ '' must have flags 0x'' @ hex2 expected
                      @ '', got 0x'' @ hex2 flags))
          else None)"

subsection \<open>The remaining-length varint\<close>

definition maxRemainingLength :: nat where
  "maxRemainingLength = 268435455"

fun encodeRemainingLength :: "bytes \<Rightarrow> nat \<Rightarrow> bytes" where
  "encodeRemainingLength dst n =
     (let digit = (word_of_nat (n mod 128) :: byte);
          n' = n div 128;
          digit' = (if n' > 0 then digit OR 0x80 else digit);
          dst' = dst @ [digit']
      in if n' = 0 then dst' else encodeRemainingLength dst' n')"

declare encodeRemainingLength.simps [simp del]

function decodeLoop :: "bytes \<Rightarrow> nat \<Rightarrow> nat \<Rightarrow> nat \<Rightarrow> codec_error + (nat \<times> nat)" where
  "decodeLoop buf i multiplier value =
     (if i < 4 then
        (if length buf \<le> i then Inl ErrMalformedPacket
         else let digit = buf ! i; value' = value + unat (digit AND 0x7F) * multiplier in
           if digit AND 0x80 = 0 then Inr (value', i + 1)
           else decodeLoop buf (i + 1) (multiplier * 128) value')
      else Inl ErrRemainingLengthOverflow)"
  by pat_completeness auto
termination
  by (relation "measure (\<lambda>(buf, i, multiplier, value). 4 - i)") auto

declare decodeLoop.simps [simp del]

definition decodeRemainingLength :: "bytes \<Rightarrow> codec_error + (nat \<times> nat)" where
  "decodeRemainingLength buf = decodeLoop buf 0 1 0"

definition remainingLengthSize :: "nat \<Rightarrow> nat" where
  "remainingLengthSize n = (if n < 128 then 1 else if n < 16384 then 2 else if n < 2097152 then 3 else 4)"

subsection \<open>Field encoding\<close>

definition appendUint16 :: "bytes \<Rightarrow> u16 \<Rightarrow> bytes" where
  "appendUint16 dst v = dst @ [ucast (drop_bit 8 v), ucast v]"

definition appendString :: "bytes \<Rightarrow> string \<Rightarrow> bytes" where
  "appendString dst s = appendUint16 dst (word_of_nat (length s)) @ bytes_of s"

definition appendBytes :: "bytes \<Rightarrow> bytes \<Rightarrow> bytes" where
  "appendBytes dst b = appendUint16 dst (word_of_nat (length b)) @ b"

definition stringSize :: "string \<Rightarrow> nat" where
  "stringSize s = 2 + length s"

subsection \<open>UTF-8\<close>

text \<open>
  \<open>decodeRune\<close> is Go's \<open>utf8.DecodeRune\<close> on a non-empty input: the rune and its width, or
  \<open>None\<close> where the bytes do not start with a well-formed sequence (Go then reports the
  replacement character with width 1).
\<close>

definition in_range :: "byte \<Rightarrow> byte \<Rightarrow> byte \<Rightarrow> bool" where
  "in_range lo hi b = (lo \<le> b \<and> b \<le> hi)"

definition tail6 :: "byte \<Rightarrow> nat" where
  "tail6 b = unat b - 128"

fun decodeRune :: "bytes \<Rightarrow> (nat \<times> nat) option" where
  "decodeRune [] = None"
| "decodeRune (b0 # bs) =
     (if b0 < 0x80 then Some (unat b0, 1)
      else if in_range 0xC2 0xDF b0 then
        (case bs of b1 # _ \<Rightarrow>
           if in_range 0x80 0xBF b1 then Some ((unat b0 - 0xC0) * 64 + tail6 b1, 2) else None
         | _ \<Rightarrow> None)
      else if in_range 0xE0 0xEF b0 then
        (case bs of b1 # b2 # _ \<Rightarrow>
           if in_range (if b0 = 0xE0 then 0xA0 else 0x80) (if b0 = 0xED then 0x9F else 0xBF) b1
              \<and> in_range 0x80 0xBF b2
           then Some ((unat b0 - 0xE0) * 4096 + tail6 b1 * 64 + tail6 b2, 3) else None
         | _ \<Rightarrow> None)
      else if in_range 0xF0 0xF4 b0 then
        (case bs of b1 # b2 # b3 # _ \<Rightarrow>
           if in_range (if b0 = 0xF0 then 0x90 else 0x80) (if b0 = 0xF4 then 0x8F else 0xBF) b1
              \<and> in_range 0x80 0xBF b2 \<and> in_range 0x80 0xBF b3
           then Some ((unat b0 - 0xF0) * 262144 + tail6 b1 * 4096 + tail6 b2 * 64 + tail6 b3, 4)
           else None
         | _ \<Rightarrow> None)
      else None)"

lemma decodeRune_width: "decodeRune bs = Some (r, w) \<Longrightarrow> 0 < w \<and> w \<le> length bs"
  by (cases bs) (auto split: if_splits list.splits)

function utf8_Valid :: "bytes \<Rightarrow> bool" where
  "utf8_Valid bs =
     (if bs = [] then True
      else case decodeRune bs of None \<Rightarrow> False | Some (r, w) \<Rightarrow> utf8_Valid (drop w bs))"
  by pat_completeness auto
termination
  by (relation "measure length") (auto dest: decodeRune_width)

declare utf8_Valid.simps [simp del]

text \<open>The runes a \<open>range\<close> loop over the string visits.\<close>

function runes :: "bytes \<Rightarrow> nat list" where
  "runes bs =
     (if bs = [] then []
      else case decodeRune bs of None \<Rightarrow> 0xFFFD # runes (tl bs)
        | Some (r, w) \<Rightarrow> r # runes (drop w bs))"
  by pat_completeness auto
termination
  by (relation "measure length") (auto dest: decodeRune_width)

declare runes.simps [simp del]

definition IsSurrogate :: "nat \<Rightarrow> bool" where
  "IsSurrogate r = (0xD800 \<le> r \<and> r < 0xE000)"

fun validRunes :: "nat list \<Rightarrow> bool" where
  "validRunes [] = True"
| "validRunes (r # rs) = (if r = 0 then False else if IsSurrogate r then False else validRunes rs)"

definition validUTF8 :: "bytes \<Rightarrow> bool" where
  "validUTF8 b = (if \<not> utf8_Valid b then False else validRunes (runes b))"

subsection \<open>The reader over a packet body\<close>

record reader =
  rbuf :: bytes
  rpos :: nat

definition newReader :: "bytes \<Rightarrow> reader" where
  "newReader buf = \<lparr>rbuf = buf, rpos = 0\<rparr>"

definition remaining :: "reader \<Rightarrow> int" where
  "remaining r = int (length (rbuf r)) - int (rpos r)"

definition reader_done :: "reader \<Rightarrow> bool" where
  "reader_done r = (length (rbuf r) \<le> rpos r)"

definition byteValue :: "reader \<Rightarrow> codec_error + (byte \<times> reader)" where
  "byteValue r =
     (if remaining r < 1 then Inl ErrMalformedPacket
      else Inr (rbuf r ! rpos r, r\<lparr>rpos := rpos r + 1\<rparr>))"

definition be16 :: "byte \<Rightarrow> byte \<Rightarrow> u16" where
  "be16 hi lo = push_bit 8 (ucast hi) OR ucast lo"

definition uint16Value :: "reader \<Rightarrow> codec_error + (u16 \<times> reader)" where
  "uint16Value r =
     (if remaining r < 2 then Inl ErrMalformedPacket
      else Inr (be16 (rbuf r ! rpos r) (rbuf r ! (rpos r + 1)), r\<lparr>rpos := rpos r + 2\<rparr>))"

definition bytesValue :: "reader \<Rightarrow> codec_error + (bytes \<times> reader)" where
  "bytesValue r0 = andThen (uint16Value r0) (\<lambda>(len, r).
     if remaining r < int (unat len) then Inl ErrMalformedPacket
     else Inr (take (unat len) (drop (rpos r) (rbuf r)), r\<lparr>rpos := rpos r + unat len\<rparr>))"

definition stringValue :: "reader \<Rightarrow> codec_error + (string \<times> reader)" where
  "stringValue r0 = andThen (bytesValue r0) (\<lambda>(raw, r).
     if \<not> validUTF8 raw then Inl ErrInvalidUTF8 else Inr (string_of raw, r))"

definition rest :: "reader \<Rightarrow> bytes \<times> reader" where
  "rest r = (drop (rpos r) (rbuf r), r\<lparr>rpos := length (rbuf r)\<rparr>)"

subsection \<open>Bits of a byte\<close>

lemma unat_byte_less [simp]: "unat (b :: byte) < 256"
  using unsigned_less [of b] by simp

lemma and_low7 [varint_simps]: "unat (d AND 0x7F :: byte) = unat d mod 128"
proof -
  have "d AND 0x7F = take_bit 7 d"
    by (simp add: take_bit_eq_mask mask_eq_exp_minus_1)
  then show ?thesis
    by (simp only: unsigned_take_bit_eq) (simp add: take_bit_eq_mod)
qed

lemma and_top [varint_simps]: "d AND 0x80 = 0 \<longleftrightarrow> unat (d :: byte) < 128"
proof -
  have "d AND 0x80 = 0 \<longleftrightarrow> \<not> bit d 7"
    using and_exp_eq_0_iff_not_bit [of d 7] by simp
  also have "bit d 7 \<longleftrightarrow> odd (unat d div 128)"
  proof -
    have "bit d 7 = bit (unat d) 7" by (simp add: bit_unsigned_iff)
    then show ?thesis by (simp add: bit_iff_odd)
  qed
  also have "\<dots> \<longleftrightarrow> \<not> unat d < 128"
  proof -
    have "unat d < 128 * 2" using unat_byte_less [of d] by simp
    then have "unat d div 128 < 2" by (simp only: less_mult_imp_div_less mult.commute)
    then have "unat d div 128 = 0 \<or> unat d div 128 = 1" by linarith
    then show ?thesis by auto
  qed
  finally show ?thesis by simp
qed

lemma unat_digit [varint_simps]: "m < 128 \<Longrightarrow> unat (word_of_nat m :: byte) = m"
  by (simp add: unat_of_nat)

lemma unat_digit_cont [varint_simps]:
  assumes "m < 128"
  shows "unat (word_of_nat m OR 0x80 :: byte) = m + 128"
proof -
  have "word_of_nat m AND (0x80 :: byte) = 0"
    using assms by (simp add: and_top unat_digit)
  then have "(word_of_nat m OR 0x80 :: byte) = word_of_nat m + 0x80"
    by (simp add: disjunctive_add_eq_or)
  also have "\<dots> = word_of_nat (m + 128)" by simp
  finally show ?thesis using assms by (simp add: unat_of_nat del: of_nat_add)
qed

subsection \<open>The varint\<close>

lemma encodeRemainingLength_rec:
  "encodeRemainingLength dst n =
     (if n < 128 then dst @ [word_of_nat n]
      else encodeRemainingLength (dst @ [word_of_nat (n mod 128) OR 0x80]) (n div 128))"
  by (subst encodeRemainingLength.simps) (auto simp: Let_def div_eq_0_iff)

lemma encodeRemainingLength_append:
  "encodeRemainingLength dst n = dst @ encodeRemainingLength [] n"
proof (induction n arbitrary: dst rule: less_induct)
  case (less n)
  show ?case
  proof (cases "n < 128")
    case True
    then show ?thesis by (simp add: encodeRemainingLength_rec [of _ n])
  next
    case False
    then have lt: "n div 128 < n" by simp
    show ?thesis
      using False less.IH [OF lt, of "dst @ [word_of_nat (n mod 128) OR 0x80]"]
        less.IH [OF lt, of "[word_of_nat (n mod 128) OR 0x80]"]
      by (simp add: encodeRemainingLength_rec [of _ n])
  qed
qed

lemma encode_varint_small: "n < 128 \<Longrightarrow> encodeRemainingLength [] n = [word_of_nat n]"
  by (simp add: encodeRemainingLength_rec)

lemma encode_varint_big:
  "128 \<le> n \<Longrightarrow> encodeRemainingLength [] n
     = (word_of_nat (n mod 128) OR 0x80) # encodeRemainingLength [] (n div 128)"
  by (subst encodeRemainingLength_rec) (simp, subst encodeRemainingLength_append, simp)

text \<open>
  One step of the decoder over a digit of the encoding, at any position of the buffer.
\<close>

lemma decodeLoop_last:
  assumes "length pre < 4" and "n < 128"
  shows "decodeLoop (pre @ word_of_nat n # suf) (length pre) m v = Inr (v + n * m, Suc (length pre))"
  using assms by (subst decodeLoop.simps) (simp add: varint_simps Let_def)

lemma decodeLoop_more:
  assumes "length pre < 4" and "n < 128"
  shows "decodeLoop (pre @ (word_of_nat n OR 0x80) # suf) (length pre) m v
    = decodeLoop ((pre @ [word_of_nat n OR 0x80]) @ suf) (length (pre @ [word_of_nat n OR 0x80 :: byte]))
        (m * 128) (v + n * m)"
  using assms by (subst decodeLoop.simps) (simp add: varint_simps Let_def)

lemma pow128_split: "i < 4 \<Longrightarrow> (128 :: nat) ^ (4 - i) = 128 * 128 ^ (4 - Suc i)"
proof -
  assume "i < 4"
  then have "4 - i = Suc (4 - Suc i)" by linarith
  then show ?thesis by simp
qed

lemma decodeLoop_encode:
  "length pre < 4 \<Longrightarrow> n < 128 ^ (4 - length pre) \<Longrightarrow>
   decodeLoop (pre @ encodeRemainingLength [] n @ suf) (length pre) m v
     = Inr (v + n * m, length pre + length (encodeRemainingLength [] n))"
proof (induction n arbitrary: pre m v rule: less_induct)
  case (less n)
  show ?case
  proof (cases "n < 128")
    case True
    then show ?thesis
      using less.prems by (simp add: encode_varint_small decodeLoop_last)
  next
    case False
    let ?d = "word_of_nat (n mod 128) OR (0x80 :: byte)"
    have lt: "n div 128 < n" using False by simp
    have short: "length pre < 3"
    proof (rule ccontr)
      assume "\<not> length pre < 3"
      with less.prems have "4 - length pre = 1" by simp
      with less.prems False show False by simp
    qed
    have "n < 128 * 128 ^ (4 - length (pre @ [?d]))"
      using less.prems short by (simp add: pow128_split)
    then have bound: "n div 128 < 128 ^ (4 - length (pre @ [?d]))"
      by (simp add: div_less_iff_less_mult mult.commute)
    have "decodeLoop (pre @ encodeRemainingLength [] n @ suf) (length pre) m v
        = decodeLoop ((pre @ [?d]) @ encodeRemainingLength [] (n div 128) @ suf) (length (pre @ [?d]))
            (m * 128) (v + n mod 128 * m)"
      using False less.prems(1) by (simp add: encode_varint_big decodeLoop_more)
    also have "\<dots> = Inr (v + n mod 128 * m + n div 128 * (m * 128),
        length (pre @ [?d]) + length (encodeRemainingLength [] (n div 128)))"
      using short by (intro less.IH [OF lt]) (use bound in auto)
    also have "v + n mod 128 * m + n div 128 * (m * 128) = v + n * m"
    proof -
      have "n mod 128 * m + n div 128 * (m * 128) = (n div 128 * 128 + n mod 128) * m"
        by (simp only: distrib_right distrib_left mult.assoc mult.commute add.commute mult.left_commute)
      then show ?thesis by (simp only: div_mult_mod_eq add.assoc)
    qed
    finally show ?thesis using False by (simp add: encode_varint_big)
  qed
qed

lemma decode_encode_varint:
  assumes "n \<le> maxRemainingLength"
  shows "decodeRemainingLength (encodeRemainingLength [] n @ suf)
    = Inr (n, length (encodeRemainingLength [] n))"
  using decodeLoop_encode [of "[]" n suf 1 0] assms
  by (simp add: decodeRemainingLength_def maxRemainingLength_def)

text \<open>A value past the four-byte range is encoded in five bytes or more, and the decoder
  refuses it.\<close>

lemma decodeLoop_overflow:
  "length pre \<le> 4 \<Longrightarrow> 128 ^ (4 - length pre) \<le> n \<Longrightarrow>
   decodeLoop (pre @ encodeRemainingLength [] n @ suf) (length pre) m v = Inl ErrRemainingLengthOverflow"
proof (induction n arbitrary: pre m v rule: less_induct)
  case (less n)
  show ?case
  proof (cases "length pre = 4")
    case True
    then show ?thesis by (subst decodeLoop.simps) simp
  next
    case False
    with less.prems have len: "length pre < 4" by simp
    let ?d = "word_of_nat (n mod 128) OR (0x80 :: byte)"
    have pow: "128 * 128 ^ (4 - length (pre @ [?d])) \<le> n"
      using less.prems len by (simp add: pow128_split)
    then have big: "128 \<le> n"
      using one_le_power [of "128 :: nat" "4 - length (pre @ [?d])"] by linarith
    have bound: "128 ^ (4 - length (pre @ [?d])) \<le> n div 128"
      using pow by (simp add: less_eq_div_iff_mult_less_eq mult.commute)
    have lt: "n div 128 < n" using big by simp
    have "decodeLoop (pre @ encodeRemainingLength [] n @ suf) (length pre) m v
        = decodeLoop ((pre @ [?d]) @ encodeRemainingLength [] (n div 128) @ suf) (length (pre @ [?d]))
            (m * 128) (v + n mod 128 * m)"
      using big len by (simp add: encode_varint_big decodeLoop_more)
    also have "\<dots> = Inl ErrRemainingLengthOverflow"
      using len by (intro less.IH [OF lt]) (use bound in auto)
    finally show ?thesis .
  qed
qed

lemma decode_encode_varint_overflow:
  assumes "maxRemainingLength < n"
  shows "decodeRemainingLength (encodeRemainingLength [] n @ suf) = Inl ErrRemainingLengthOverflow"
  using decodeLoop_overflow [of "[]" n suf 1 0] assms
  by (simp add: decodeRemainingLength_def maxRemainingLength_def)

lemma length_encode_varint:
  "n \<le> maxRemainingLength \<Longrightarrow> length (encodeRemainingLength [] n) = remainingLengthSize n"
  by (simp add: remainingLengthSize_def maxRemainingLength_def encode_varint_small encode_varint_big
      div_less_iff_less_mult flip: div_mult2_eq split: if_splits)

text \<open>The decoder is total, consumes at most four bytes, and stays inside its buffer.\<close>

lemma decodeLoop_step:
  assumes "decodeLoop buf i m v = Inr (n, c)"
  shows "i < 4 \<and> i < length buf \<and>
    (unat (buf ! i) < 128 \<and> n = v + unat (buf ! i) * m \<and> c = i + 1 \<or>
     128 \<le> unat (buf ! i) \<and> decodeLoop buf (i + 1) (m * 128) (v + unat (buf ! i) mod 128 * m) = Inr (n, c))"
  using assms by (subst (asm) decodeLoop.simps) (auto simp: varint_simps Let_def split: if_splits)

lemma decodeLoop_bounds:
  "decodeLoop buf i m v = Inr (n, c) \<Longrightarrow>
     i < c \<and> c \<le> 4 \<and> c \<le> length buf \<and> n + m \<le> v + m * 128 ^ (4 - i)"
proof (induction "4 - i" arbitrary: i m v)
  case 0
  then show ?case using decodeLoop_step by fastforce
next
  case (Suc k)
  note step = decodeLoop_step [OF Suc.prems]
  then have i: "i < 4" "i < length buf" by auto
  let ?d = "unat (buf ! i)"
  have pow: "m * 128 ^ (4 - i) = (m * 128) * 128 ^ (4 - (i + 1))"
    using i(1) by (simp add: pow128_split)
  show ?case
  proof (cases "?d < 128")
    case True
    with step have n: "n = v + ?d * m" "c = i + 1" by auto
    have "Suc ?d * m \<le> 128 ^ (4 - i) * m"
      using True i(1) self_le_power [of "128 :: nat" "4 - i"]
      by (intro mult_le_mono1) linarith
    then show ?thesis using n i by (simp add: mult.commute)
  next
    case False
    with step have rec: "decodeLoop buf (i + 1) (m * 128) (v + ?d mod 128 * m) = Inr (n, c)" by auto
    have "k = 4 - (i + 1)" using Suc.hyps(2) by simp
    from Suc.hyps(1) [OF this rec] pow
    have IH: "i < c" "c \<le> 4" "c \<le> length buf"
      "n + m * 128 \<le> v + ?d mod 128 * m + m * 128 ^ (4 - i)" by auto
    have "?d mod 128 * m \<le> 127 * m" by (intro mult_le_mono1) simp
    with IH show ?thesis by linarith
  qed
qed

lemma decodeRemainingLength_bounds:
  assumes "decodeRemainingLength buf = Inr (n, c)"
  shows "0 < c \<and> c \<le> 4 \<and> c \<le> length buf \<and> n \<le> maxRemainingLength"
  using decodeLoop_bounds [of buf 0 1 0 n c] assms
  by (simp add: decodeRemainingLength_def maxRemainingLength_def)

subsection \<open>Two-byte integers\<close>

lemma be16_ucast [codec_simps]: "be16 (ucast (drop_bit 8 v)) (ucast v) = v"
  by (rule bit_word_eqI) (auto simp: be16_def bit_simps)

lemma ucast_be16 [codec_simps]:
  "ucast (drop_bit 8 (be16 hi lo)) = hi"
  "ucast (be16 hi lo) = lo"
  by (rule bit_word_eqI; auto simp: be16_def bit_simps dest: bit_imp_le_length)+

lemma appendUint16_append: "appendUint16 dst v = dst @ appendUint16 [] v"
  by (simp add: appendUint16_def)

lemma appendString_append: "appendString dst s = dst @ appendString [] s"
  by (simp add: appendString_def appendUint16_def)

lemma appendBytes_append: "appendBytes dst b = dst @ appendBytes [] b"
  by (simp add: appendBytes_def appendUint16_def)

lemma length_appendString [codec_simps]: "length (appendString [] s) = stringSize s"
  by (simp add: appendString_def appendUint16_def stringSize_def)

lemma length_appendBytes [codec_simps]: "length (appendBytes [] b) = 2 + length b"
  by (simp add: appendBytes_def appendUint16_def)

lemma length_appendUint16 [codec_simps]: "length (appendUint16 [] v) = 2"
  by (simp add: appendUint16_def)

lemmas append_fields = encodeRemainingLength_append appendUint16_append appendString_append
  appendBytes_append

subsection \<open>Readers\<close>

text \<open>
  \<open>rdr pre xs\<close> is the reader that has consumed \<open>pre\<close> and still has \<open>xs\<close> to read. Every
  reader that is inside its buffer has this form, and on it each read is an equation.
\<close>

definition rdr :: "bytes \<Rightarrow> bytes \<Rightarrow> reader" where
  "rdr pre xs = \<lparr>rbuf = pre @ xs, rpos = length pre\<rparr>"

definition reader_ok :: "reader \<Rightarrow> bool" where
  "reader_ok r = (rpos r \<le> length (rbuf r))"

lemma reader_ok_rdr [simp]: "reader_ok (rdr pre xs)"
  by (simp add: reader_ok_def rdr_def)

lemma reader_ok_cases:
  assumes "reader_ok r"
  obtains pre xs where "r = rdr pre xs"
proof
  show "r = rdr (take (rpos r) (rbuf r)) (drop (rpos r) (rbuf r))"
    using assms by (simp add: rdr_def reader_ok_def)
qed

lemma newReader_rdr [codec_simps]: "newReader body = rdr [] body"
  by (simp add: newReader_def rdr_def)

lemma reader_done_rdr [codec_simps]: "reader_done (rdr pre xs) = (xs = [])"
  by (simp add: reader_done_def rdr_def)

lemma remaining_rdr [codec_simps]: "remaining (rdr pre xs) = int (length xs)"
  by (simp add: remaining_def rdr_def)

lemma rest_rdr [codec_simps]: "rest (rdr pre xs) = (xs, rdr (pre @ xs) [])"
  by (simp add: rest_def rdr_def)

lemma byteValue_rdr [codec_simps]:
  "byteValue (rdr pre xs) =
     (case xs of [] \<Rightarrow> Inl ErrMalformedPacket | b # bs \<Rightarrow> Inr (b, rdr (pre @ [b]) bs))"
  by (cases xs) (simp_all add: byteValue_def remaining_rdr, simp_all add: rdr_def)

lemma uint16Value_rdr:
  "uint16Value (rdr pre xs) =
     (case xs of hi # lo # bs \<Rightarrow> Inr (be16 hi lo, rdr (pre @ [hi, lo]) bs)
      | _ \<Rightarrow> Inl ErrMalformedPacket)"
  by (simp add: uint16Value_def remaining_rdr split: list.split) (simp add: rdr_def nth_append)

lemma int_less_uint: "int n < uint w \<longleftrightarrow> n < unat w"
  by (metis of_nat_less_iff of_nat_unat)

lemma bytesValue_rdr:
  "bytesValue (rdr pre xs) =
     (case xs of hi # lo # bs \<Rightarrow>
        (let n = unat (be16 hi lo) in
         if length bs < n then Inl ErrMalformedPacket
         else Inr (take n bs, rdr (pre @ [hi, lo] @ take n bs) (drop n bs)))
      | _ \<Rightarrow> Inl ErrMalformedPacket)"
  by (simp add: bytesValue_def uint16Value_rdr remaining_rdr Let_def int_less_uint split: list.split)
    (simp add: rdr_def)

lemma uint16Value_append [codec_simps]:
  "uint16Value (rdr pre (appendUint16 [] v @ bs)) = Inr (v, rdr (pre @ appendUint16 [] v) bs)"
  by (simp add: uint16Value_rdr appendUint16_def be16_ucast)

lemma bytesValue_append [codec_simps]:
  assumes "length b < 65536"
  shows "bytesValue (rdr pre (appendBytes [] b @ bs)) = Inr (b, rdr (pre @ appendBytes [] b) bs)"
  using assms
  by (simp add: bytesValue_rdr appendBytes_def appendUint16_def be16_ucast unat_of_nat Let_def)

lemma stringValue_append [codec_simps]:
  assumes "length s < 65536" and "validUTF8 (bytes_of s)"
  shows "stringValue (rdr pre (appendString [] s @ bs)) = Inr (s, rdr (pre @ appendString [] s) bs)"
proof -
  have "appendString [] s = appendBytes [] (bytes_of s)"
    by (simp add: appendString_def appendBytes_def)
  then show ?thesis
    using assms by (simp add: stringValue_def bytesValue_append)
qed

text \<open>The same at the end of the body.\<close>

lemmas read_last [codec_simps] =
  uint16Value_append [where bs = "[]", unfolded append_Nil2]
  bytesValue_append [where bs = "[]", unfolded append_Nil2]
  stringValue_append [where bs = "[]", unfolded append_Nil2]

text \<open>What a successful read says about the bytes it consumed.\<close>

lemma byteValue_InrE:
  assumes "byteValue (rdr pre xs) = Inr (b, r)"
  obtains bs where "xs = b # bs" and "r = rdr (pre @ [b]) bs"
  using assms by (auto simp: byteValue_rdr split: list.splits)

lemma uint16Value_InrE:
  assumes "uint16Value (rdr pre xs) = Inr (v, r)"
  obtains bs where "xs = appendUint16 [] v @ bs" and "r = rdr (pre @ appendUint16 [] v) bs"
  using assms by (auto simp: uint16Value_rdr appendUint16_def ucast_be16 split: list.splits)

lemma bytesValue_InrE:
  assumes "bytesValue (rdr pre xs) = Inr (b, r)"
  obtains bs where "xs = appendBytes [] b @ bs" and "r = rdr (pre @ appendBytes [] b) bs"
    and "length b < 65536"
proof -
  from assms obtain hi lo bs where xs: "xs = hi # lo # bs"
    and n: "unat (be16 hi lo) \<le> length bs" and b: "b = take (unat (be16 hi lo)) bs"
    and r: "r = rdr (pre @ [hi, lo] @ b) (drop (unat (be16 hi lo)) bs)"
    by (auto simp: bytesValue_rdr Let_def split: list.splits if_splits)
  have "appendBytes [] b = [hi, lo] @ b"
    using n b by (simp add: appendBytes_def appendUint16_def ucast_be16)
  moreover have "length b < 65536"
    using b n unsigned_less [of "be16 hi lo"] by simp
  ultimately show ?thesis
    using that [of "drop (unat (be16 hi lo)) bs"] xs b r by simp
qed

lemma stringValue_InrE:
  assumes "stringValue (rdr pre xs) = Inr (s, r)"
  obtains bs where "xs = appendString [] s @ bs" and "r = rdr (pre @ appendString [] s) bs"
    and "length s < 65536" and "validUTF8 (bytes_of s)"
proof -
  from assms obtain b where b: "bytesValue (rdr pre xs) = Inr (b, r)" "validUTF8 b" "s = string_of b"
    by (auto simp: stringValue_def andThen_Inr_iff split: if_splits)
  from b(3) have "appendString [] s = appendBytes [] b"
    by (simp add: appendString_def appendBytes_def)
  with b show ?thesis
    using that by (auto elim!: bytesValue_InrE)
qed

subsection \<open>String rules\<close>

lemma second_byte:
  assumes "in_range (if b0 = x then lo else 0x80) (if b0 = y then hi else 0xBF) b1" and "0x80 \<le> lo" and "hi \<le> 0xBF"
  shows "128 \<le> unat b1" "unat b1 \<le> 191" "unat b0 = unat x \<longrightarrow> unat lo \<le> unat b1" "unat b0 = unat y \<longrightarrow> unat b1 \<le> unat hi"
  using assms by (auto simp: in_range_def word_le_nat_alt word_unat_eq_iff [symmetric] split: if_split_asm)

lemma decodeRune_cases:
  assumes "decodeRune bs = Some (r, w)"
  obtains (one) b0 t where "bs = b0 # t" "w = 1" "r = unat b0" "unat b0 < 128"
  | (two) b0 b1 t where "bs = b0 # b1 # t" "w = 2" "r = (unat b0 - 192) * 64 + (unat b1 - 128)"
      "194 \<le> unat b0" "unat b0 \<le> 223" "128 \<le> unat b1" "unat b1 \<le> 191"
  | (three) b0 b1 b2 t where "bs = b0 # b1 # b2 # t" "w = 3"
      "r = (unat b0 - 224) * 4096 + (unat b1 - 128) * 64 + (unat b2 - 128)"
      "224 \<le> unat b0" "unat b0 \<le> 239" "128 \<le> unat b1" "unat b1 \<le> 191" "128 \<le> unat b2"
      "unat b2 \<le> 191" "unat b0 = 224 \<longrightarrow> 160 \<le> unat b1" "unat b0 = 237 \<longrightarrow> unat b1 \<le> 159"
  | (four) b0 b1 b2 b3 t where "bs = b0 # b1 # b2 # b3 # t" "w = 4"
      "r = (unat b0 - 240) * 262144 + (unat b1 - 128) * 4096 + (unat b2 - 128) * 64 + (unat b3 - 128)"
      "240 \<le> unat b0" "unat b0 \<le> 244" "128 \<le> unat b1" "unat b1 \<le> 191" "128 \<le> unat b2"
      "unat b2 \<le> 191" "128 \<le> unat b3" "unat b3 \<le> 191"
      "unat b0 = 240 \<longrightarrow> 144 \<le> unat b1" "unat b0 = 244 \<longrightarrow> unat b1 \<le> 143"
proof (cases bs)
  case Nil
  with assms show thesis by simp
next
  case (Cons b0 t)
  note nats = in_range_def tail6_def word_le_nat_alt word_less_nat_alt
  consider "b0 < 0x80" | "in_range 0xC2 0xDF b0" | "in_range 0xE0 0xEF b0" | "in_range 0xF0 0xF4 b0"
    using assms Cons by (auto split: if_splits)
  then show thesis
  proof cases
    case 1
    then show thesis using assms Cons one [of b0 t] by (simp add: word_less_nat_alt)
  next
    case 2
    then have no: "\<not> b0 < 0x80" by (simp add: nats)
    with 2 assms Cons obtain b1 u where t: "t = b1 # u" by (cases t) auto
    with 2 no assms Cons two [of b0 b1 u] show thesis by (simp add: nats split: if_splits)
  next
    case 3
    then have no: "\<not> b0 < 0x80" "\<not> in_range 0xC2 0xDF b0" by (simp_all add: nats)
    with 3 assms Cons obtain b1 b2 u where t: "t = b1 # b2 # u" by (auto split: list.splits)
    from 3 no assms Cons t have c: "in_range (if b0 = 0xE0 then 0xA0 else 0x80) (if b0 = 0xED then 0x9F else 0xBF) b1"
      "in_range 0x80 0xBF b2" "w = 3"
      "r = (unat b0 - 0xE0) * 4096 + tail6 b1 * 64 + tail6 b2"
      by (simp_all split: if_split_asm)
    with 3 Cons t three [of b0 b1 b2 u] second_byte [OF c(1)] show thesis by (simp add: nats)
  next
    case 4
    then have no: "\<not> b0 < 0x80" "\<not> in_range 0xC2 0xDF b0" "\<not> in_range 0xE0 0xEF b0"
      by (simp_all add: nats)
    with 4 assms Cons obtain b1 b2 b3 u where t: "t = b1 # b2 # b3 # u" by (auto split: list.splits)
    from 4 no assms Cons t have c: "in_range (if b0 = 0xF0 then 0x90 else 0x80) (if b0 = 0xF4 then 0x8F else 0xBF) b1"
      "in_range 0x80 0xBF b2" "in_range 0x80 0xBF b3" "w = 4"
      "r = (unat b0 - 0xF0) * 262144 + tail6 b1 * 4096 + tail6 b2 * 64 + tail6 b3"
      by (simp_all split: if_split_asm)
    with 4 Cons t four [of b0 b1 b2 b3 u] second_byte [OF c(1)] show thesis by (simp add: nats)
  qed
qed

lemma three_bytes_ge:
  fixes a b c :: nat
  assumes "r = (a - 224) * 4096 + (b - 128) * 64 + (c - 128)" "224 \<le> a" "128 \<le> b" "128 \<le> c"
    "a = 224 \<longrightarrow> 160 \<le> b"
  shows "2048 \<le> r"
proof (cases "a = 224")
  case True
  with assms have "32 \<le> b - 128" by linarith
  then show ?thesis unfolding assms(1) by linarith
next
  case False
  with assms have "1 \<le> a - 224" by linarith
  then show ?thesis unfolding assms(1) by linarith
qed

lemma four_bytes_ge:
  fixes a b c d :: nat
  assumes "r = (a - 240) * 262144 + (b - 128) * 4096 + (c - 128) * 64 + (d - 128)" "240 \<le> a"
    "a = 240 \<longrightarrow> 144 \<le> b"
  shows "65536 \<le> r"
proof (cases "a = 240")
  case True
  with assms have "16 \<le> b - 128" by linarith
  then show ?thesis unfolding assms(1) by linarith
next
  case False
  with assms have "1 \<le> a - 240" by linarith
  then show ?thesis unfolding assms(1) by linarith
qed

lemma decodeRune_not_surrogate:
  assumes "decodeRune bs = Some (r, w)"
  shows "\<not> IsSurrogate r"
  using assms
proof (cases rule: decodeRune_cases)
  case (three b0 b1 b2 t)
  then consider "unat b0 - 224 \<le> 12" | "unat b0 - 224 = 13" "unat b1 - 128 \<le> 31" | "14 \<le> unat b0 - 224"
    by linarith
  then show ?thesis
    unfolding IsSurrogate_def three(3) using three(6-9) by cases linarith+
next
  case (four b0 b1 b2 b3 t)
  from four(3,4,12) have "65536 \<le> r" by (rule four_bytes_ge)
  then show ?thesis by (simp add: IsSurrogate_def)
qed (auto simp: IsSurrogate_def)

lemma decodeRune_zero:
  assumes "decodeRune bs = Some (r, w)"
  shows "r = 0 \<longleftrightarrow> 0 \<in> set (take w bs)"
  using assms
proof (cases rule: decodeRune_cases)
  case (one b0 t)
  then show ?thesis by (auto simp: unat_eq_0)
next
  case (two b0 b1 t)
  have "b0 \<noteq> 0" "b1 \<noteq> 0" using two(4,6) by auto
  then have "0 \<notin> set (take w bs)" by (simp add: two(1,2))
  moreover have "0 < r" using two(3,4) by simp
  ultimately show ?thesis by simp
next
  case (three b0 b1 b2 t)
  have "b0 \<noteq> 0" "b1 \<noteq> 0" "b2 \<noteq> 0" using three(4,6,8) by auto
  then have "0 \<notin> set (take w bs)" by (simp add: three(1,2))
  moreover have "0 < r" using three_bytes_ge [OF three(3,4,6,8,10)] by simp
  ultimately show ?thesis by simp
next
  case (four b0 b1 b2 b3 t)
  have "b0 \<noteq> 0" "b1 \<noteq> 0" "b2 \<noteq> 0" "b3 \<noteq> 0" using four(4,6,8,10) by auto
  then have "0 \<notin> set (take w bs)" by (simp add: four(1,2))
  moreover have "0 < r" using four_bytes_ge [OF four(3,4,12)] by simp
  ultimately show ?thesis by simp
qed

lemma validUTF8_step:
  assumes "bs \<noteq> []"
  shows "validUTF8 bs \<longleftrightarrow>
    (\<exists>r w. decodeRune bs = Some (r, w) \<and> r \<noteq> 0 \<and> validUTF8 (drop w bs))"
  using assms decodeRune_not_surrogate [of bs]
  by (auto simp: validUTF8_def utf8_Valid.simps [of bs] runes.simps [of bs] split: option.splits prod.splits)

text \<open>
  The rules of section 1.5.3 amount to well-formed UTF-8 without a null byte: the surrogate
  test of \<open>validUTF8\<close> never fires, because \<open>utf8.Valid\<close> already excludes surrogates.
\<close>

lemma validUTF8_iff: "validUTF8 bs \<longleftrightarrow> utf8_Valid bs \<and> 0 \<notin> set bs"
proof (induction bs rule: utf8_Valid.induct)
  case (1 bs)
  show ?case
  proof (cases "bs = []")
    case True
    then show ?thesis by (simp add: validUTF8_def utf8_Valid.simps runes.simps)
  next
    case False
    show ?thesis
    proof (cases "decodeRune bs")
      case None
      with False show ?thesis by (simp add: validUTF8_step utf8_Valid.simps [of bs])
    next
      case (Some p)
      obtain r w where p: "p = (r, w)" by (cases p)
      have IH: "validUTF8 (drop w bs) \<longleftrightarrow> utf8_Valid (drop w bs) \<and> 0 \<notin> set (drop w bs)"
        using "1.IH" False Some p by simp
      have "set bs = set (take w bs) \<union> set (drop w bs)"
        by (metis append_take_drop_id set_append)
      moreover have "r = 0 \<longleftrightarrow> 0 \<in> set (take w bs)"
        using decodeRune_zero Some p by simp
      ultimately show ?thesis
        using False Some p IH by (auto simp: validUTF8_step utf8_Valid.simps [of bs])
    qed
  qed
qed

lemma utf8_Valid_ascii: "\<forall>b \<in> set bs. b < 0x80 \<Longrightarrow> utf8_Valid bs"
proof (induction bs)
  case Nil
  then show ?case by (simp add: utf8_Valid.simps)
next
  case (Cons b bs)
  then show ?case by (subst utf8_Valid.simps) simp
qed

end
