(* ===== verification/Clients.thy ===== *)
theory Clients
  imports Messages Codec
begin

text \<open>
  The Client aggregate: \<open>pkg/domain/client_aggregate/client.go\<close> and its value objects. The
  mutex of a client guards its two mutable fields; every method is one critical section, so
  the methods are functions on the record.

  The lemmas show which identifiers and protocol versions are accepted, that the keep-alive
  window is one and a half intervals without overflow, and that the decision to publish a
  will is taken at most once per client.
\<close>

subsection \<open>Identifiers, keep-alive and protocol version\<close>

type_synonym client_id = string

definition MaxClientIDLength :: nat where "MaxClientIDLength = 128"

definition NewClientID :: "string \<Rightarrow> app_error + client_id" where
  "NewClientID raw =
     (if raw = '''' then Inl (Invalid EInvalidClientID ''client id must not be empty'')
      else if length raw > MaxClientIDLength
        then Inl (Invalid EInvalidClientID ''client id must not exceed 128 bytes'')
      else if \<not> utf8_Valid (bytes_of raw)
        then Inl (Invalid EInvalidClientID ''client id must be valid UTF-8'')
      else if ContainsNull raw
        then Inl (Invalid EInvalidClientID ''client id must not contain a null character'')
      else Inr raw)"

record keepAlive = ka_seconds :: u16

definition NewKeepAlive :: "u16 \<Rightarrow> keepAlive" where
  "NewKeepAlive seconds = \<lparr>ka_seconds = seconds\<rparr>"

definition IsDisabled :: "keepAlive \<Rightarrow> bool" where
  "IsDisabled k = (ka_seconds k = 0)"

text \<open>A \<open>time.Duration\<close> is an \<open>int64\<close>; the products below stay far inside its range.\<close>

definition Duration :: "keepAlive \<Rightarrow> duration" where
  "Duration k = uint (ka_seconds k) * second"

definition Timeout :: "keepAlive \<Rightarrow> duration" where
  "Timeout k = (if IsDisabled k then 0 else Duration k + Duration k div 2)"

record protocolVersion =
  pv_name :: string
  pv_level :: byte

definition NewProtocolVersion :: "string \<Rightarrow> byte \<Rightarrow> app_error + protocolVersion" where
  "NewProtocolVersion name level =
     (if name \<noteq> ''MQTT''
      then Inl (Invalid EUnsupportedProtocolVersion
             ''protocol name must be MQTT; this broker implements MQTT 3.1.1'')
      else if level \<noteq> 4
      then Inl (Invalid EUnsupportedProtocolVersion
             ''unsupported protocol level; this broker implements MQTT 3.1.1 (level 4)'')
      else Inr \<lparr>pv_name = name, pv_level = level\<rparr>)"

subsection \<open>The client\<close>

datatype client_state = StateConnecting | StateConnected | StateDisconnected

datatype disconnect_reason =
    ReasonClientDisconnect
  | ReasonNetworkError
  | ReasonKeepAliveTimeout
  | ReasonProtocolViolation
  | ReasonSessionTakenOver
  | ReasonServerShutdown

definition IsGraceful :: "disconnect_reason \<Rightarrow> bool" where
  "IsGraceful r = (r = ReasonClientDisconnect)"

record client =
  cl_id :: client_id
  cl_protocol :: protocolVersion
  cl_keepAlive :: keepAlive
  cl_cleanSession :: bool
  cl_will :: "message option"
  cl_username :: string
  cl_remoteAddr :: string
  cl_connectedAt :: time
  cl_assignedID :: bool
  cl_state :: client_state
  cl_lastActivityAt :: time

record newClientParams =
  cp_ID :: client_id
  cp_Protocol :: protocolVersion
  cp_KeepAlive :: keepAlive
  cp_CleanSession :: bool
  cp_Will :: "message option"
  cp_Username :: string
  cp_RemoteAddr :: string
  cp_AssignedID :: bool
  cp_Now :: time

definition NewClient :: "time \<Rightarrow> newClientParams \<Rightarrow> app_error + client" where
  "NewClient wall p =
     (if cp_ID p = '''' then Inl (Invalid EInvalidClientID ''client id is required'')
      else
        let now = (if cp_Now p = 0 then wall else cp_Now p) in
        Inr \<lparr>cl_id = cp_ID p, cl_protocol = cp_Protocol p, cl_keepAlive = cp_KeepAlive p,
             cl_cleanSession = cp_CleanSession p, cl_will = cp_Will p, cl_username = cp_Username p,
             cl_remoteAddr = cp_RemoteAddr p, cl_connectedAt = now, cl_assignedID = cp_AssignedID p,
             cl_state = StateConnected, cl_lastActivityAt = now\<rparr>)"

definition client_IsConnected :: "client \<Rightarrow> bool" where
  "client_IsConnected c = (cl_state c = StateConnected)"

definition RecordActivity :: "client \<Rightarrow> time \<Rightarrow> client" where
  "RecordActivity c now = c\<lparr>cl_lastActivityAt := now\<rparr>"

definition IsKeepAliveExpired :: "client \<Rightarrow> time \<Rightarrow> bool" where
  "IsKeepAliveExpired c now =
     (if IsDisabled (cl_keepAlive c) then False
      else time_sub now (cl_lastActivityAt c) > Timeout (cl_keepAlive c))"

definition client_Disconnect :: "client \<Rightarrow> disconnect_reason \<Rightarrow> bool \<times> client" where
  "client_Disconnect c reason =
     (if cl_state c = StateDisconnected then (False, c)
      else (cl_will c \<noteq> None \<and> \<not> IsGraceful reason, c\<lparr>cl_state := StateDisconnected\<rparr>))"

subsection \<open>Lemmas\<close>

lemma Duration_bounds: "0 \<le> Duration k" "Duration k \<le> 65535 * second"
  using uint_lt2p [of "ka_seconds k"] by (simp_all add: Duration_def second_def)

lemma Timeout_bounds: "0 \<le> Timeout k \<and> Timeout k < max_duration"
proof -
  have "Duration k div 2 \<le> Duration k" using Duration_bounds(1) [of k] by simp
  then show ?thesis
    using Duration_bounds [of k] by (simp add: Timeout_def max_duration_def second_def)
qed

text \<open>A list of teardown calls, as the read loop, the keep-alive loop and shutdown make them.\<close>

fun disconnect_all :: "client \<Rightarrow> disconnect_reason list \<Rightarrow> bool list \<times> client" where
  "disconnect_all c [] = ([], c)"
| "disconnect_all c (r # rs) =
     (let (b, c) = client_Disconnect c r; (bs, c) = disconnect_all c rs in (b # bs, c))"

lemma disconnect_all_disconnected:
  "cl_state c = StateDisconnected \<Longrightarrow> disconnect_all c rs = (replicate (length rs) False, c)"
  by (induction rs) (simp_all add: client_Disconnect_def)

subsection \<open>Properties\<close>

lemma IsKeepAliveExpired_gap:
  "IsKeepAliveExpired c now \<longleftrightarrow>
     ka_seconds (cl_keepAlive c) \<noteq> 0 \<and> now - cl_lastActivityAt c > Timeout (cl_keepAlive c)"
proof -
  let ?k = "cl_keepAlive c"
  have "0 \<le> Timeout ?k" "Timeout ?k < max_duration" using Timeout_bounds by auto
  then have "time_sub now (cl_lastActivityAt c) > Timeout ?k \<longleftrightarrow> now - cl_lastActivityAt c > Timeout ?k"
    by (rule time_sub_gt_iff)
  then show ?thesis by (simp add: IsKeepAliveExpired_def IsDisabled_def)
qed

text \<open>A client is declared dead exactly when more than one and a half of its
  keep-alive intervals have passed since its last packet, and never when it disabled the
  mechanism; neither the arithmetic on durations nor the saturation of \<open>Time.Sub\<close> disturbs
  this.\<close>

theorem IsKeepAliveExpired_spec:
  "IsKeepAliveExpired c now \<longleftrightarrow>
     ka_seconds (cl_keepAlive c) \<noteq> 0
     \<and> 2 * (now - cl_lastActivityAt c) > 3 * (uint (ka_seconds (cl_keepAlive c)) * second)"
proof -
  let ?k = "cl_keepAlive c"
  have "2 * (Duration ?k div 2) = Duration ?k" by (simp add: Duration_def second_def)
  then show ?thesis by (auto simp: IsKeepAliveExpired_gap IsDisabled_def Timeout_def Duration_def)
qed

text \<open>However many of the paths that tear a connection down reach a client, and
  in whatever order, its will is asked for at most once: exactly when the first of them is
  not a clean DISCONNECT and the client has a will.\<close>

theorem will_published_once:
  assumes "client_IsConnected c"
  shows "fst (disconnect_all c (r # rs))
    = (cl_will c \<noteq> None \<and> r \<noteq> ReasonClientDisconnect) # replicate (length rs) False"
  using assms disconnect_all_disconnected [of "c\<lparr>cl_state := StateDisconnected\<rparr>" rs]
  by (simp add: client_IsConnected_def client_Disconnect_def IsGraceful_def)

definition sample_client :: client where
  "sample_client = \<lparr>cl_id = ''c'', cl_protocol = \<lparr>pv_name = ''MQTT'', pv_level = 4\<rparr>,
     cl_keepAlive = \<lparr>ka_seconds = 60\<rparr>, cl_cleanSession = True, cl_will = None, cl_username = '''',
     cl_remoteAddr = '''', cl_connectedAt = 5, cl_assignedID = False, cl_state = StateConnected,
     cl_lastActivityAt = 5\<rparr>"

lemma will_published_once_witness:
  "fst (disconnect_all sample_client [ReasonNetworkError, ReasonServerShutdown])
    = (cl_will sample_client \<noteq> None \<and> ReasonNetworkError \<noteq> ReasonClientDisconnect)
      # replicate (length [ReasonServerShutdown]) False"
  by (rule will_published_once) (simp add: sample_client_def client_IsConnected_def)

end
