(* ===== verification/Stores.thy ===== *)
theory Stores
  imports Sessions Clients
begin

text \<open>
  The in-memory stores behind the ports \<open>ISessionStore\<close>, \<open>IRetainedStore\<close> and
  \<open>IClientRegistry\<close> (\<open>pkg/infrastructure/persistence/memory\<close>): a map of sessions, a map of
  retained messages, and a map from client identifiers to the connected client. The mutexes
  make each method one step. Sessions and messages are values; the registry compares clients
  by identity, so it holds references, natural numbers that stand for the pointers.

  Each port is a locale with the laws its users rely on, interpreted on the stores.
\<close>

subsection \<open>The session store\<close>

type_synonym session_store = "(client_id, session) gomap"

definition NewSessionStore :: session_store where "NewSessionStore = []"

definition session_Get :: "session_store \<Rightarrow> client_id \<Rightarrow> session option" where
  "session_Get s clientID = mget s clientID"

definition session_Put :: "session_store \<Rightarrow> session \<Rightarrow> session_store" where
  "session_Put s session = mput (se_clientID session) session s"

definition session_Delete :: "session_store \<Rightarrow> client_id \<Rightarrow> bool \<times> session_store" where
  "session_Delete s clientID = (if mget s clientID = None then (False, s) else (True, mdel clientID s))"

text \<open>
  \<open>fn\<close> runs under the lock of the session. It gets, besides the session, the state \<open>x\<close> that the
  closure captured, and must not call back into the store.
\<close>

definition Update ::
  "session_store \<Rightarrow> client_id \<Rightarrow> (session \<Rightarrow> 'x \<Rightarrow> app_error option \<times> session \<times> 'x) \<Rightarrow> 'x
    \<Rightarrow> app_error option \<times> session_store \<times> 'x" where
  "Update s clientID fn x =
     (case mget s clientID of
        None \<Rightarrow> (Some (NotFound ESessionNotFound (''no session found for client '' @ clientID)), s, x)
      | Some session \<Rightarrow>
          (case fn session x of (err, session', x') \<Rightarrow> (err, mput clientID session' s, x')))"

definition session_Count :: "session_store \<Rightarrow> nat" where
  "session_Count s = length s"

definition session_All :: "session_store \<Rightarrow> session list" where
  "session_All s = map snd s"

subsection \<open>The retained store\<close>

type_synonym retained_store = "(topic_name, message) gomap"

definition NewRetainedStore :: retained_store where "NewRetainedStore = []"

definition Store :: "retained_store \<Rightarrow> topic_name \<Rightarrow> message \<Rightarrow> retained_store" where
  "Store s topic message = mput topic message s"

definition Remove :: "retained_store \<Rightarrow> topic_name \<Rightarrow> retained_store" where
  "Remove s topic = mdel topic s"

definition Matching :: "retained_store \<Rightarrow> topic_filter \<Rightarrow> message list" where
  "Matching s filt = map snd (filter (\<lambda>(topic, message). Matches filt topic) s)"

definition retained_Count :: "retained_store \<Rightarrow> nat" where
  "retained_Count s = length s"

definition retained_All :: "retained_store \<Rightarrow> message list" where
  "retained_All s = map snd s"

subsection \<open>The client registry\<close>

type_synonym client_ref = nat
type_synonym client_registry = "(client_id, client_ref) gomap"

definition NewClientRegistry :: client_registry where "NewClientRegistry = []"

definition Register :: "client_registry \<Rightarrow> client_id \<Rightarrow> client_ref \<Rightarrow> client_ref option \<times> client_registry" where
  "Register r clientID client = (mget r clientID, mput clientID client r)"

definition Unregister :: "client_registry \<Rightarrow> client_id \<Rightarrow> client_ref \<Rightarrow> bool \<times> client_registry" where
  "Unregister r clientID client =
     (if mget r clientID \<noteq> Some client then (False, r) else (True, mdel clientID r))"

definition registry_Get :: "client_registry \<Rightarrow> client_id \<Rightarrow> client_ref option" where
  "registry_Get r clientID = mget r clientID"

definition registry_Count :: "client_registry \<Rightarrow> nat" where
  "registry_Count r = length r"

definition registry_All :: "client_registry \<Rightarrow> client_ref list" where
  "registry_All r = map snd r"

subsection \<open>The contracts of the ports\<close>

definition store_ok :: "session_store \<Rightarrow> bool" where
  "store_ok s = (map_ok s \<and> list_all (\<lambda>(c, se). se_clientID se = c \<and> session_ok se) s)"

locale session_port =
  fixes ok :: "'s \<Rightarrow> bool" and get :: "'s \<Rightarrow> client_id \<Rightarrow> session option"
    and put :: "'s \<Rightarrow> session \<Rightarrow> 's" and delete :: "'s \<Rightarrow> client_id \<Rightarrow> bool \<times> 's"
  assumes get_ok: "ok s \<Longrightarrow> get s c = Some se \<Longrightarrow> se_clientID se = c \<and> session_ok se"
    and put_ok: "ok s \<Longrightarrow> session_ok se \<Longrightarrow> ok (put s se)"
    and get_put: "ok s \<Longrightarrow> get (put s se) c = (if c = se_clientID se then Some se else get s c)"
    and delete_ok: "ok s \<Longrightarrow> ok (snd (delete s c))"
    and get_delete: "ok s \<Longrightarrow> get (snd (delete s c)) c' = (if c' = c then None else get s c')"
    and delete_found: "ok s \<Longrightarrow> fst (delete s c) \<longleftrightarrow> get s c \<noteq> None"
begin

lemma put_delete: "ok s \<Longrightarrow> c = se_clientID se \<Longrightarrow> session_ok se \<Longrightarrow> get (put (snd (delete s c)) se) c = Some se"
  by (simp add: get_put delete_ok)

end

lemma session_Put_ok: "store_ok s \<Longrightarrow> session_ok se \<Longrightarrow> store_ok (session_Put s se)"
  by (auto simp: store_ok_def session_Put_def list_all_map)

lemma session_Delete_ok: "store_ok s \<Longrightarrow> store_ok (snd (session_Delete s c))"
  by (auto simp: store_ok_def session_Delete_def list_all_map)

lemma session_Get_ok:
  assumes "store_ok s" and "session_Get s c = Some se"
  shows "se_clientID se = c \<and> session_ok se"
  using list_all_mget [of _ s c se] assms by (fastforce simp: store_ok_def session_Get_def)

interpretation sessions: session_port store_ok session_Get session_Put session_Delete
  by unfold_locales
    (auto simp: session_Get_ok session_Put_ok session_Delete_ok,
     auto simp: session_Get_def session_Put_def session_Delete_def split: if_splits)

text \<open>An update touches one session, and keeps the store if the callback keeps the session.\<close>

lemma Update_ok:
  assumes "store_ok s" and "\<And>se. session_Get s c = Some se \<Longrightarrow>
      session_ok (fst (snd (fn se x))) \<and> se_clientID (fst (snd (fn se x))) = c"
  shows "store_ok (fst (snd (Update s c fn x)))"
proof (cases "mget s c")
  case (Some se)
  with assms(2) [of se] have "session_ok (fst (snd (fn se x)))" "se_clientID (fst (snd (fn se x))) = c"
    by (auto simp: session_Get_def)
  with Some assms(1) show ?thesis
    by (simp add: store_ok_def Update_def split_beta list_all_map)
qed (simp add: Update_def assms)

lemma Update_frame: "c' \<noteq> c \<Longrightarrow> session_Get (fst (snd (Update s c fn x))) c' = session_Get s c'"
  by (simp add: Update_def session_Get_def split: option.split prod.split)

locale retained_port =
  fixes ok :: "'s \<Rightarrow> bool" and get :: "'s \<Rightarrow> topic_name \<Rightarrow> message option"
    and store :: "'s \<Rightarrow> topic_name \<Rightarrow> message \<Rightarrow> 's" and remove :: "'s \<Rightarrow> topic_name \<Rightarrow> 's"
    and matching :: "'s \<Rightarrow> topic_filter \<Rightarrow> message list"
  assumes store_ok': "ok s \<Longrightarrow> ok (store s t m)" and remove_ok: "ok s \<Longrightarrow> ok (remove s t)"
    and get_store: "ok s \<Longrightarrow> get (store s t m) t' = (if t' = t then Some m else get s t')"
    and get_remove: "ok s \<Longrightarrow> get (remove s t) t' = (if t' = t then None else get s t')"
    and matching_iff: "ok s \<Longrightarrow> m \<in> set (matching s f) \<longleftrightarrow> (\<exists>t. get s t = Some m \<and> Matches f t)"
begin

text \<open>A topic has one retained message, the last one stored, until it is removed.\<close>

lemma matching_last:
  assumes "ok s" and "Matches f t"
  shows "m \<in> set (matching (store s t m) f)"
    and "m' \<in> set (matching (store s t m) f) \<Longrightarrow> m' = m \<or> (\<exists>t'. t' \<noteq> t \<and> get s t' = Some m')"
  using assms by (auto simp: matching_iff store_ok' get_store split: if_splits)

lemma matching_removed:
  assumes "ok s" and "m \<in> set (matching (remove s t) f)"
  shows "\<exists>t'. t' \<noteq> t \<and> get s t' = Some m"
  using assms by (auto simp: matching_iff remove_ok get_remove split: if_splits)

end

interpretation retained: retained_port map_ok map_of Store Remove Matching
  by unfold_locales (auto simp: Store_def Remove_def Matching_def map_ok_in_set [symmetric] image_iff)

locale registry_port =
  fixes get :: "'r \<Rightarrow> client_id \<Rightarrow> client_ref option"
    and register :: "'r \<Rightarrow> client_id \<Rightarrow> client_ref \<Rightarrow> client_ref option \<times> 'r"
    and unregister :: "'r \<Rightarrow> client_id \<Rightarrow> client_ref \<Rightarrow> bool \<times> 'r"
  assumes register_displaced: "fst (register r c k) = get r c"
    and get_register: "get (snd (register r c k)) c' = (if c' = c then Some k else get r c')"
    and unregister_current: "fst (unregister r c k) \<longleftrightarrow> get r c = Some k"
    and get_unregister: "get (snd (unregister r c k)) c' = (if c' = c \<and> get r c = Some k then None else get r c')"
begin

text \<open>A late teardown of a displaced client does not evict its successor.\<close>

lemma takeover_safe:
  assumes "k \<noteq> k'"
  shows "get (snd (unregister (snd (register r c k')) c k)) c = Some k'"
    and "\<not> fst (unregister (snd (register r c k')) c k)"
  using assms by (simp_all add: get_unregister get_register unregister_current)

end

interpretation registry: registry_port registry_Get Register Unregister
  by unfold_locales (auto simp: registry_Get_def Register_def Unregister_def)

end
