(* ===== verification/Packets.thy ===== *)
theory Packets
  imports Codec
begin

text \<open>
  The control packets of MQTT 3.1.1: \<open>connect.go\<close>, \<open>publish.go\<close> and \<open>subscribe.go\<close> of
  \<open>pkg/infrastructure/mqtt/packet\<close>. Each Go struct is a record, the interface \<open>Packet\<close> is
  the datatype \<open>packet\<close> with one constructor per implementing type, and every struct has its
  \<open>Encode\<close> method and its body decoder. \<open>Encode dst p\<close> appends to \<open>dst\<close> as the method does.

  The lemmas show, per packet type, that encoding a well-formed packet succeeds and that the
  body decoder gives it back, that whatever a body decoder accepts is well-formed, and that
  encoding an accepted packet restores the bytes it was decoded from.
\<close>

unbundle bit_operations_syntax

subsection \<open>CONNECT and CONNACK\<close>

definition ProtocolName :: string where "ProtocolName = ''MQTT''"
definition ProtocolLevel311 :: byte where "ProtocolLevel311 = 4"

abbreviation flagReserved :: byte where "flagReserved \<equiv> 0x01"
abbreviation flagCleanSession :: byte where "flagCleanSession \<equiv> 0x02"
abbreviation flagWill :: byte where "flagWill \<equiv> 0x04"
abbreviation flagWillQoSMask :: byte where "flagWillQoSMask \<equiv> 0x18"
abbreviation flagWillRetain :: byte where "flagWillRetain \<equiv> 0x20"
abbreviation flagPassword :: byte where "flagPassword \<equiv> 0x40"
abbreviation flagUsername :: byte where "flagUsername \<equiv> 0x80"

record will =
  will_Topic :: string
  will_Payload :: bytes
  will_QoS :: byte
  will_Retain :: bool

record connect =
  c_ProtocolName :: string
  c_ProtocolLevel :: byte
  c_CleanSession :: bool
  c_KeepAlive :: u16
  c_ClientID :: string
  c_Will :: "will option"
  c_Username :: string
  c_Password :: bytes
  c_HasUsername :: bool
  c_HasPassword :: bool

definition decodeConnect :: "bytes \<Rightarrow> codec_error + connect" where
  "decodeConnect body =
   andThen (stringValue (newReader body)) (\<lambda>(protocolName, r).
   if protocolName \<noteq> ProtocolName
   then Inl (newProtocolError (''protocol name must be '' @ ProtocolName))
   else andThen (byteValue r) (\<lambda>(protocolLevel, r).
   andThen (byteValue r) (\<lambda>(flags, r).
   if flags AND flagReserved \<noteq> 0 then Inl (newProtocolError ''CONNECT reserved flag must be zero'')
   else andThen (uint16Value r) (\<lambda>(keepAlive, r).
   andThen (stringValue r) (\<lambda>(clientID, r).
   let connect =
         \<lparr>c_ProtocolName = protocolName, c_ProtocolLevel = protocolLevel,
          c_CleanSession = (flags AND flagCleanSession \<noteq> 0), c_KeepAlive = keepAlive,
          c_ClientID = clientID, c_Will = None, c_Username = '''', c_Password = [],
          c_HasUsername = (flags AND flagUsername \<noteq> 0),
          c_HasPassword = (flags AND flagPassword \<noteq> 0)\<rparr>;
       willQoS = drop_bit 3 (flags AND flagWillQoSMask);
       hasWill = (flags AND flagWill \<noteq> 0)
   in andThen
     (if hasWill then
        (if willQoS > 2 then Inl ErrInvalidQoS
         else andThen (stringValue r) (\<lambda>(willTopic, r).
              andThen (bytesValue r) (\<lambda>(willPayload, r).
              Inr (connect\<lparr>c_Will := Some \<lparr>will_Topic = willTopic, will_Payload = willPayload,
                     will_QoS = willQoS, will_Retain = (flags AND flagWillRetain \<noteq> 0)\<rparr>\<rparr>, r))))
      else if willQoS \<noteq> 0
        then Inl (newProtocolError ''will QoS must be zero when the will flag is clear'')
      else if flags AND flagWillRetain \<noteq> 0
        then Inl (newProtocolError ''will retain must be zero when the will flag is clear'')
      else Inr (connect, r))
   (\<lambda>(connect, r).
   andThen
     (if c_HasUsername connect
      then andThen (stringValue r) (\<lambda>(username, r). Inr (connect\<lparr>c_Username := username\<rparr>, r))
      else Inr (connect, r))
   (\<lambda>(connect, r).
   andThen
     (if c_HasPassword connect then
        (if \<not> c_HasUsername connect
         then Inl (newProtocolError ''password flag set without username flag'')
         else andThen (bytesValue r) (\<lambda>(password, r). Inr (connect\<lparr>c_Password := password\<rparr>, r)))
      else Inr (connect, r))
   (\<lambda>(connect, r).
   if \<not> reader_done r then Inl (newProtocolError ''CONNECT has trailing bytes'')
   else Inr connect))))))))"

definition connect_flags :: "connect \<Rightarrow> byte" where
  "connect_flags c =
     (let flags = 0 :: byte;
          flags = (if c_CleanSession c then flags OR flagCleanSession else flags);
          flags = (case c_Will c of None \<Rightarrow> flags
                   | Some w \<Rightarrow>
                       let flags = flags OR flagWill;
                           flags = flags OR (push_bit 3 (will_QoS w) AND flagWillQoSMask)
                       in if will_Retain w then flags OR flagWillRetain else flags);
          flags = (if c_HasUsername c then flags OR flagUsername else flags)
      in if c_HasPassword c then flags OR flagPassword else flags)"

definition connect_length :: "connect \<Rightarrow> nat" where
  "connect_length c =
     stringSize (c_ProtocolName c) + 1 + 1 + 2 + stringSize (c_ClientID c)
     + (case c_Will c of None \<Rightarrow> 0
        | Some w \<Rightarrow> stringSize (will_Topic w) + 2 + length (will_Payload w))
     + (if c_HasUsername c then stringSize (c_Username c) else 0)
     + (if c_HasPassword c then 2 + length (c_Password c) else 0)"

definition connect_Encode :: "bytes \<Rightarrow> connect \<Rightarrow> codec_error + bytes" where
  "connect_Encode dst c =
     (let dst = dst @ [push_bit 4 CONNECT];
          dst = encodeRemainingLength dst (connect_length c);
          dst = appendString dst (c_ProtocolName c);
          dst = dst @ [c_ProtocolLevel c, connect_flags c];
          dst = appendUint16 dst (c_KeepAlive c);
          dst = appendString dst (c_ClientID c);
          dst = (case c_Will c of None \<Rightarrow> dst
                 | Some w \<Rightarrow> appendBytes (appendString dst (will_Topic w)) (will_Payload w));
          dst = (if c_HasUsername c then appendString dst (c_Username c) else dst);
          dst = (if c_HasPassword c then appendBytes dst (c_Password c) else dst)
      in Inr dst)"

abbreviation ConnectAccepted :: byte where "ConnectAccepted \<equiv> 0"
abbreviation ConnectUnacceptableProtocolVer :: byte where "ConnectUnacceptableProtocolVer \<equiv> 1"
abbreviation ConnectIdentifierRejected :: byte where "ConnectIdentifierRejected \<equiv> 2"
abbreviation ConnectServerUnavailable :: byte where "ConnectServerUnavailable \<equiv> 3"
abbreviation ConnectBadCredentials :: byte where "ConnectBadCredentials \<equiv> 4"
abbreviation ConnectNotAuthorized :: byte where "ConnectNotAuthorized \<equiv> 5"

definition returnCode_String :: "byte \<Rightarrow> string" where
  "returnCode_String c =
     (if c = ConnectAccepted then ''accepted''
      else if c = ConnectUnacceptableProtocolVer then ''unacceptable_protocol_version''
      else if c = ConnectIdentifierRejected then ''identifier_rejected''
      else if c = ConnectServerUnavailable then ''server_unavailable''
      else if c = ConnectBadCredentials then ''bad_username_or_password''
      else if c = ConnectNotAuthorized then ''not_authorized'' else ''unknown'')"

record connack =
  ca_SessionPresent :: bool
  ca_ReturnCode :: byte

definition connack_Encode :: "bytes \<Rightarrow> connack \<Rightarrow> codec_error + bytes" where
  "connack_Encode dst c =
     (let ackFlags = (if ca_SessionPresent c \<and> ca_ReturnCode c = ConnectAccepted then 0x01 else 0)
      in Inr (dst @ [push_bit 4 CONNACK, 2, ackFlags, ca_ReturnCode c]))"

definition decodeConnack :: "bytes \<Rightarrow> codec_error + connack" where
  "decodeConnack body =
     (if length body \<noteq> 2 then Inl ErrMalformedPacket
      else if body ! 0 AND 0xFE \<noteq> 0
        then Inl (newProtocolError ''CONNACK reserved acknowledge flags must be zero'')
      else Inr \<lparr>ca_SessionPresent = (body ! 0 AND 0x01 \<noteq> 0), ca_ReturnCode = body ! 1\<rparr>)"

subsection \<open>PUBLISH and the acknowledgements\<close>

record publish =
  p_DUP :: bool
  p_QoS :: byte
  p_Retain :: bool
  p_Topic :: string
  p_PacketID :: u16
  p_Payload :: bytes

fun containsWildcard :: "string \<Rightarrow> bool" where
  "containsWildcard [] = False"
| "containsWildcard (c # cs) = (if c = CHR ''+'' \<or> c = CHR ''#'' then True else containsWildcard cs)"

definition decodePublish :: "byte \<Rightarrow> bytes \<Rightarrow> codec_error + publish" where
  "decodePublish flags body =
     (let p = \<lparr>p_DUP = (flags AND 0x08 \<noteq> 0), p_QoS = drop_bit 1 flags AND 0x03,
               p_Retain = (flags AND 0x01 \<noteq> 0), p_Topic = '''', p_PacketID = 0, p_Payload = []\<rparr>
      in andThen (stringValue (newReader body)) (\<lambda>(topic, r).
         if containsWildcard topic
         then Inl (newProtocolError ''PUBLISH topic must not contain wildcard characters'')
         else let p = p\<lparr>p_Topic := topic\<rparr> in
           andThen
             (if p_QoS p > 0 then
                andThen (uint16Value r) (\<lambda>(packetID, r).
                  if packetID = 0 then Inl ErrInvalidPacketID else Inr (p\<lparr>p_PacketID := packetID\<rparr>, r))
              else Inr (p, r))
           (\<lambda>(p, r). Inr (p\<lparr>p_Payload := fst (rest r)\<rparr>))))"

definition publish_flags :: "publish \<Rightarrow> byte" where
  "publish_flags p =
     (let flags = (if p_DUP p then 0x08 else 0 :: byte);
          flags = flags OR (push_bit 1 (p_QoS p) AND 0x06)
      in if p_Retain p then flags OR 0x01 else flags)"

definition publish_length :: "publish \<Rightarrow> nat" where
  "publish_length p =
     stringSize (p_Topic p) + length (p_Payload p) + (if p_QoS p > 0 then 2 else 0)"

definition publish_Encode :: "bytes \<Rightarrow> publish \<Rightarrow> codec_error + bytes" where
  "publish_Encode dst p =
     (if p_QoS p > 2 then Inl ErrInvalidQoS
      else if p_QoS p > 0 \<and> p_PacketID p = 0 then Inl ErrInvalidPacketID
      else
        let dst = dst @ [push_bit 4 PUBLISH OR publish_flags p];
            dst = encodeRemainingLength dst (publish_length p);
            dst = appendString dst (p_Topic p);
            dst = (if p_QoS p > 0 then appendUint16 dst (p_PacketID p) else dst)
        in Inr (dst @ p_Payload p))"

definition EncodedSize :: "publish \<Rightarrow> nat" where
  "EncodedSize p = 1 + remainingLengthSize (publish_length p) + publish_length p"

record ack =
  ack_packetType :: ptype
  ack_PacketID :: u16

definition NewPuback :: "u16 \<Rightarrow> ack" where
  "NewPuback packetID = \<lparr>ack_packetType = PUBACK, ack_PacketID = packetID\<rparr>"

definition NewPubrec :: "u16 \<Rightarrow> ack" where
  "NewPubrec packetID = \<lparr>ack_packetType = PUBREC, ack_PacketID = packetID\<rparr>"

definition NewPubrel :: "u16 \<Rightarrow> ack" where
  "NewPubrel packetID = \<lparr>ack_packetType = PUBREL, ack_PacketID = packetID\<rparr>"

definition NewPubcomp :: "u16 \<Rightarrow> ack" where
  "NewPubcomp packetID = \<lparr>ack_packetType = PUBCOMP, ack_PacketID = packetID\<rparr>"

definition NewUnsuback :: "u16 \<Rightarrow> ack" where
  "NewUnsuback packetID = \<lparr>ack_packetType = UNSUBACK, ack_PacketID = packetID\<rparr>"

definition flagsFor :: "ptype \<Rightarrow> byte" where
  "flagsFor t = (case requiredFlags t of None \<Rightarrow> 0 | Some f \<Rightarrow> f)"

definition ack_Encode :: "bytes \<Rightarrow> ack \<Rightarrow> codec_error + bytes" where
  "ack_Encode dst a =
     (if ack_PacketID a = 0 then Inl ErrInvalidPacketID
      else Inr (appendUint16 (dst @ [push_bit 4 (ack_packetType a) OR flagsFor (ack_packetType a), 2])
                 (ack_PacketID a)))"

definition decodeAck :: "ptype \<Rightarrow> bytes \<Rightarrow> codec_error + ack" where
  "decodeAck t body =
     (if length body \<noteq> 2 then Inl ErrMalformedPacket
      else let packetID = be16 (body ! 0) (body ! 1) in
        if packetID = 0 then Inl ErrInvalidPacketID
        else Inr \<lparr>ack_packetType = t, ack_PacketID = packetID\<rparr>)"

subsection \<open>SUBSCRIBE, SUBACK, UNSUBSCRIBE and the empty packets\<close>

record topicSubscription =
  ts_Filter :: string
  ts_QoS :: byte

record subscribe =
  s_PacketID :: u16
  s_Subscriptions :: "topicSubscription list"

text \<open>A read that succeeds advances the reader, which is why the decoding loops end.\<close>

lemma andThen_cong [fundef_cong]:
  "r = r' \<Longrightarrow> (\<And>x. r' = Inr x \<Longrightarrow> f x = f' x) \<Longrightarrow> andThen r f = andThen r' f'"
  by (cases r') auto

lemma byteValue_advances: "byteValue r = Inr (b, r') \<Longrightarrow> rbuf r' = rbuf r \<and> rpos r < rpos r'"
  by (auto simp: byteValue_def split: if_splits)

lemma stringValue_advances: "stringValue r = Inr (s, r') \<Longrightarrow> rbuf r' = rbuf r \<and> rpos r < rpos r'"
  by (auto simp: stringValue_def bytesValue_def uint16Value_def andThen_Inr_iff split: if_splits)

function subscribeLoop :: "reader \<Rightarrow> topicSubscription list \<Rightarrow> codec_error + topicSubscription list" where
  "subscribeLoop r subs =
     (if reader_done r then Inr subs
      else andThen (stringValue r) (\<lambda>(filter, r1).
           andThen (byteValue r1) (\<lambda>(requestedQoS, r2).
           if requestedQoS > 2
           then Inl (newProtocolError ''SUBSCRIBE requested QoS must be 0, 1 or 2'')
           else subscribeLoop r2 (subs @ [\<lparr>ts_Filter = filter, ts_QoS = requestedQoS\<rparr>]))))"
  by pat_completeness auto
termination
  by (relation "measure (\<lambda>(r, subs). length (rbuf r) - rpos r)")
    (auto simp: reader_done_def dest!: stringValue_advances byteValue_advances)

declare subscribeLoop.simps [simp del]

definition decodeSubscribe :: "bytes \<Rightarrow> codec_error + subscribe" where
  "decodeSubscribe body =
     andThen (uint16Value (newReader body)) (\<lambda>(packetID, r).
     if packetID = 0 then Inl ErrInvalidPacketID
     else andThen (subscribeLoop r []) (\<lambda>subs.
       if length subs = 0
       then Inl (newProtocolError ''SUBSCRIBE must contain at least one topic filter'')
       else Inr \<lparr>s_PacketID = packetID, s_Subscriptions = subs\<rparr>))"

definition subscribe_length :: "subscribe \<Rightarrow> nat" where
  "subscribe_length s =
     foldl (\<lambda>len sub. len + (stringSize (ts_Filter sub) + 1)) 2 (s_Subscriptions s)"

definition subscribe_Encode :: "bytes \<Rightarrow> subscribe \<Rightarrow> codec_error + bytes" where
  "subscribe_Encode dst s =
     (if s_PacketID s = 0 then Inl ErrInvalidPacketID
      else if length (s_Subscriptions s) = 0
        then Inl (newProtocolError ''SUBSCRIBE must contain at least one topic filter'')
      else
        let dst = dst @ [push_bit 4 SUBSCRIBE OR flagsFor SUBSCRIBE];
            dst = encodeRemainingLength dst (subscribe_length s);
            dst = appendUint16 dst (s_PacketID s)
        in Inr (foldl (\<lambda>dst sub. appendString dst (ts_Filter sub) @ [ts_QoS sub]) dst
                  (s_Subscriptions s)))"

definition SubackFailure :: byte where "SubackFailure = 0x80"

record suback =
  sa_PacketID :: u16
  sa_ReturnCodes :: bytes

definition suback_Encode :: "bytes \<Rightarrow> suback \<Rightarrow> codec_error + bytes" where
  "suback_Encode dst s =
     (if sa_PacketID s = 0 then Inl ErrInvalidPacketID
      else
        let dst = dst @ [push_bit 4 SUBACK];
            dst = encodeRemainingLength dst (2 + length (sa_ReturnCodes s));
            dst = appendUint16 dst (sa_PacketID s)
        in Inr (dst @ sa_ReturnCodes s))"

fun badReturnCode :: "bytes \<Rightarrow> bool" where
  "badReturnCode [] = False"
| "badReturnCode (code # codes) =
     (if code > 2 \<and> code \<noteq> SubackFailure then True else badReturnCode codes)"

definition decodeSuback :: "bytes \<Rightarrow> codec_error + suback" where
  "decodeSuback body =
     (if length body < 3 then Inl ErrMalformedPacket
      else let packetID = be16 (body ! 0) (body ! 1) in
        if packetID = 0 then Inl ErrInvalidPacketID
        else let codes = drop 2 body in
          if badReturnCode codes
          then Inl (newProtocolError ''SUBACK return code must be 0, 1, 2 or 0x80'')
          else Inr \<lparr>sa_PacketID = packetID, sa_ReturnCodes = codes\<rparr>)"

record unsubscribe =
  u_PacketID :: u16
  u_Filters :: "string list"

function unsubscribeLoop :: "reader \<Rightarrow> string list \<Rightarrow> codec_error + string list" where
  "unsubscribeLoop r filters =
     (if reader_done r then Inr filters
      else andThen (stringValue r) (\<lambda>(filter, r1). unsubscribeLoop r1 (filters @ [filter])))"
  by pat_completeness auto
termination
  by (relation "measure (\<lambda>(r, filters). length (rbuf r) - rpos r)")
    (auto simp: reader_done_def dest!: stringValue_advances)

declare unsubscribeLoop.simps [simp del]

definition decodeUnsubscribe :: "bytes \<Rightarrow> codec_error + unsubscribe" where
  "decodeUnsubscribe body =
     andThen (uint16Value (newReader body)) (\<lambda>(packetID, r).
     if packetID = 0 then Inl ErrInvalidPacketID
     else andThen (unsubscribeLoop r []) (\<lambda>filters.
       if length filters = 0
       then Inl (newProtocolError ''UNSUBSCRIBE must contain at least one topic filter'')
       else Inr \<lparr>u_PacketID = packetID, u_Filters = filters\<rparr>))"

definition unsubscribe_length :: "unsubscribe \<Rightarrow> nat" where
  "unsubscribe_length u = foldl (\<lambda>len filter. len + stringSize filter) 2 (u_Filters u)"

definition unsubscribe_Encode :: "bytes \<Rightarrow> unsubscribe \<Rightarrow> codec_error + bytes" where
  "unsubscribe_Encode dst u =
     (if u_PacketID u = 0 then Inl ErrInvalidPacketID
      else if length (u_Filters u) = 0
        then Inl (newProtocolError ''UNSUBSCRIBE must contain at least one topic filter'')
      else
        let dst = dst @ [push_bit 4 UNSUBSCRIBE OR flagsFor UNSUBSCRIBE];
            dst = encodeRemainingLength dst (unsubscribe_length u);
            dst = appendUint16 dst (u_PacketID u)
        in Inr (foldl appendString dst (u_Filters u)))"

record simple =
  sm_packetType :: ptype

definition NewPingreq :: simple where "NewPingreq = \<lparr>sm_packetType = PINGREQ\<rparr>"
definition NewPingresp :: simple where "NewPingresp = \<lparr>sm_packetType = PINGRESP\<rparr>"
definition NewDisconnect :: simple where "NewDisconnect = \<lparr>sm_packetType = DISCONNECT\<rparr>"

definition simple_Encode :: "bytes \<Rightarrow> simple \<Rightarrow> codec_error + bytes" where
  "simple_Encode dst s = Inr (dst @ [push_bit 4 (sm_packetType s), 0])"

definition decodeSimple :: "ptype \<Rightarrow> bytes \<Rightarrow> codec_error + simple" where
  "decodeSimple t body =
     (if length body \<noteq> 0 then Inl (newProtocolError (ptype_String t @ '' must have an empty body''))
      else Inr \<lparr>sm_packetType = t\<rparr>)"

subsection \<open>The Packet interface\<close>

datatype packet =
    PConnect connect
  | PConnack connack
  | PPublish publish
  | PAck ack
  | PSubscribe subscribe
  | PSuback suback
  | PUnsubscribe unsubscribe
  | PSimple simple

fun packet_Type :: "packet \<Rightarrow> ptype" where
  "packet_Type (PConnect c) = CONNECT"
| "packet_Type (PConnack c) = CONNACK"
| "packet_Type (PPublish p) = PUBLISH"
| "packet_Type (PAck a) = ack_packetType a"
| "packet_Type (PSubscribe s) = SUBSCRIBE"
| "packet_Type (PSuback s) = SUBACK"
| "packet_Type (PUnsubscribe u) = UNSUBSCRIBE"
| "packet_Type (PSimple s) = sm_packetType s"

fun Encode :: "bytes \<Rightarrow> packet \<Rightarrow> codec_error + bytes" where
  "Encode dst (PConnect c) = connect_Encode dst c"
| "Encode dst (PConnack c) = connack_Encode dst c"
| "Encode dst (PPublish p) = publish_Encode dst p"
| "Encode dst (PAck a) = ack_Encode dst a"
| "Encode dst (PSubscribe s) = subscribe_Encode dst s"
| "Encode dst (PSuback s) = suback_Encode dst s"
| "Encode dst (PUnsubscribe u) = unsubscribe_Encode dst u"
| "Encode dst (PSimple s) = simple_Encode dst s"

subsection \<open>Bits of the flag bytes\<close>

lemma qos_cases: "(q :: byte) \<le> 2 \<Longrightarrow> q = 0 \<or> q = 1 \<or> q = 2"
proof -
  assume "q \<le> 2"
  then have "unat q \<le> 2" by (simp add: word_le_nat_alt)
  then have "unat q = 0 \<or> unat q = 1 \<or> unat q = 2" by linarith
  then show ?thesis by (auto simp: word_unat_eq_iff)
qed

lemma and_exp_cases: "(f :: byte) AND 2 ^ k = (if bit f k then 2 ^ k else 0)"
  by (rule bit_word_eqI) (auto simp: bit_simps)

lemma and_bit_cases:
  fixes f :: byte
  shows "f AND 0x01 = (if bit f 0 then 0x01 else 0)" "f AND 0x02 = (if bit f 1 then 0x02 else 0)"
    "f AND 0x04 = (if bit f 2 then 0x04 else 0)" "f AND 0x08 = (if bit f 3 then 0x08 else 0)"
    "f AND 0x10 = (if bit f 4 then 0x10 else 0)" "f AND 0x20 = (if bit f 5 then 0x20 else 0)"
    "f AND 0x40 = (if bit f 6 then 0x40 else 0)" "f AND 0x80 = (if bit f 7 then 0x80 else 0)"
  using and_exp_cases [of f 0] and_exp_cases [of f 1] and_exp_cases [of f 2] and_exp_cases [of f 3]
    and_exp_cases [of f 4] and_exp_cases [of f 5] and_exp_cases [of f 6] and_exp_cases [of f 7]
  by simp_all

text \<open>A byte is the disjunction of its bits.\<close>

lemma byte_bits:
  fixes f :: byte
  shows "f = (f AND 0x01) OR (f AND 0x02) OR (f AND 0x04) OR (f AND 0x08) OR (f AND 0x10)
    OR (f AND 0x20) OR (f AND 0x40) OR (f AND 0x80)"
proof -
  have "f = f AND 0xFF"
    using take_bit_length_eq [of f] by (simp add: take_bit_eq_mask mask_eq_exp_minus_1)
  also have "\<dots> = f AND (0x01 OR 0x02 OR 0x04 OR 0x08 OR 0x10 OR 0x20 OR 0x40 OR 0x80)"
    by simp
  finally show ?thesis
    by (simp only: bit.conj_disj_distrib)
qed

lemma byte_of_bits:
  fixes f :: byte
  shows "f = (if bit f 0 then 0x01 else 0) OR (if bit f 1 then 0x02 else 0)
    OR (if bit f 2 then 0x04 else 0) OR (if bit f 3 then 0x08 else 0) OR (if bit f 4 then 0x10 else 0)
    OR (if bit f 5 then 0x20 else 0) OR (if bit f 6 then 0x40 else 0) OR (if bit f 7 then 0x80 else 0)"
  by (rule byte_bits [of f, unfolded and_bit_cases])

lemma small_bits:
  fixes f :: byte
  assumes "f < 16" and "bit f n"
  shows "n < 4"
proof (rule ccontr)
  assume "\<not> n < 4"
  then have "(2 :: nat) ^ 4 \<le> 2 ^ n" by (intro power_increasing) auto
  moreover have "unat f < 16" using assms(1) by (simp add: word_less_nat_alt)
  ultimately have "unat f div 2 ^ n = 0" by simp
  moreover have "bit (unat f) n" using assms(2) by (simp add: bit_unsigned_iff)
  ultimately show False by (simp add: bit_iff_odd)
qed

lemma header_type [codec_simps]:
  "t < 16 \<Longrightarrow> f < 16 \<Longrightarrow> drop_bit 4 (push_bit 4 t OR f) = (t :: byte)"
  by (rule bit_word_eqI) (auto simp: bit_simps dest: small_bits)

lemma header_flags [codec_simps]:
  assumes "t < 16" and "f < 16"
  shows "(push_bit 4 t OR f) AND 0x0F = (f :: byte)"
proof -
  have "(push_bit 4 t OR f) AND 0x0F = take_bit 4 (push_bit 4 t OR f)"
    by (simp add: take_bit_eq_mask mask_eq_exp_minus_1)
  also have "\<dots> = f"
    using assms(2) by (intro bit_word_eqI) (auto simp: bit_simps dest: small_bits)
  finally show ?thesis .
qed

lemma header_split: "push_bit 4 (drop_bit 4 b) OR (b AND 0x0F) = (b :: byte)"
proof -
  have "b AND 0x0F = take_bit 4 b"
    by (simp add: take_bit_eq_mask mask_eq_exp_minus_1)
  then show ?thesis
    by (simp only:) (rule bit_word_eqI, auto simp: bit_simps)
qed

lemma nibble_less: "b AND 0x0F < (16 :: byte)" "drop_bit 4 b < (16 :: byte)"
proof -
  have "b AND 0x0F \<le> (15 :: byte)" by (rule word_and_le1)
  then show "b AND 0x0F < (16 :: byte)" by (simp add: word_le_nat_alt word_less_nat_alt)
  have "unat (drop_bit 4 b) = unat b div 16" by (simp only: unat_drop_bit_eq) (simp add: drop_bit_eq_div)
  then show "drop_bit 4 b < (16 :: byte)"
    using unat_byte_less [of b] by (simp add: word_less_nat_alt less_mult_imp_div_less)
qed

subsection \<open>The shape of an encoded packet\<close>

text \<open>Every \<open>Encode\<close> method writes one header byte, the length of the body, and the body.\<close>

definition connect_body :: "connect \<Rightarrow> bytes" where
  "connect_body c =
     appendString [] (c_ProtocolName c) @ [c_ProtocolLevel c, connect_flags c]
     @ appendUint16 [] (c_KeepAlive c) @ appendString [] (c_ClientID c)
     @ (case c_Will c of None \<Rightarrow> []
        | Some w \<Rightarrow> appendString [] (will_Topic w) @ appendBytes [] (will_Payload w))
     @ (if c_HasUsername c then appendString [] (c_Username c) else [])
     @ (if c_HasPassword c then appendBytes [] (c_Password c) else [])"

definition publish_body :: "publish \<Rightarrow> bytes" where
  "publish_body p =
     appendString [] (p_Topic p) @ (if p_QoS p > 0 then appendUint16 [] (p_PacketID p) else [])
     @ p_Payload p"

definition subscribe_body :: "subscribe \<Rightarrow> bytes" where
  "subscribe_body s =
     appendUint16 [] (s_PacketID s)
     @ concat (map (\<lambda>sub. appendString [] (ts_Filter sub) @ [ts_QoS sub]) (s_Subscriptions s))"

definition unsubscribe_body :: "unsubscribe \<Rightarrow> bytes" where
  "unsubscribe_body u = appendUint16 [] (u_PacketID u) @ concat (map (appendString []) (u_Filters u))"

definition packet_bytes :: "byte \<Rightarrow> bytes \<Rightarrow> bytes" where
  "packet_bytes header body = header # encodeRemainingLength [] (length body) @ body"

lemma fields_nonempty [simp]:
  "encodeRemainingLength [] n \<noteq> []" "appendString [] s \<noteq> []" "appendUint16 [] v \<noteq> []"
  "appendBytes [] b \<noteq> []"
  by (cases "n < 128"; simp add: encode_varint_small encode_varint_big)
    (simp_all add: appendString_def appendUint16_def appendBytes_def)

lemma append_fields_cond:
  "dst \<noteq> [] \<Longrightarrow> encodeRemainingLength dst n = dst @ encodeRemainingLength [] n"
  "dst \<noteq> [] \<Longrightarrow> appendString dst s = dst @ appendString [] s"
  "dst \<noteq> [] \<Longrightarrow> appendUint16 dst v = dst @ appendUint16 [] v"
  "dst \<noteq> [] \<Longrightarrow> appendBytes dst b = dst @ appendBytes [] b"
  by (rule append_fields)+

lemma foldl_append_concat:
  assumes "\<And>dst x. f dst x = dst @ g x"
  shows "foldl f dst xs = dst @ concat (map g xs)"
  by (induction xs arbitrary: dst) (simp_all add: assms)

lemma foldl_sum_list:
  assumes "\<And>n x. f n x = n + g x"
  shows "foldl f (n :: nat) xs = n + sum_list (map g xs)"
  by (induction xs arbitrary: n) (simp_all add: assms)

lemma length_connect_body: "length (connect_body c) = connect_length c"
  by (simp add: connect_body_def connect_length_def codec_simps split: option.split)

lemma length_publish_body: "length (publish_body p) = publish_length p"
  by (simp add: publish_body_def publish_length_def codec_simps)

lemma length_subscribe_body: "length (subscribe_body s) = subscribe_length s"
  unfolding subscribe_body_def subscribe_length_def
  by (subst foldl_sum_list [where g = "\<lambda>sub. stringSize (ts_Filter sub) + 1"])
    (simp_all add: codec_simps length_concat comp_def)

lemma length_unsubscribe_body: "length (unsubscribe_body u) = unsubscribe_length u"
  unfolding unsubscribe_body_def unsubscribe_length_def
  by (subst foldl_sum_list [where g = stringSize]) (simp_all add: codec_simps length_concat comp_def)

lemma connect_Encode_shape:
  "connect_Encode dst c = Inr (dst @ packet_bytes (push_bit 4 CONNECT) (connect_body c))"
  unfolding connect_Encode_def packet_bytes_def length_connect_body
  by (simp add: Let_def append_fields_cond connect_body_def split: option.split)

lemma publish_Encode_shape:
  assumes "p_QoS p \<le> 2" and "p_QoS p = 0 \<or> p_PacketID p \<noteq> 0"
  shows "publish_Encode dst p
    = Inr (dst @ packet_bytes (push_bit 4 PUBLISH OR publish_flags p) (publish_body p))"
proof -
  have "\<not> 2 < p_QoS p" and "\<not> (0 < p_QoS p \<and> p_PacketID p = 0)"
    using assms by auto
  then show ?thesis
    unfolding publish_Encode_def packet_bytes_def length_publish_body
    by (simp only: if_False) (simp add: Let_def append_fields_cond publish_body_def)
qed

lemma subscribe_Encode_shape:
  assumes "s_PacketID s \<noteq> 0" and "s_Subscriptions s \<noteq> []"
  shows "subscribe_Encode dst s
    = Inr (dst @ packet_bytes (push_bit 4 SUBSCRIBE OR flagsFor SUBSCRIBE) (subscribe_body s))"
proof -
  have "foldl (\<lambda>dst sub. appendString dst (ts_Filter sub) @ [ts_QoS sub]) d subs
      = d @ concat (map (\<lambda>sub. appendString [] (ts_Filter sub) @ [ts_QoS sub]) subs)"
    for d and subs :: "topicSubscription list"
    by (rule foldl_append_concat) (subst appendString_append, simp)
  then show ?thesis
    using assms unfolding subscribe_Encode_def packet_bytes_def length_subscribe_body
    by (simp add: Let_def append_fields_cond subscribe_body_def)
qed

lemma unsubscribe_Encode_shape:
  assumes "u_PacketID u \<noteq> 0" and "u_Filters u \<noteq> []"
  shows "unsubscribe_Encode dst u
    = Inr (dst @ packet_bytes (push_bit 4 UNSUBSCRIBE OR flagsFor UNSUBSCRIBE) (unsubscribe_body u))"
  using assms foldl_append_concat [of appendString "appendString []", OF appendString_append]
  unfolding unsubscribe_Encode_def packet_bytes_def length_unsubscribe_body
  by (simp add: Let_def append_fields_cond unsubscribe_body_def)

lemma suback_Encode_shape:
  "sa_PacketID s \<noteq> 0 \<Longrightarrow> suback_Encode dst s
    = Inr (dst @ packet_bytes (push_bit 4 SUBACK) (appendUint16 [] (sa_PacketID s) @ sa_ReturnCodes s))"
  by (simp add: suback_Encode_def packet_bytes_def Let_def append_fields_cond codec_simps)

lemma ack_Encode_shape:
  "ack_PacketID a \<noteq> 0 \<Longrightarrow> ack_Encode dst a
    = Inr (dst @ packet_bytes (push_bit 4 (ack_packetType a) OR flagsFor (ack_packetType a))
        (appendUint16 [] (ack_PacketID a)))"
  by (simp add: ack_Encode_def packet_bytes_def append_fields_cond codec_simps encode_varint_small)

lemma connack_Encode_shape:
  "connack_Encode dst c = Inr (dst @ packet_bytes (push_bit 4 CONNACK)
     [if ca_SessionPresent c \<and> ca_ReturnCode c = ConnectAccepted then 0x01 else 0, ca_ReturnCode c])"
  by (simp add: connack_Encode_def packet_bytes_def encode_varint_small)

lemma simple_Encode_shape:
  "simple_Encode dst s = Inr (dst @ packet_bytes (push_bit 4 (sm_packetType s)) [])"
  by (simp add: simple_Encode_def packet_bytes_def encode_varint_small)

subsection \<open>Well-formed packets\<close>

definition wire_string :: "string \<Rightarrow> bool" where
  "wire_string s = (length s < 65536 \<and> validUTF8 (bytes_of s))"

definition wf_will :: "will \<Rightarrow> bool" where
  "wf_will w = (wire_string (will_Topic w) \<and> length (will_Payload w) < 65536 \<and> will_QoS w \<le> 2)"

definition wf_connect :: "connect \<Rightarrow> bool" where
  "wf_connect c =
     (c_ProtocolName c = ProtocolName \<and> wire_string (c_ClientID c)
      \<and> (case c_Will c of None \<Rightarrow> True | Some w \<Rightarrow> wf_will w)
      \<and> (if c_HasUsername c then wire_string (c_Username c) else c_Username c = '''')
      \<and> (if c_HasPassword c then c_HasUsername c \<and> length (c_Password c) < 65536 else c_Password c = []))"

definition wf_publish :: "publish \<Rightarrow> bool" where
  "wf_publish p =
     (p_QoS p \<le> 2 \<and> wire_string (p_Topic p) \<and> \<not> containsWildcard (p_Topic p)
      \<and> (if p_QoS p = 0 then p_PacketID p = 0 \<and> \<not> p_DUP p else p_PacketID p \<noteq> 0))"

definition wf_ack :: "ack \<Rightarrow> bool" where
  "wf_ack a = (ack_packetType a \<in> {PUBACK, PUBREC, PUBREL, PUBCOMP, UNSUBACK} \<and> ack_PacketID a \<noteq> 0)"

definition wf_subscribe :: "subscribe \<Rightarrow> bool" where
  "wf_subscribe s =
     (s_PacketID s \<noteq> 0 \<and> s_Subscriptions s \<noteq> []
      \<and> (\<forall>sub \<in> set (s_Subscriptions s). wire_string (ts_Filter sub) \<and> ts_QoS sub \<le> 2))"

definition wf_suback :: "suback \<Rightarrow> bool" where
  "wf_suback s = (sa_PacketID s \<noteq> 0 \<and> sa_ReturnCodes s \<noteq> [] \<and> \<not> badReturnCode (sa_ReturnCodes s))"

definition wf_unsubscribe :: "unsubscribe \<Rightarrow> bool" where
  "wf_unsubscribe u = (u_PacketID u \<noteq> 0 \<and> u_Filters u \<noteq> [] \<and> (\<forall>f \<in> set (u_Filters u). wire_string f))"

definition wf_simple :: "simple \<Rightarrow> bool" where
  "wf_simple s = (sm_packetType s \<in> {PINGREQ, PINGRESP, DISCONNECT})"

subsection \<open>Body decoders invert the encoders\<close>

lemma connect_flags_bits:
  assumes "\<forall>w. c_Will c = Some w \<longrightarrow> will_QoS w \<le> 2"
  shows "connect_flags c AND flagReserved = 0
    \<and> (connect_flags c AND flagCleanSession = 0) = (\<not> c_CleanSession c)
    \<and> (connect_flags c AND flagWill = 0) = (c_Will c = None)
    \<and> drop_bit 3 (connect_flags c AND flagWillQoSMask)
      = (case c_Will c of None \<Rightarrow> 0 | Some w \<Rightarrow> will_QoS w)
    \<and> (connect_flags c AND flagWillRetain = 0)
      = (case c_Will c of None \<Rightarrow> True | Some w \<Rightarrow> \<not> will_Retain w)
    \<and> (connect_flags c AND flagPassword = 0) = (\<not> c_HasPassword c)
    \<and> (connect_flags c AND flagUsername = 0) = (\<not> c_HasUsername c)"
proof -
  consider "c_Will c = None"
    | w where "c_Will c = Some w" "will_QoS w = 0"
    | w where "c_Will c = Some w" "will_QoS w = 1"
    | w where "c_Will c = Some w" "will_QoS w = 2"
    using assms qos_cases by (cases "c_Will c") auto
  then show ?thesis
    by cases (simp_all add: connect_flags_def Let_def)
qed

lemma decodeConnect_body:
  assumes "wf_connect c"
  shows "decodeConnect (connect_body c) = Inr c"
proof -
  have q: "\<forall>w. c_Will c = Some w \<longrightarrow> will_QoS w \<le> 2"
    using assms by (auto simp: wf_connect_def wf_will_def)
  have name: "wire_string (c_ProtocolName c)"
    using assms by (simp add: wf_connect_def wire_string_def ProtocolName_def bytes_of_def
        validUTF8_def utf8_Valid.simps runes.simps IsSurrogate_def)
  show ?thesis
    using assms name connect_flags_bits [OF q]
    by (cases "c_Will c"; cases "c_HasUsername c"; cases "c_HasPassword c")
      (simp_all add: decodeConnect_def connect_body_def wf_connect_def wf_will_def wire_string_def
        codec_simps Let_def not_less)
qed

lemma publish_flags_bits:
  assumes "p_QoS p \<le> 2"
  shows "publish_flags p < 16
    \<and> (publish_flags p AND 0x08 = 0) = (\<not> p_DUP p)
    \<and> drop_bit 1 (publish_flags p) AND 0x03 = p_QoS p
    \<and> (publish_flags p AND 0x01 = 0) = (\<not> p_Retain p)"
proof -
  consider "p_QoS p = 0" | "p_QoS p = 1" | "p_QoS p = 2"
    using assms qos_cases by auto
  then show ?thesis
    by cases (simp_all add: publish_flags_def Let_def)
qed

lemma decodePublish_body:
  assumes "wf_publish p"
  shows "decodePublish (publish_flags p) (publish_body p) = Inr p"
proof -
  have "p_QoS p \<le> 2" using assms by (simp add: wf_publish_def)
  then show ?thesis
    using assms publish_flags_bits [of p]
    by (cases "p_QoS p = 0")
      (simp_all add: decodePublish_def publish_body_def wf_publish_def wire_string_def codec_simps
        Let_def word_neq_0_conv)
qed

lemma decodeAck_body:
  "ack_PacketID a \<noteq> 0 \<Longrightarrow> decodeAck (ack_packetType a) (appendUint16 [] (ack_PacketID a)) = Inr a"
  by (simp add: decodeAck_def appendUint16_def codec_simps Let_def)

lemma decodeConnack_body:
  "(ca_SessionPresent c \<longrightarrow> ca_ReturnCode c = ConnectAccepted) \<Longrightarrow>
   decodeConnack [if ca_SessionPresent c \<and> ca_ReturnCode c = ConnectAccepted then 0x01 else 0,
     ca_ReturnCode c] = Inr c"
  by (cases "ca_SessionPresent c") (simp_all add: decodeConnack_def)

lemma decodeSimple_body: "decodeSimple (sm_packetType s) [] = Inr s"
  by (simp add: decodeSimple_def)

lemma decodeSuback_body:
  "wf_suback s \<Longrightarrow> decodeSuback (appendUint16 [] (sa_PacketID s) @ sa_ReturnCodes s) = Inr s"
  by (cases "sa_ReturnCodes s")
    (simp_all add: wf_suback_def decodeSuback_def appendUint16_def codec_simps Let_def)

lemma subscribeLoop_body:
  "\<forall>sub \<in> set subs. wire_string (ts_Filter sub) \<and> ts_QoS sub \<le> 2 \<Longrightarrow>
   subscribeLoop (rdr pre (concat (map (\<lambda>sub. appendString [] (ts_Filter sub) @ [ts_QoS sub]) subs))) acc
     = Inr (acc @ subs)"
proof (induction subs arbitrary: pre acc)
  case Nil
  then show ?case by (simp add: subscribeLoop.simps codec_simps)
next
  case (Cons sub subs)
  then have "\<not> 2 < ts_QoS sub" and "wire_string (ts_Filter sub)" by auto
  moreover have "\<lparr>ts_Filter = ts_Filter sub, ts_QoS = ts_QoS sub\<rparr> = sub" by simp
  ultimately show ?case
    using Cons by (subst subscribeLoop.simps) (simp add: codec_simps wire_string_def)
qed

lemma decodeSubscribe_body: "wf_subscribe s \<Longrightarrow> decodeSubscribe (subscribe_body s) = Inr s"
  by (simp add: wf_subscribe_def decodeSubscribe_def subscribe_body_def codec_simps subscribeLoop_body)

lemma unsubscribeLoop_body:
  "\<forall>f \<in> set fs. wire_string f \<Longrightarrow>
   unsubscribeLoop (rdr pre (concat (map (appendString []) fs))) acc = Inr (acc @ fs)"
proof (induction fs arbitrary: pre acc)
  case Nil
  then show ?case by (simp add: unsubscribeLoop.simps codec_simps)
next
  case (Cons f fs)
  then show ?case
    by (subst unsubscribeLoop.simps) (simp add: codec_simps wire_string_def)
qed

lemma decodeUnsubscribe_body: "wf_unsubscribe u \<Longrightarrow> decodeUnsubscribe (unsubscribe_body u) = Inr u"
  by (simp add: wf_unsubscribe_def decodeUnsubscribe_def unsubscribe_body_def codec_simps unsubscribeLoop_body)

subsection \<open>What the body decoders accept\<close>

text \<open>
  Each decoder accepts only well-formed packets, and only the bytes that the encoder
  writes for them.
\<close>

lemma decodeSubscribeLoop_sound:
  "subscribeLoop (rdr pre xs) acc = Inr subs \<Longrightarrow>
   \<exists>new. subs = acc @ new \<and> xs = concat (map (\<lambda>sub. appendString [] (ts_Filter sub) @ [ts_QoS sub]) new)
     \<and> (\<forall>sub \<in> set new. wire_string (ts_Filter sub) \<and> ts_QoS sub \<le> 2)"
proof (induction "length xs" arbitrary: pre xs acc rule: less_induct)
  case less
  show ?case
  proof (cases "xs = []")
    case True
    with less.prems show ?thesis by (simp add: subscribeLoop.simps codec_simps)
  next
    case False
    with less.prems obtain f q r1 r2 where
      f: "stringValue (rdr pre xs) = Inr (f, r1)" and q: "byteValue r1 = Inr (q, r2)" "q \<le> 2"
      and rec: "subscribeLoop r2 (acc @ [\<lparr>ts_Filter = f, ts_QoS = q\<rparr>]) = Inr subs"
      by (subst (asm) subscribeLoop.simps)
        (auto simp: codec_simps andThen_Inr_iff not_less split: if_splits)
    from f obtain bs where bs: "xs = appendString [] f @ bs" "r1 = rdr (pre @ appendString [] f) bs"
      "wire_string f"
      by (auto simp: wire_string_def elim: stringValue_InrE)
    from q(1) bs(2) obtain cs where cs: "bs = q # cs" "r2 = rdr ((pre @ appendString [] f) @ [q]) cs"
      by (auto elim: byteValue_InrE)
    have "length cs < length xs" using bs cs by simp
    from less.hyps [OF this rec [unfolded cs(2)]] obtain new where
      "subs = (acc @ [\<lparr>ts_Filter = f, ts_QoS = q\<rparr>]) @ new"
      "cs = concat (map (\<lambda>sub. appendString [] (ts_Filter sub) @ [ts_QoS sub]) new)"
      "\<forall>sub \<in> set new. wire_string (ts_Filter sub) \<and> ts_QoS sub \<le> 2"
      by auto
    with bs cs q(2) show ?thesis
      by (intro exI [of _ "\<lparr>ts_Filter = f, ts_QoS = q\<rparr> # new"]) simp
  qed
qed

lemma decodeSubscribe_sound:
  assumes "decodeSubscribe body = Inr s"
  shows "wf_subscribe s \<and> body = subscribe_body s"
proof -
  from assms obtain pid r subs where
    pid: "uint16Value (rdr [] body) = Inr (pid, r)" "pid \<noteq> 0"
    and loop: "subscribeLoop r [] = Inr subs" "subs \<noteq> []"
    and s: "s = \<lparr>s_PacketID = pid, s_Subscriptions = subs\<rparr>"
    by (auto simp: decodeSubscribe_def codec_simps andThen_Inr_iff split: if_splits)
  from pid(1) obtain bs where bs: "body = appendUint16 [] pid @ bs" "r = rdr (appendUint16 [] pid) bs"
    by (auto elim: uint16Value_InrE)
  from decodeSubscribeLoop_sound [OF loop(1) [unfolded bs(2)]] loop(2) pid(2) s bs(1)
  show ?thesis by (simp add: wf_subscribe_def subscribe_body_def)
qed

lemma decodeUnsubscribeLoop_sound:
  "unsubscribeLoop (rdr pre xs) acc = Inr fs \<Longrightarrow>
   \<exists>new. fs = acc @ new \<and> xs = concat (map (appendString []) new) \<and> (\<forall>f \<in> set new. wire_string f)"
proof (induction "length xs" arbitrary: pre xs acc rule: less_induct)
  case less
  show ?case
  proof (cases "xs = []")
    case True
    with less.prems show ?thesis by (simp add: unsubscribeLoop.simps codec_simps)
  next
    case False
    with less.prems obtain f r1 where
      f: "stringValue (rdr pre xs) = Inr (f, r1)" and rec: "unsubscribeLoop r1 (acc @ [f]) = Inr fs"
      by (subst (asm) unsubscribeLoop.simps) (auto simp: codec_simps andThen_Inr_iff split: if_splits)
    from f obtain bs where bs: "xs = appendString [] f @ bs" "r1 = rdr (pre @ appendString [] f) bs"
      "wire_string f"
      by (auto simp: wire_string_def elim: stringValue_InrE)
    have "length bs < length xs" using bs by (simp add: codec_simps stringSize_def)
    from less.hyps [OF this rec [unfolded bs(2)]] obtain new where
      "fs = (acc @ [f]) @ new" "bs = concat (map (appendString []) new)" "\<forall>f \<in> set new. wire_string f"
      by auto
    with bs show ?thesis by (intro exI [of _ "f # new"]) simp
  qed
qed

lemma decodeUnsubscribe_sound:
  assumes "decodeUnsubscribe body = Inr u"
  shows "wf_unsubscribe u \<and> body = unsubscribe_body u"
proof -
  from assms obtain pid r fs where
    pid: "uint16Value (rdr [] body) = Inr (pid, r)" "pid \<noteq> 0"
    and loop: "unsubscribeLoop r [] = Inr fs" "fs \<noteq> []"
    and u: "u = \<lparr>u_PacketID = pid, u_Filters = fs\<rparr>"
    by (auto simp: decodeUnsubscribe_def codec_simps andThen_Inr_iff split: if_splits)
  from pid(1) obtain bs where bs: "body = appendUint16 [] pid @ bs" "r = rdr (appendUint16 [] pid) bs"
    by (auto elim: uint16Value_InrE)
  from decodeUnsubscribeLoop_sound [OF loop(1) [unfolded bs(2)]] loop(2) pid(2) u bs(1)
  show ?thesis by (simp add: wf_unsubscribe_def unsubscribe_body_def)
qed

lemma two_bytes: "length body = 2 \<Longrightarrow> body = appendUint16 [] (be16 (body ! 0) (body ! 1))"
  by (cases body; cases "tl body") (auto simp: appendUint16_def codec_simps)

lemma decodeAck_sound:
  "decodeAck t body = Inr a \<Longrightarrow>
     ack_packetType a = t \<and> ack_PacketID a \<noteq> 0 \<and> body = appendUint16 [] (ack_PacketID a)"
  using two_bytes [of body] by (auto simp: decodeAck_def Let_def split: if_splits)

lemma decodeSimple_sound: "decodeSimple t body = Inr s \<Longrightarrow> sm_packetType s = t \<and> body = []"
  by (auto simp: decodeSimple_def split: if_splits)

lemma decodeSuback_sound:
  assumes "decodeSuback body = Inr s"
  shows "wf_suback s \<and> body = appendUint16 [] (sa_PacketID s) @ sa_ReturnCodes s"
proof -
  from assms have len: "3 \<le> length body" by (auto simp: decodeSuback_def split: if_splits)
  then obtain a b c cs where body: "body = a # b # c # cs"
    by (metis Suc_le_length_iff numeral_3_eq_3)
  show ?thesis
    using assms by (auto simp: body decodeSuback_def wf_suback_def appendUint16_def codec_simps
        Let_def split: if_splits)
qed

lemma nibble_cases:
  fixes f :: byte
  assumes "f < 16"
  shows "f = 0 \<or> f = 1 \<or> f = 2 \<or> f = 3 \<or> f = 4 \<or> f = 5 \<or> f = 6 \<or> f = 7
    \<or> f = 8 \<or> f = 9 \<or> f = 10 \<or> f = 11 \<or> f = 12 \<or> f = 13 \<or> f = 14 \<or> f = 15"
proof -
  have "unat f < 16" using assms by (simp add: word_less_nat_alt)
  then have "unat f = 0 \<or> unat f = 1 \<or> unat f = 2 \<or> unat f = 3 \<or> unat f = 4 \<or> unat f = 5
    \<or> unat f = 6 \<or> unat f = 7 \<or> unat f = 8 \<or> unat f = 9 \<or> unat f = 10 \<or> unat f = 11
    \<or> unat f = 12 \<or> unat f = 13 \<or> unat f = 14 \<or> unat f = 15"
    by presburger
  then show ?thesis by (simp add: word_unat_eq_iff)
qed

lemma publish_flags_decoded:
  assumes "f < 16" and "validateFlags PUBLISH f = None"
    and "p_DUP p = (f AND 0x08 \<noteq> 0)" and "p_QoS p = drop_bit 1 f AND 0x03"
    and "p_Retain p = (f AND 0x01 \<noteq> 0)"
  shows "publish_flags p = f \<and> p_QoS p \<le> 2 \<and> (p_QoS p = 0 \<longrightarrow> \<not> p_DUP p)"
  using nibble_cases [OF assms(1)] assms(2-)
  by (elim disjE) (simp_all add: publish_flags_def validateFlags_def Let_def)

lemma decodePublish_sound:
  assumes "decodePublish f body = Inr p" and "f < 16" and "validateFlags PUBLISH f = None"
  shows "wf_publish p \<and> publish_flags p = f \<and> body = publish_body p"
proof -
  let ?q = "drop_bit 1 f AND 0x03"
  from assms(1) obtain topic r where
    topic: "stringValue (rdr [] body) = Inr (topic, r)" "\<not> containsWildcard topic"
    and tail: "(if ?q > 0 then \<exists>r'. uint16Value r = Inr (p_PacketID p, r') \<and> p_PacketID p \<noteq> 0
           \<and> p_Payload p = fst (rest r')
         else p_PacketID p = 0 \<and> p_Payload p = fst (rest r))"
    and p: "p_DUP p = (f AND 0x08 \<noteq> 0)" "p_QoS p = ?q" "p_Retain p = (f AND 0x01 \<noteq> 0)"
      "p_Topic p = topic"
    by (auto simp: decodePublish_def Let_def codec_simps andThen_Inr_iff split: if_splits)
  note flags = publish_flags_decoded [OF assms(2,3) p(1-3)]
  from topic(1) obtain bs where bs: "body = appendString [] topic @ bs" "r = rdr (appendString [] topic) bs"
    "wire_string topic"
    by (auto simp: wire_string_def elim: stringValue_InrE)
  show ?thesis
  proof (cases "?q > 0")
    case True
    with tail obtain r' where r': "uint16Value r = Inr (p_PacketID p, r')" "p_PacketID p \<noteq> 0"
      "p_Payload p = fst (rest r')" by auto
    from r'(1) bs(2) obtain cs where cs: "bs = appendUint16 [] (p_PacketID p) @ cs"
      "r' = rdr (appendString [] topic @ appendUint16 [] (p_PacketID p)) cs"
      by (auto elim: uint16Value_InrE)
    from True have "?q \<noteq> 0" by simp
    with True flags bs cs r' p topic show ?thesis
      by (simp add: wf_publish_def publish_body_def codec_simps)
  next
    case False
    then have "?q = 0" using word_gt_0 by metis
    with tail flags bs p topic show ?thesis
      by (simp add: wf_publish_def publish_body_def codec_simps)
  qed
qed

lemma decodeConnack_sound:
  assumes "decodeConnack body = Inr c"
  shows "body = [if ca_SessionPresent c then 0x01 else 0, ca_ReturnCode c]"
proof -
  from assms obtain a b where body: "body = [a, b]"
    by (cases body; cases "tl body"; cases "tl (tl body)")
      (auto simp: decodeConnack_def split: if_splits)
  with assms have z: "a AND 0xFE = 0" and c: "c = \<lparr>ca_SessionPresent = (a AND 0x01 \<noteq> 0), ca_ReturnCode = b\<rparr>"
    by (auto simp: decodeConnack_def split: if_splits)
  have "a = a AND (0xFE OR 0x01)"
    using take_bit_length_eq [of a] by (simp add: take_bit_eq_mask mask_eq_exp_minus_1)
  also have "\<dots> = a AND 0x01" using z by (simp only: bit.conj_disj_distrib) simp
  finally have "a = a AND 0x01" .
  moreover have "a AND 0x01 = 0 \<or> a AND 0x01 = 0x01" by (simp add: and_bit_cases)
  ultimately have "a = (if a AND 0x01 \<noteq> 0 then 0x01 else 0)" by metis
  with body c show ?thesis by simp
qed

text \<open>The flags byte that \<open>Encode\<close> writes is the one \<open>decodeConnect\<close> read.\<close>

lemma will_qos_bits: "push_bit 3 (drop_bit 3 (f AND 0x18)) AND 0x18 = (f AND 0x08) OR (f AND 0x10 :: byte)"
proof -
  have "push_bit 3 (drop_bit 3 (f AND 0x18)) AND 0x18 = f AND (0x18 :: byte)"
  proof (rule bit_word_eqI)
    fix n assume "n < LENGTH(8)"
    have "bit (0x18 :: byte) n \<Longrightarrow> 3 \<le> n"
      by (rule ccontr) (auto simp: not_le less_Suc_eq numeral_3_eq_3)
    then show "bit (push_bit 3 (drop_bit 3 (f AND 0x18)) AND 0x18) n = bit (f AND 0x18 :: byte) n"
      by (auto simp: bit_simps)
  qed
  also have "\<dots> = f AND (0x08 OR 0x10)" by simp
  finally show ?thesis by (simp only: bit.conj_disj_distrib)
qed

lemma connect_flags_decoded:
  assumes "f AND flagReserved = 0"
    and "c_CleanSession c = (f AND flagCleanSession \<noteq> 0)"
    and "c_HasUsername c = (f AND flagUsername \<noteq> 0)" and "c_HasPassword c = (f AND flagPassword \<noteq> 0)"
    and "case c_Will c of
        None \<Rightarrow> f AND flagWill = 0 \<and> drop_bit 3 (f AND flagWillQoSMask) = 0 \<and> f AND flagWillRetain = 0
      | Some w \<Rightarrow> f AND flagWill \<noteq> 0 \<and> will_QoS w = drop_bit 3 (f AND flagWillQoSMask)
          \<and> will_Retain w = (f AND flagWillRetain \<noteq> 0)"
  shows "connect_flags c = f"
proof -
  have f: "0 OR (f AND 0x02) OR (f AND 0x04) OR ((f AND 0x08) OR (f AND 0x10)) OR (f AND 0x20)
      OR (f AND 0x80) OR (f AND 0x40) = f"
    using byte_bits [of f] assms(1) by (simp add: or.assoc or.commute or.left_commute)
  have ifs: "(if f AND 0x02 \<noteq> 0 then x OR 0x02 else x) = x OR (f AND 0x02)"
    "(if f AND 0x20 \<noteq> 0 then x OR 0x20 else x) = x OR (f AND 0x20)"
    "(if f AND 0x80 \<noteq> 0 then x OR 0x80 else x) = x OR (f AND 0x80)"
    "(if f AND 0x40 \<noteq> 0 then x OR 0x40 else x) = x OR (f AND 0x40)" for x
    by (simp_all add: and_bit_cases)
  show ?thesis
  proof (cases "c_Will c")
    case None
    with assms(5) have z: "f AND 0x04 = 0" "(f AND 0x08) OR (f AND 0x10) = 0" "f AND 0x20 = 0"
      using will_qos_bits [of f] by simp_all
    show ?thesis
      unfolding connect_flags_def Let_def assms(2-4) None option.case ifs
      using f unfolding z or.left_neutral or.right_neutral by (simp add: or.assoc)
  next
    case (Some w)
    with assms(5) have w: "f AND 0x04 \<noteq> 0" "will_QoS w = drop_bit 3 (f AND flagWillQoSMask)"
      "will_Retain w = (f AND flagWillRetain \<noteq> 0)" by simp_all
    from w(1) have four: "f AND 0x04 = 0x04" by (simp add: and_bit_cases split: if_split_asm)
    show ?thesis
      unfolding connect_flags_def Let_def assms(2-4) Some option.case w(2,3) will_qos_bits ifs
      using f unfolding four by (simp add: or.assoc)
  qed
qed

text \<open>What the optional fields after the client identifier looked like to the decoder.\<close>

definition connect_tail :: "byte \<Rightarrow> reader \<Rightarrow> connect \<Rightarrow> bool" where
  "connect_tail f r4 c \<longleftrightarrow> (\<exists>r5 r6 r7.
     (case c_Will c of
        None \<Rightarrow> r5 = r4 \<and> f AND flagWill = 0 \<and> drop_bit 3 (f AND flagWillQoSMask) = 0
          \<and> f AND flagWillRetain = 0
      | Some w \<Rightarrow> f AND flagWill \<noteq> 0 \<and> will_QoS w \<le> 2 \<and> will_QoS w = drop_bit 3 (f AND flagWillQoSMask)
          \<and> will_Retain w = (f AND flagWillRetain \<noteq> 0)
          \<and> (\<exists>r. stringValue r4 = Inr (will_Topic w, r) \<and> bytesValue r = Inr (will_Payload w, r5)))
     \<and> (if c_HasUsername c then stringValue r5 = Inr (c_Username c, r6) else c_Username c = '''' \<and> r6 = r5)
     \<and> (if c_HasPassword c then c_HasUsername c \<and> bytesValue r6 = Inr (c_Password c, r7)
        else c_Password c = [] \<and> r7 = r6)
     \<and> reader_done r7)"

lemma decodeConnect_InrD:
  assumes "decodeConnect body = Inr c"
  shows "\<exists>r0 r1 f r2 r3 r4.
     stringValue (rdr [] body) = Inr (ProtocolName, r0)
     \<and> byteValue r0 = Inr (c_ProtocolLevel c, r1) \<and> byteValue r1 = Inr (f, r2) \<and> f AND flagReserved = 0
     \<and> uint16Value r2 = Inr (c_KeepAlive c, r3) \<and> stringValue r3 = Inr (c_ClientID c, r4)
     \<and> c_ProtocolName c = ProtocolName \<and> c_CleanSession c = (f AND flagCleanSession \<noteq> 0)
     \<and> c_HasUsername c = (f AND flagUsername \<noteq> 0) \<and> c_HasPassword c = (f AND flagPassword \<noteq> 0)
     \<and> connect_tail f r4 c"
proof -
  obtain r0 where 0: "stringValue (rdr [] body) = Inr (ProtocolName, r0)"
    using assms unfolding decodeConnect_def newReader_rdr
    by (elim andThen_InrE) (auto split: if_splits)
  note d1 = assms [unfolded decodeConnect_def newReader_rdr 0 andThen_simps prod.case not_True_eq_False
      simp_thms if_False]
  obtain level r1 where 1: "byteValue r0 = Inr (level, r1)"
    using d1 by (elim andThen_InrE) auto
  note d2 = d1 [unfolded 1 andThen_simps prod.case]
  obtain f r2 where 2: "byteValue r1 = Inr (f, r2)"
    using d2 by (elim andThen_InrE) auto
  note d3 = d2 [unfolded 2 andThen_simps prod.case]
  then have 3: "f AND flagReserved = 0" by (rule contrapos_pp) simp
  note d4 = d3 [unfolded 3 simp_thms if_False]
  obtain ka r3 where 4: "uint16Value r2 = Inr (ka, r3)"
    using d4 by (elim andThen_InrE) auto
  note d5 = d4 [unfolded 4 andThen_simps prod.case]
  obtain cid r4 where 5: "stringValue r3 = Inr (cid, r4)"
    using d5 by (elim andThen_InrE) auto
  note d6 = d5 [unfolded 5 andThen_simps prod.case Let_def]
  have "connect_tail f r4 c \<and> c_ProtocolName c = ProtocolName \<and> c_ProtocolLevel c = level
      \<and> c_KeepAlive c = ka \<and> c_ClientID c = cid \<and> c_CleanSession c = (f AND flagCleanSession \<noteq> 0)
      \<and> c_HasUsername c = (f AND flagUsername \<noteq> 0) \<and> c_HasPassword c = (f AND flagPassword \<noteq> 0)"
    using d6 unfolding connect_tail_def
    by (cases "f AND flagWill = 0"; cases "f AND flagUsername = 0"; cases "f AND flagPassword = 0")
      (auto simp: not_less elim!: andThen_InrE split: if_splits)
  with 0 1 2 3 4 5 show ?thesis by blast
qed

lemma connect_tail_bytes:
  assumes "connect_tail f (rdr pre xs) c"
  shows "xs = (case c_Will c of None \<Rightarrow> []
          | Some w \<Rightarrow> appendString [] (will_Topic w) @ appendBytes [] (will_Payload w))
        @ (if c_HasUsername c then appendString [] (c_Username c) else [])
        @ (if c_HasPassword c then appendBytes [] (c_Password c) else [])
    \<and> (case c_Will c of None \<Rightarrow> True | Some w \<Rightarrow> wf_will w)
    \<and> (if c_HasUsername c then wire_string (c_Username c) else c_Username c = '''')
    \<and> (if c_HasPassword c then c_HasUsername c \<and> length (c_Password c) < 65536 else c_Password c = [])"
  using assms unfolding connect_tail_def wf_will_def wire_string_def
  by (cases "c_Will c"; cases "c_HasUsername c"; cases "c_HasPassword c")
    (auto simp: reader_done_rdr elim!: stringValue_InrE bytesValue_InrE)

lemma decodeConnect_sound:
  assumes "decodeConnect body = Inr c"
  shows "wf_connect c \<and> body = connect_body c"
proof -
  from decodeConnect_InrD [OF assms] obtain r0 r1 f r2 r3 r4 where
    0: "stringValue (rdr [] body) = Inr (ProtocolName, r0)"
    and 1: "byteValue r0 = Inr (c_ProtocolLevel c, r1)" and 2: "byteValue r1 = Inr (f, r2)"
    and 3: "uint16Value r2 = Inr (c_KeepAlive c, r3)" and 4: "stringValue r3 = Inr (c_ClientID c, r4)"
    and res: "f AND flagReserved = 0" and name: "c_ProtocolName c = ProtocolName"
    and flags: "c_CleanSession c = (f AND flagCleanSession \<noteq> 0)"
      "c_HasUsername c = (f AND flagUsername \<noteq> 0)" "c_HasPassword c = (f AND flagPassword \<noteq> 0)"
    and tail: "connect_tail f r4 c"
    by blast
  from 0 obtain b0 where b0: "body = appendString [] ProtocolName @ b0"
    "r0 = rdr (appendString [] ProtocolName) b0" by (auto elim: stringValue_InrE)
  from 1 [unfolded b0(2)] obtain p1 b1 where b1: "b0 = c_ProtocolLevel c # b1" "r1 = rdr p1 b1"
    by (auto elim: byteValue_InrE)
  from 2 [unfolded b1(2)] obtain p2 b2 where b2: "b1 = f # b2" "r2 = rdr p2 b2"
    by (auto elim: byteValue_InrE)
  from 3 [unfolded b2(2)] obtain p3 b3 where b3: "b2 = appendUint16 [] (c_KeepAlive c) @ b3" "r3 = rdr p3 b3"
    by (auto elim: uint16Value_InrE)
  from 4 [unfolded b3(2)] obtain p4 b4 where b4: "b3 = appendString [] (c_ClientID c) @ b4" "r4 = rdr p4 b4"
    "wire_string (c_ClientID c)"
    by (auto simp: wire_string_def elim: stringValue_InrE)
  have "connect_flags c = f"
    using tail by (intro connect_flags_decoded [OF res flags])
      (auto simp: connect_tail_def split: option.splits)
  moreover note connect_tail_bytes [OF tail [unfolded b4(2)]]
  ultimately show ?thesis
    using name b0(1) b1(1) b2(1) b3(1) b4(1,3) by (simp add: wf_connect_def connect_body_def)
qed

end
