(* ===== verification/Packet_Stream.thy ===== *)
theory Packet_Stream
  imports Packets
begin

text \<open>
  The packet stream of \<open>stream.go\<close> of \<open>pkg/infrastructure/mqtt/packet\<close>: \<open>decodeBody\<close>,
  \<open>Decode\<close> over a byte slice, the \<open>Reader\<close> of a connection and its \<open>Writer\<close>.

  A Go \<open>io.Reader\<close> is the list of bytes it still delivers and the error it answers once
  they are used up (\<open>ReadErr ''EOF''\<close> for a peer that closed, another \<open>ReadErr\<close> for a
  deadline or a broken connection); the buffering of \<open>bufio.Reader\<close> is not observable. An
  \<open>io.Writer\<close> is a parameter of \<open>WritePacket\<close>.

  The lemmas show that \<open>Decode\<close> inverts \<open>Encode\<close>, what a decoded packet satisfies, that
  \<open>ReadPacket\<close> accepts the packets \<open>Decode\<close> accepts within the size limit and consumes
  their bytes only, and that a stream of encoded packets is read back in order.
\<close>

unbundle bit_operations_syntax

subsection \<open>Decoding a slice\<close>

definition mapInr :: "('a \<Rightarrow> 'b) \<Rightarrow> 'e + 'a \<Rightarrow> 'e + 'b" where
  "mapInr f r = andThen r (\<lambda>x. Inr (f x))"

definition decodeBody :: "ptype \<Rightarrow> byte \<Rightarrow> bytes \<Rightarrow> codec_error + packet" where
  "decodeBody t flags body =
     (if t = CONNECT then mapInr PConnect (decodeConnect body)
      else if t = CONNACK then mapInr PConnack (decodeConnack body)
      else if t = PUBLISH then mapInr PPublish (decodePublish flags body)
      else if t = PUBACK \<or> t = PUBREC \<or> t = PUBREL \<or> t = PUBCOMP \<or> t = UNSUBACK
        then mapInr PAck (decodeAck t body)
      else if t = SUBSCRIBE then mapInr PSubscribe (decodeSubscribe body)
      else if t = SUBACK then mapInr PSuback (decodeSuback body)
      else if t = UNSUBSCRIBE then mapInr PUnsubscribe (decodeUnsubscribe body)
      else if t = PINGREQ \<or> t = PINGRESP \<or> t = DISCONNECT then mapInr PSimple (decodeSimple t body)
      else Inl (newProtocolError (''unhandled packet type '' @ ptype_String t)))"

definition Decode :: "bytes \<Rightarrow> codec_error + packet" where
  "Decode buf =
     (if length buf < 2 then Inl ErrMalformedPacket
      else
        let packetType = drop_bit 4 (buf ! 0); flags = buf ! 0 AND 0x0F in
        if \<not> IsValid packetType
        then Inl (newProtocolError (''reserved packet type '' @ ptype_String packetType))
        else case validateFlags packetType flags of
          Some e \<Rightarrow> Inl e
        | None \<Rightarrow>
            andThen (decodeRemainingLength (drop 1 buf)) (\<lambda>(remainingLength, consumed).
            let start = 1 + consumed in
            if length buf < start + remainingLength then Inl ErrMalformedPacket
            else decodeBody packetType flags (take remainingLength (drop start buf))))"

subsection \<open>The stream reader\<close>

definition DefaultMaxPacketSize :: int where
  "DefaultMaxPacketSize = 2 ^ 20"

record Reader =
  rd_src :: bytes
  rd_err :: codec_error
  rd_maxPacketSize :: int
  rd_header :: bytes

definition NewReader :: "bytes \<Rightarrow> codec_error \<Rightarrow> int \<Rightarrow> Reader" where
  "NewReader src err maxPacketSize =
     \<lparr>rd_src = src, rd_err = err,
      rd_maxPacketSize = (if maxPacketSize \<le> 0 then DefaultMaxPacketSize else maxPacketSize),
      rd_header = replicate 5 0\<rparr>"

text \<open>\<open>bufio.Reader.ReadByte\<close>, and \<open>io.ReadFull\<close> into a slice of \<open>n > 0\<close> bytes.\<close>

definition ReadByte :: "Reader \<Rightarrow> (codec_error + byte) \<times> Reader" where
  "ReadByte r = (case rd_src r of [] \<Rightarrow> (Inl (rd_err r), r) | b # bs \<Rightarrow> (Inr b, r\<lparr>rd_src := bs\<rparr>))"

definition ReadFull :: "nat \<Rightarrow> Reader \<Rightarrow> (codec_error + bytes) \<times> Reader" where
  "ReadFull n r =
     (if length (rd_src r) < n then
        (Inl (if rd_src r \<noteq> [] \<and> rd_err r = ReadErr ''EOF'' then ReadErr ''unexpected EOF'' else rd_err r),
         r\<lparr>rd_src := []\<rparr>)
      else (Inr (take n (rd_src r)), r\<lparr>rd_src := drop n (rd_src r)\<rparr>))"

function readLengthLoop :: "nat \<Rightarrow> Reader \<Rightarrow> (codec_error + nat) \<times> Reader" where
  "readLengthLoop i r =
     (if i < 4 then
        (case ReadByte r of
           (Inl e, r) \<Rightarrow> (Inl e, r)
         | (Inr b, r) \<Rightarrow>
             let r = r\<lparr>rd_header := (rd_header r)[i := b]\<rparr> in
             if b AND 0x80 = 0
             then (mapInr fst (decodeRemainingLength (take (i + 1) (rd_header r))), r)
             else readLengthLoop (i + 1) r)
      else (Inl ErrRemainingLengthOverflow, r))"
  by pat_completeness auto
termination
  by (relation "measure (\<lambda>(i, r). 4 - i)") auto

declare readLengthLoop.simps [simp del]

definition readRemainingLength :: "Reader \<Rightarrow> (codec_error + nat) \<times> Reader" where
  "readRemainingLength r = readLengthLoop 0 r"

definition ReadPacket :: "Reader \<Rightarrow> (codec_error + packet) \<times> Reader" where
  "ReadPacket r =
     (case ReadByte r of
        (Inl e, r) \<Rightarrow> (Inl e, r)
      | (Inr firstByte, r) \<Rightarrow>
          let packetType = drop_bit 4 firstByte; flags = firstByte AND 0x0F in
          if \<not> IsValid packetType
          then (Inl (newProtocolError (''reserved packet type '' @ ptype_String packetType)), r)
          else case validateFlags packetType flags of
            Some e \<Rightarrow> (Inl e, r)
          | None \<Rightarrow>
              (case readRemainingLength r of
                 (Inl e, r) \<Rightarrow> (Inl e, r)
               | (Inr remainingLength, r) \<Rightarrow>
                   if int remainingLength > rd_maxPacketSize r then (Inl ErrPacketTooLarge, r)
                   else if remainingLength > 0 then
                     (case ReadFull remainingLength r of
                        (Inl err, r) \<Rightarrow>
                          if err = ReadErr ''EOF'' \<or> err = ReadErr ''unexpected EOF''
                          then (Inl ErrMalformedPacket, r) else (Inl err, r)
                      | (Inr body, r) \<Rightarrow> (decodeBody packetType flags body, r))
                   else (decodeBody packetType flags [], r)))"

subsection \<open>The stream writer\<close>

record 'w Writer =
  w_dst :: 'w
  w_buf :: bytes

definition NewWriter :: "'w \<Rightarrow> 'w Writer" where
  "NewWriter dst = \<lparr>w_dst = dst, w_buf = []\<rparr>"

text \<open>
  \<open>write\<close> is the \<open>Write\<close> method of the destination; the result is the error of the call,
  \<open>None\<close> for nil.
\<close>

definition WritePacket ::
  "('w \<Rightarrow> bytes \<Rightarrow> codec_error option \<times> 'w) \<Rightarrow> 'w Writer \<Rightarrow> packet \<Rightarrow> codec_error option \<times> 'w Writer" where
  "WritePacket write w p =
     (let w = w\<lparr>w_buf := []\<rparr> in
      case Encode (w_buf w) p of
        Inl err \<Rightarrow> (Some err, w)
      | Inr encoded \<Rightarrow>
          let w = w\<lparr>w_buf := encoded\<rparr>; (err, dst) = write (w_dst w) encoded
          in (err, w\<lparr>w_dst := dst\<rparr>))"

subsection \<open>Well-formed packets and their bytes\<close>

fun wf_packet :: "packet \<Rightarrow> bool" where
  "wf_packet (PConnect c) = wf_connect c"
| "wf_packet (PConnack c) = True"
| "wf_packet (PPublish p) = wf_publish p"
| "wf_packet (PAck a) = wf_ack a"
| "wf_packet (PSubscribe s) = wf_subscribe s"
| "wf_packet (PSuback s) = wf_suback s"
| "wf_packet (PUnsubscribe u) = wf_unsubscribe u"
| "wf_packet (PSimple s) = wf_simple s"

text \<open>A CONNACK that refuses the connection carries no session-present flag (3.2.2-4).\<close>

fun connack_consistent :: "packet \<Rightarrow> bool" where
  "connack_consistent (PConnack c) = (ca_SessionPresent c \<longrightarrow> ca_ReturnCode c = ConnectAccepted)"
| "connack_consistent _ = True"

fun packet_flags :: "packet \<Rightarrow> byte" where
  "packet_flags (PPublish p) = publish_flags p"
| "packet_flags p = flagsFor (packet_Type p)"

fun packet_body :: "packet \<Rightarrow> bytes" where
  "packet_body (PConnect c) = connect_body c"
| "packet_body (PConnack c) = [if ca_SessionPresent c then 0x01 else 0, ca_ReturnCode c]"
| "packet_body (PPublish p) = publish_body p"
| "packet_body (PAck a) = appendUint16 [] (ack_PacketID a)"
| "packet_body (PSubscribe s) = subscribe_body s"
| "packet_body (PSuback s) = appendUint16 [] (sa_PacketID s) @ sa_ReturnCodes s"
| "packet_body (PUnsubscribe u) = unsubscribe_body u"
| "packet_body (PSimple s) = []"

definition packet_header :: "packet \<Rightarrow> byte" where
  "packet_header p = push_bit 4 (packet_Type p) OR packet_flags p"

definition encoding :: "packet \<Rightarrow> bytes" where
  "encoding p = packet_bytes (packet_header p) (packet_body p)"

lemma mapInr_simps [simp]: "mapInr f (Inl e) = Inl e" "mapInr f (Inr x) = Inr (f x)"
  by (simp_all add: mapInr_def)

lemma mapInr_Inr_iff: "mapInr f r = Inr y \<longleftrightarrow> (\<exists>x. r = Inr x \<and> y = f x)"
  by (cases r) auto

lemmas flags_simps = flagsFor_def requiredFlags_def

lemma flagsFor_empty: "flagsFor CONNECT = 0" "flagsFor CONNACK = 0" "flagsFor SUBACK = 0"
  "flagsFor PINGREQ = 0" "flagsFor PINGRESP = 0" "flagsFor DISCONNECT = 0"
  by (simp_all add: flags_simps)

lemma Encode_wf:
  assumes "wf_packet p" and "connack_consistent p"
  shows "Encode dst p = Inr (dst @ encoding p)"
proof (cases p)
  case (PSimple s)
  with assms show ?thesis
    by (auto simp: encoding_def packet_header_def simple_Encode_shape wf_simple_def flagsFor_empty)
next
  case (PConnack c)
  with assms have "(ca_SessionPresent c \<and> ca_ReturnCode c = ConnectAccepted) = ca_SessionPresent c"
    by auto
  then show ?thesis
    by (simp add: PConnack encoding_def packet_header_def connack_Encode_shape flagsFor_empty)
next
  case (PPublish b)
  with assms show ?thesis
    by (simp add: encoding_def packet_header_def publish_Encode_shape wf_publish_def split: if_splits)
qed (use assms in \<open>auto simp: encoding_def packet_header_def flagsFor_empty wf_ack_def wf_subscribe_def
      wf_unsubscribe_def wf_suback_def connect_Encode_shape ack_Encode_shape subscribe_Encode_shape
      suback_Encode_shape unsubscribe_Encode_shape\<close>)

lemma wf_packet_Type: "wf_packet p \<Longrightarrow> IsValid (packet_Type p) \<and> packet_Type p < 16"
  by (cases p) (auto simp: IsValid_def wf_ack_def wf_simple_def)

lemma packet_flags_ok:
  assumes "wf_packet p"
  shows "packet_flags p < 16 \<and> validateFlags (packet_Type p) (packet_flags p) = None"
proof (cases p)
  case (PPublish b)
  with assms have q: "p_QoS b \<le> 2" and d: "p_QoS b = 0 \<longrightarrow> \<not> p_DUP b"
    by (auto simp: wf_publish_def split: if_splits)
  have "p_QoS b \<noteq> 3" using q by auto
  with publish_flags_bits [OF q] d PPublish show ?thesis
    by (simp add: validateFlags_def Let_def)
qed (use assms in \<open>auto simp: validateFlags_def flags_simps wf_ack_def wf_simple_def\<close>)

lemma header_parts:
  assumes "wf_packet p"
  shows "drop_bit 4 (packet_header p) = packet_Type p" "packet_header p AND 0x0F = packet_flags p"
  using wf_packet_Type [OF assms] packet_flags_ok [OF assms]
  unfolding packet_header_def by (blast intro: header_type header_flags)+

lemma decodeBody_body:
  assumes "wf_packet p"
  shows "decodeBody (packet_Type p) (packet_flags p) (packet_body p) = Inr p"
proof (cases p)
  case (PConnack c)
  have "decodeConnack [if ca_SessionPresent c then 0x01 else 0, ca_ReturnCode c] = Inr c"
    by (simp add: decodeConnack_def)
  then show ?thesis by (simp add: PConnack decodeBody_def)
next
  case (PAck a)
  with assms show ?thesis
    using decodeAck_body [of a] by (auto simp: decodeBody_def wf_ack_def)
next
  case (PSimple s)
  with assms show ?thesis
    using decodeSimple_body [of s] by (auto simp: decodeBody_def wf_simple_def)
qed (use assms in \<open>simp_all add: decodeBody_def decodeConnect_body decodePublish_body decodeSubscribe_body
      decodeSuback_body decodeUnsubscribe_body\<close>)

lemma validateFlags_flagsFor:
  "validateFlags t f = None \<Longrightarrow> t \<noteq> PUBLISH \<Longrightarrow> f = flagsFor t"
  by (auto simp: validateFlags_def flagsFor_def split: option.splits if_splits)

lemma decodeBody_sound:
  assumes "decodeBody t f body = Inr p" and "f < 16" and "validateFlags t f = None"
  shows "wf_packet p \<and> packet_Type p = t \<and> packet_flags p = f \<and> packet_body p = body"
proof (cases "t = PUBLISH")
  case True
  with assms obtain b where b: "decodePublish f body = Inr b" "p = PPublish b"
    by (auto simp: decodeBody_def mapInr_Inr_iff)
  from decodePublish_sound [OF b(1) assms(2)] assms(3) True b(2) show ?thesis by simp
next
  case False
  with assms(3) have f: "f = flagsFor t" by (rule validateFlags_flagsFor)
  with False assms(1) show ?thesis
    by (auto simp: decodeBody_def mapInr_Inr_iff wf_ack_def wf_simple_def split: if_splits
      dest!: decodeConnect_sound decodeConnack_sound decodeAck_sound decodeSubscribe_sound
        decodeSuback_sound decodeUnsubscribe_sound decodeSimple_sound)
qed
subsection \<open>Decode and Encode\<close>

lemma Decode_packet_bytes:
  assumes "length body \<le> maxRemainingLength"
  shows "Decode (packet_bytes h body @ suf) =
     (if \<not> IsValid (drop_bit 4 h)
      then Inl (newProtocolError (''reserved packet type '' @ ptype_String (drop_bit 4 h)))
      else case validateFlags (drop_bit 4 h) (h AND 0x0F) of
        Some e \<Rightarrow> Inl e | None \<Rightarrow> decodeBody (drop_bit 4 h) (h AND 0x0F) body)"
proof -
  have "0 < length (encodeRemainingLength [] (length body))" by simp
  then have "\<not> length (packet_bytes h body @ suf) < 2"
    unfolding packet_bytes_def by (simp del: length_greater_0_conv)
  then show ?thesis
    using decode_encode_varint [OF assms, of "body @ suf"]
    by (simp add: Decode_def packet_bytes_def Let_def split: option.split)
qed

lemma Decode_encoding:
  assumes "wf_packet p" and "length (packet_body p) \<le> maxRemainingLength"
  shows "Decode (encoding p @ suf) = Inr p"
  using wf_packet_Type [OF assms(1)] packet_flags_ok [OF assms(1)] decodeBody_body [OF assms(1)]
  unfolding encoding_def Decode_packet_bytes [OF assms(2)] header_parts [OF assms(1)] by simp

text \<open>What \<open>Decode\<close> and \<open>ReadPacket\<close> have in common: they accept a framed, well-formed packet.\<close>

definition framed :: "bytes \<Rightarrow> packet \<Rightarrow> nat \<Rightarrow> bool" where
  "framed buf p c \<longleftrightarrow>
     wf_packet p \<and> buf \<noteq> [] \<and> hd buf = packet_header p
     \<and> decodeRemainingLength (tl buf) = Inr (length (packet_body p), c)
     \<and> take (length (packet_body p)) (drop (1 + c) buf) = packet_body p"

lemma header_of_byte:
  assumes "drop_bit 4 b = packet_Type p" and "b AND 0x0F = packet_flags p"
  shows "b = packet_header p"
  using header_split [of b] by (simp add: packet_header_def assms)

lemma Decode_Inr_iff: "Decode buf = Inr p \<longleftrightarrow> (\<exists>c. framed buf p c)"
proof
  assume d: "Decode buf = Inr p"
  then obtain b bs where buf: "buf = b # bs" by (cases buf) (auto simp: Decode_def)
  from d buf obtain n c where
    v: "validateFlags (drop_bit 4 b) (b AND 0x0F) = None"
    and n: "decodeRemainingLength bs = Inr (n, c)" "c + n \<le> length bs"
    and body: "decodeBody (drop_bit 4 b) (b AND 0x0F) (take n (drop c bs)) = Inr p"
    by (auto simp: Decode_def Let_def andThen_Inr_iff not_less split: if_splits option.splits)
  from decodeBody_sound [OF body _ v] nibble_less
  have p: "wf_packet p" "packet_Type p = drop_bit 4 b" "packet_flags p = b AND 0x0F"
    "packet_body p = take n (drop c bs)"
    by auto
  moreover from p(4) n(2) have "length (packet_body p) = n" by simp
  ultimately show "\<exists>c. framed buf p c"
    using buf n header_of_byte [of b p] by (auto simp: framed_def)
next
  assume "\<exists>c. framed buf p c"
  then obtain bs c where wf: "wf_packet p" and buf: "buf = packet_header p # bs"
    and n: "decodeRemainingLength bs = Inr (length (packet_body p), c)"
    and body: "take (length (packet_body p)) (drop c bs) = packet_body p"
    by (auto simp: framed_def neq_Nil_conv)
  from decodeRemainingLength_bounds [OF n] have "bs \<noteq> []" "c \<le> length bs" by auto
  moreover from body have "length (packet_body p) \<le> length bs - c"
    by (metis length_drop length_take min.cobounded1)
  ultimately have "\<not> length buf < 2" "\<not> length bs < c + length (packet_body p)"
    using buf by (auto simp: neq_Nil_conv)
  with wf_packet_Type [OF wf] packet_flags_ok [OF wf] n body decodeBody_body [OF wf]
  show "Decode buf = Inr p"
    by (simp add: Decode_def Let_def buf header_parts [OF wf])
qed

subsection \<open>The stream reader\<close>

definition reader_inv :: "Reader \<Rightarrow> bool" where
  "reader_inv r = (length (rd_header r) = 5 \<and> rd_maxPacketSize r > 0)"


text \<open>
  \<open>readRemainingLength\<close> takes the bytes one at a time through the reused header array; it
  computes what \<open>decodeRemainingLength\<close> computes on the whole input, and an input that ends
  inside the length field gives the error of the source.
\<close>

lemma readLengthLoop_Cons:
  assumes "length (rd_header r) = 5" and "i < 4" and "take i (rd_header r) = pre" and "rd_src r = b # bs"
    and "r' = r\<lparr>rd_src := bs, rd_header := (rd_header r)[i := b]\<rparr>"
  shows "take (i + 1) (rd_header r') = pre @ [b]" and "length (rd_header r') = 5"
    and "readLengthLoop i r = (if b AND 0x80 = 0
        then (mapInr fst (decodeRemainingLength (pre @ [b])), r') else readLengthLoop (i + 1) r')"
proof -
  show take: "take (i + 1) (rd_header r') = pre @ [b]" "length (rd_header r') = 5"
    using assms by (simp_all add: take_Suc_conv_app_nth)
  show "readLengthLoop i r = (if b AND 0x80 = 0
      then (mapInr fst (decodeRemainingLength (pre @ [b])), r') else readLengthLoop (i + 1) r')"
    using assms(2,4,5) take(1) by (subst readLengthLoop.simps) (simp add: ReadByte_def Let_def)
qed

lemma decodeRemainingLength_at:
  assumes "\<And>suf. decodeRemainingLength (pre @ suf) = decodeLoop (pre @ suf) (length pre) m v" and "length pre < 4"
  shows "decodeRemainingLength (pre @ b # suf) = (if b AND 0x80 = 0
      then Inr (v + unat (b AND 0x7F) * m, length pre + 1)
      else decodeLoop (pre @ b # suf) (length pre + 1) (m * 128) (v + unat (b AND 0x7F) * m))"
  using assms by (subst assms(1), subst decodeLoop.simps) (simp add: nth_append Let_def)

text \<open>What the loop has read when it stops: \<open>pre\<close> are the length bytes already in the header array.\<close>

definition lengthRead :: "nat \<Rightarrow> Reader \<Rightarrow> bytes \<Rightarrow> bytes \<Rightarrow> (codec_error + nat) \<times> Reader" where
  "lengthRead i r pre H =
     (case decodeRemainingLength (pre @ rd_src r) of
        Inr (n, c) \<Rightarrow> (Inr n, r\<lparr>rd_src := drop (c - i) (rd_src r), rd_header := H\<rparr>)
      | Inl e \<Rightarrow> (Inl (if e = ErrMalformedPacket then rd_err r else e),
          r\<lparr>rd_src := drop (4 - i) (rd_src r), rd_header := H\<rparr>))"

lemma lengthRead_Cons:
  assumes "i < 4" and "rd_src r = b # bs" and "r' = r\<lparr>rd_src := bs, rd_header := h\<rparr>"
    and "\<And>n c. decodeRemainingLength (pre @ b # bs) = Inr (n, c) \<Longrightarrow> Suc i \<le> c"
  shows "lengthRead (i + 1) r' (pre @ [b]) H = lengthRead i r pre H"
  using assms by (auto simp: lengthRead_def Suc_diff_le drop_Cons' split: sum.split dest!: assms(4))

lemma readLengthLoop_eq:
  assumes "length (rd_header r) = 5" and "i \<le> 4" and "take i (rd_header r) = pre"
    and "\<And>suf. decodeRemainingLength (pre @ suf) = decodeLoop (pre @ suf) i m v"
  shows "\<exists>H. length H = 5 \<and> readLengthLoop i r = lengthRead i r pre H"
  using assms
proof (induction "4 - i" arbitrary: i r pre m v)
  case 0
  then have "i = 4" by simp
  with 0 show ?case
    by (intro exI [of _ "rd_header r"]) (simp add: lengthRead_def readLengthLoop.simps decodeLoop.simps)
next
  case (Suc k)
  then have i: "i < 4" by simp
  have len: "length pre = i" using Suc.prems(1-3) by auto
  show ?case
  proof (cases "rd_src r")
    case Nil
    have d: "decodeRemainingLength pre = Inl ErrMalformedPacket"
      using Suc.prems(4) [of "[]"] i len by (simp add: decodeLoop.simps)
    show ?thesis
      using Nil d Suc.prems(1) i by (intro exI [of _ "rd_header r"], cases r)
        (simp add: lengthRead_def readLengthLoop.simps ReadByte_def)
  next
    case (Cons b bs)
    define r' where "r' = r\<lparr>rd_src := bs, rd_header := (rd_header r)[i := b]\<rparr>"
    have src: "rd_src r' = bs" by (simp add: r'_def)
    note step = readLengthLoop_Cons [OF Suc.prems(1) i Suc.prems(3) Cons r'_def]
    note take = step(1,2) and read = step(3)
    note at = decodeRemainingLength_at [of pre m v b, unfolded len, OF Suc.prems(4) i]
    show ?thesis
    proof (cases "b AND 0x80 = 0")
      case True
      have "r' = r\<lparr>rd_src := drop (i + 1 - i) (rd_src r), rd_header := (rd_header r)[i := b]\<rparr>"
        using Cons by (simp add: r'_def)
      with True read at [of "[]"] at [of bs] Cons Suc.prems(1) show ?thesis
        by (intro exI [of _ "(rd_header r)[i := b]"]) (simp add: lengthRead_def)
    next
      case False
      have "\<exists>H. length H = 5 \<and> readLengthLoop (i + 1) r' = lengthRead (i + 1) r' (pre @ [b]) H"
        using Suc.hyps(2) i at False take(2)
        by (intro Suc.hyps(1) [OF _ take(2) _ take(1), where m = "m * 128" and v = "v + unat (b AND 0x7F) * m"]) auto
      then obtain H where H: "length H = 5" "readLengthLoop (i + 1) r' = lengthRead (i + 1) r' (pre @ [b]) H" by blast
      have "Suc i \<le> c" if "decodeRemainingLength (pre @ b # bs) = Inr (n, c)" for n c
        using that False at [of bs] decodeLoop_bounds [of "pre @ b # bs" "i + 1"] by fastforce
      with H False read lengthRead_Cons [OF i Cons r'_def] show ?thesis by auto
    qed
  qed
qed

lemma readRemainingLength_eq:
  assumes "length (rd_header r) = 5"
  shows "\<exists>H. length H = 5 \<and> readRemainingLength r =
     (case decodeRemainingLength (rd_src r) of
        Inr (n, c) \<Rightarrow> (Inr n, r\<lparr>rd_src := drop c (rd_src r), rd_header := H\<rparr>)
      | Inl e \<Rightarrow> (Inl (if e = ErrMalformedPacket then rd_err r else e),
          r\<lparr>rd_src := drop 4 (rd_src r), rd_header := H\<rparr>))"
  using readLengthLoop_eq [of r 0 "[]" 1 0, unfolded lengthRead_def minus_nat.diff_0] assms
  by (simp add: readRemainingLength_def decodeRemainingLength_def)

lemma ReadPacket_framed:
  assumes "reader_inv r" and "framed (rd_src r) p c"
    and "int (length (packet_body p)) \<le> rd_maxPacketSize r"
  shows "\<exists>H. length H = 5 \<and>
    ReadPacket r = (Inr p, r\<lparr>rd_src := drop (1 + c + length (packet_body p)) (rd_src r), rd_header := H\<rparr>)"
proof -
  from assms(2) obtain bs where wf: "wf_packet p" and src: "rd_src r = packet_header p # bs"
    and n: "decodeRemainingLength bs = Inr (length (packet_body p), c)"
    and body: "take (length (packet_body p)) (drop c bs) = packet_body p"
    by (auto simp: framed_def neq_Nil_conv)
  from assms(1) have "length (rd_header (r\<lparr>rd_src := bs\<rparr>)) = 5" by (simp add: reader_inv_def)
  from readRemainingLength_eq [OF this] n obtain H where H: "length H = 5"
    "readRemainingLength (r\<lparr>rd_src := bs\<rparr>) = (Inr (length (packet_body p)), r\<lparr>rd_src := drop c bs, rd_header := H\<rparr>)"
    by auto
  have len: "\<not> length (drop c bs) < length (packet_body p)"
    using body by (metis leD length_take min.cobounded1)
  show ?thesis
    using wf_packet_Type [OF wf] packet_flags_ok [OF wf] decodeBody_body [OF wf] H assms(3) body len
    by (intro exI [of _ H])
      (auto simp: ReadPacket_def ReadByte_def ReadFull_def Let_def src header_parts [OF wf] not_less
        add.commute)
qed

lemma ReadPacket_InrD:
  assumes "reader_inv r" and "ReadPacket r = (Inr p, r')"
  shows "\<exists>c. framed (rd_src r) p c \<and> int (length (packet_body p)) \<le> rd_maxPacketSize r"
proof -
  from assms(2) obtain b bs where src: "rd_src r = b # bs"
    by (auto simp: ReadPacket_def ReadByte_def split: list.splits)
  from assms(1) have "length (rd_header (r\<lparr>rd_src := bs\<rparr>)) = 5" by (simp add: reader_inv_def)
  from readRemainingLength_eq [OF this] assms(2) src obtain n c H where
    v: "validateFlags (drop_bit 4 b) (b AND 0x0F) = None"
    and n: "decodeRemainingLength bs = Inr (n, c)" "int n \<le> rd_maxPacketSize r"
    and rest: "(if n > 0 then case ReadFull n (r\<lparr>rd_src := drop c bs, rd_header := H\<rparr>) of
          (Inl err, r) \<Rightarrow> if err = ReadErr ''EOF'' \<or> err = ReadErr ''unexpected EOF''
             then (Inl ErrMalformedPacket, r) else (Inl err, r)
        | (Inr body, r) \<Rightarrow> (decodeBody (drop_bit 4 b) (b AND 0x0F) body, r)
       else (decodeBody (drop_bit 4 b) (b AND 0x0F) [], r\<lparr>rd_src := drop c bs, rd_header := H\<rparr>)) = (Inr p, r')"
    by (auto simp: ReadPacket_def ReadByte_def Let_def not_less split: if_split_asm option.splits sum.splits)
  from rest have body: "decodeBody (drop_bit 4 b) (b AND 0x0F) (take n (drop c bs)) = Inr p"
    and len: "n \<le> length (drop c bs)"
    by (auto simp: ReadFull_def split: if_split_asm)
  from decodeBody_sound [OF body _ v] nibble_less
  have p: "wf_packet p" "packet_Type p = drop_bit 4 b" "packet_flags p = b AND 0x0F"
    "packet_body p = take n (drop c bs)" by auto
  moreover from p(4) len have "length (packet_body p) = n" by simp
  ultimately show ?thesis
    using src n header_of_byte [of b p] by (auto simp: framed_def)
qed

lemma framed_encoding:
  assumes "wf_packet p" and "length (packet_body p) \<le> maxRemainingLength"
  shows "framed (encoding p @ suf) p (length (encodeRemainingLength [] (length (packet_body p))))"
  using assms decode_encode_varint [OF assms(2), of "packet_body p @ suf"]
  by (simp add: framed_def encoding_def packet_bytes_def)

lemma NewReader_inv: "reader_inv (NewReader src err m)"
  by (simp add: reader_inv_def NewReader_def DefaultMaxPacketSize_def)

text \<open>A reader called \<open>n\<close> times, and a writer given a list of packets.\<close>

fun ReadPackets :: "nat \<Rightarrow> Reader \<Rightarrow> (codec_error + packet) list \<times> Reader" where
  "ReadPackets 0 r = ([], r)"
| "ReadPackets (Suc n) r =
     (let (x, r) = ReadPacket r; (xs, r) = ReadPackets n r in (x # xs, r))"

fun WritePackets ::
  "('w \<Rightarrow> bytes \<Rightarrow> codec_error option \<times> 'w) \<Rightarrow> 'w Writer \<Rightarrow> packet list \<Rightarrow> codec_error option list \<times> 'w Writer" where
  "WritePackets write w [] = ([], w)"
| "WritePackets write w (p # ps) =
     (let (e, w) = WritePacket write w p; (es, w) = WritePackets write w ps in (e # es, w))"

definition sendable :: "int \<Rightarrow> packet \<Rightarrow> bool" where
  "sendable m p = (wf_packet p \<and> connack_consistent p \<and> length (packet_body p) \<le> maxRemainingLength
     \<and> int (length (packet_body p)) \<le> m)"

lemma ReadPackets_stream:
  assumes "reader_inv r" and "rd_src r = concat (map encoding ps) @ suf"
    and "\<forall>p \<in> set ps. sendable (rd_maxPacketSize r) p"
  shows "\<exists>H. length H = 5 \<and> ReadPackets (length ps) r = (map Inr ps, r\<lparr>rd_src := suf, rd_header := H\<rparr>)"
  using assms
proof (induction ps arbitrary: r)
  case Nil
  then show ?case by (intro exI [of _ "rd_header r"]) (simp add: reader_inv_def)
next
  case (Cons p ps)
  let ?n = "length (packet_body p)"
  let ?c = "length (encodeRemainingLength [] ?n)"
  from Cons.prems have p: "wf_packet p" "?n \<le> maxRemainingLength" "int ?n \<le> rd_maxPacketSize r"
    by (auto simp: sendable_def)
  have src: "rd_src r = encoding p @ concat (map encoding ps) @ suf" using Cons.prems(2) by simp
  from ReadPacket_framed [OF Cons.prems(1) _ p(3)] framed_encoding [OF p(1,2)] src
  obtain H where H: "length H = 5"
    "ReadPacket r = (Inr p, r\<lparr>rd_src := drop (1 + ?c + ?n) (rd_src r), rd_header := H\<rparr>)"
    by metis
  have "drop (1 + ?c + ?n) (rd_src r) = concat (map encoding ps) @ suf"
    by (simp add: src encoding_def packet_bytes_def)
  with H(2) have read: "ReadPacket r = (Inr p, r\<lparr>rd_src := concat (map encoding ps) @ suf, rd_header := H\<rparr>)"
    by simp
  have "\<exists>H'. length H' = 5 \<and> ReadPackets (length ps) (r\<lparr>rd_src := concat (map encoding ps) @ suf, rd_header := H\<rparr>)
      = (map Inr ps, r\<lparr>rd_src := suf, rd_header := H'\<rparr>)"
    using Cons.IH [of "r\<lparr>rd_src := concat (map encoding ps) @ suf, rd_header := H\<rparr>"] Cons.prems H(1)
    by (simp add: reader_inv_def)
  with read show ?case by auto
qed

lemma WritePackets_stream:
  assumes "\<forall>p \<in> set ps. sendable m p"
  shows "\<exists>b. WritePackets (\<lambda>d bs. (None, d @ bs)) w ps
    = (replicate (length ps) None, w\<lparr>w_dst := w_dst w @ concat (map encoding ps), w_buf := b\<rparr>)"
  using assms
proof (induction ps arbitrary: w)
  case Nil
  then show ?case by (intro exI [of _ "w_buf w"]) simp
next
  case (Cons p ps)
  then have "Encode [] p = Inr (encoding p)" by (simp add: sendable_def Encode_wf)
  then have "WritePacket (\<lambda>d bs. (None, d @ bs)) w p
      = (None, w\<lparr>w_dst := w_dst w @ encoding p, w_buf := encoding p\<rparr>)"
    by (simp add: WritePacket_def Let_def)
  with Cons.IH [of "w\<lparr>w_dst := w_dst w @ encoding p, w_buf := encoding p\<rparr>"] Cons.prems
  show ?case by auto
qed

subsection \<open>Properties of the codec\<close>

text \<open>A packet used by the witnesses: a QoS 1 publication of three bytes to \<open>a/b\<close>.\<close>

definition sample_publish :: packet where
  "sample_publish = PPublish \<lparr>p_DUP = False, p_QoS = 1, p_Retain = True, p_Topic = ''a/b'', p_PacketID = 7,
     p_Payload = [1, 2, 3]\<rparr>"

lemma wire_string_ascii:
  assumes "length s < 65536" and "\<forall>b \<in> set (bytes_of s). b \<noteq> 0 \<and> b < 0x80"
  shows "wire_string s"
  using assms by (auto simp: wire_string_def validUTF8_iff intro!: utf8_Valid_ascii)

lemma sample_publish_facts:
  "wf_packet sample_publish" "connack_consistent sample_publish" "length (packet_body sample_publish) = 10"
  "encoding sample_publish = [0x33, 10, 0, 3, 97, 47, 98, 0, 7, 1, 2, 3]"
proof -
  have "wire_string ''a/b''" by (rule wire_string_ascii) (simp_all add: bytes_of_def)
  then show "wf_packet sample_publish" "connack_consistent sample_publish"
    by (simp_all add: sample_publish_def wf_publish_def)
  show "length (packet_body sample_publish) = 10"
    by (simp add: sample_publish_def publish_body_def codec_simps stringSize_def)
  show "encoding sample_publish = [0x33, 10, 0, 3, 97, 47, 98, 0, 7, 1, 2, 3]"
    by (simp add: sample_publish_def encoding_def packet_bytes_def packet_header_def publish_flags_def
        publish_body_def appendString_def appendUint16_def encodeRemainingLength.simps bytes_of_def)
qed

lemma sample_sendable: "sendable 100 sample_publish" "sendable 100 (PSimple NewPingreq)"
  using sample_publish_facts
  by (simp_all add: sendable_def maxRemainingLength_def NewPingreq_def wf_simple_def)

text \<open>Claim C1. Encoding a well-formed packet always succeeds and appends to the
  destination, and decoding what was appended, whatever bytes follow it, gives the packet
  back.\<close>

theorem Decode_Encode:
  assumes "wf_packet p" and "connack_consistent p" and "length (packet_body p) \<le> maxRemainingLength"
  shows "\<exists>bs. Encode dst p = Inr (dst @ bs) \<and> Decode (bs @ suf) = Inr p"
  using Encode_wf [OF assms(1,2)] Decode_encoding [OF assms(1,3)] by blast

lemma Decode_Encode_witness:
  "\<exists>bs. Encode [9] sample_publish = Inr ([9] @ bs) \<and> Decode (bs @ [5, 5]) = Inr sample_publish"
  by (rule Decode_Encode) (simp_all add: sample_publish_facts maxRemainingLength_def)

text \<open>Claim C18. Whatever bytes \<open>Decode\<close> accepts, the packet it returns is well-formed, and
  encoding that packet writes the header byte and the body that were received, with the
  length field in its shortest form.\<close>

theorem Decode_sound:
  assumes "Decode buf = Inr p"
  shows "wf_packet p \<and> (\<exists>n c. decodeRemainingLength (tl buf) = Inr (n, c) \<and> 1 + c + n \<le> length buf
    \<and> (connack_consistent p \<longrightarrow>
        Encode [] p = Inr (hd buf # encodeRemainingLength [] n @ take n (drop (1 + c) buf))))"
proof -
  from assms obtain c where fr: "framed buf p c" unfolding Decode_Inr_iff ..
  let ?n = "length (packet_body p)"
  from fr have wf: "wf_packet p" and h: "hd buf = packet_header p"
    and n: "decodeRemainingLength (tl buf) = Inr (?n, c)" and body: "take ?n (drop (1 + c) buf) = packet_body p"
    and ne: "buf \<noteq> []"
    by (simp_all add: framed_def)
  from body have "?n \<le> length (drop (1 + c) buf)" by (metis length_take min.cobounded1)
  with decodeRemainingLength_bounds [OF n] ne have "1 + c + ?n \<le> length buf" by (cases buf) auto
  moreover have "connack_consistent p \<longrightarrow>
      Encode [] p = Inr (hd buf # encodeRemainingLength [] ?n @ take ?n (drop (1 + c) buf))"
    using Encode_wf [OF wf, of "[]"] unfolding body h by (simp add: encoding_def packet_bytes_def)
  ultimately show ?thesis using wf n by blast
qed

lemma Decode_sound_witness:
  "wf_packet sample_publish \<and> (\<exists>n c. decodeRemainingLength (tl (encoding sample_publish)) = Inr (n, c)
    \<and> 1 + c + n \<le> length (encoding sample_publish) \<and> (connack_consistent sample_publish \<longrightarrow>
        Encode [] sample_publish = Inr (hd (encoding sample_publish) # encodeRemainingLength [] n
          @ take n (drop (1 + c) (encoding sample_publish)))))"
  using Decode_encoding [of sample_publish "[]"]
  by (intro Decode_sound) (simp add: sample_publish_facts maxRemainingLength_def)

text \<open>Claim C20. \<open>ReadPacket\<close>, which takes its input byte by byte from a connection,
  succeeds on a stream exactly when \<open>Decode\<close> succeeds on the same bytes with a body within
  the configured limit, and then returns the same packet.\<close>

theorem ReadPacket_iff_Decode:
  assumes "reader_inv r"
  shows "(\<exists>r'. ReadPacket r = (Inr p, r')) \<longleftrightarrow>
    Decode (rd_src r) = Inr p \<and> int (length (packet_body p)) \<le> rd_maxPacketSize r"
  using ReadPacket_InrD [OF assms] ReadPacket_framed [OF assms] unfolding Decode_Inr_iff by blast

lemma ReadPacket_iff_Decode_witness:
  "(\<exists>r'. ReadPacket (NewReader (encoding sample_publish) (ReadErr ''EOF'') 100) = (Inr sample_publish, r')) \<longleftrightarrow>
    Decode (rd_src (NewReader (encoding sample_publish) (ReadErr ''EOF'') 100)) = Inr sample_publish
    \<and> int (length (packet_body sample_publish))
      \<le> rd_maxPacketSize (NewReader (encoding sample_publish) (ReadErr ''EOF'') 100)"
  by (rule ReadPacket_iff_Decode) (rule NewReader_inv)

lemma ReadPackets_add:
  "ReadPackets (n + m) r =
     (let (xs, r) = ReadPackets n r; (ys, r) = ReadPackets m r in (xs @ ys, r))"
  by (induction n arbitrary: r) (simp_all add: Let_def split: prod.split)

text \<open>Claim C19. Packets written one after another with \<open>WritePacket\<close> are read back by
  \<open>ReadPacket\<close> in the same order, none lost, none invented and none split; the read after
  the last one answers the end of the stream.\<close>

theorem stream_roundtrip:
  assumes "m > 0" and "\<forall>p \<in> set ps. sendable m p"
  shows "fst (WritePackets (\<lambda>d bs. (None, d @ bs)) (NewWriter []) ps) = replicate (length ps) None
    \<and> fst (ReadPackets (length ps + 1)
        (NewReader (w_dst (snd (WritePackets (\<lambda>d bs. (None, d @ bs)) (NewWriter []) ps))) (ReadErr ''EOF'') m))
      = map Inr ps @ [Inl (ReadErr ''EOF'')]"
proof -
  let ?W = "WritePackets (\<lambda>d bs. (None, d @ bs)) (NewWriter []) ps"
  let ?r = "NewReader (w_dst (snd ?W)) (ReadErr ''EOF'') m"
  from WritePackets_stream [OF assms(2), of "NewWriter []"]
  have W: "fst ?W = replicate (length ps) None" "w_dst (snd ?W) = concat (map encoding ps)"
    by (auto simp: NewWriter_def)
  from W(2) have "rd_src ?r = concat (map encoding ps) @ []" by (simp add: NewReader_def)
  moreover from assms have "\<forall>p \<in> set ps. sendable (rd_maxPacketSize ?r) p" by (simp add: NewReader_def)
  ultimately obtain H where H: "ReadPackets (length ps) ?r = (map Inr ps, ?r\<lparr>rd_src := [], rd_header := H\<rparr>)"
    using ReadPackets_stream [OF NewReader_inv] by blast
  have "ReadPacket (?r\<lparr>rd_src := [], rd_header := H\<rparr>) = (Inl (ReadErr ''EOF''), ?r\<lparr>rd_src := [], rd_header := H\<rparr>)"
    by (simp add: ReadPacket_def ReadByte_def NewReader_def)
  with H W(1) show ?thesis
    using ReadPackets_add [of "length ps" 1 ?r] by simp
qed

lemma stream_roundtrip_witness:
  "fst (WritePackets (\<lambda>d bs. (None, d @ bs)) (NewWriter []) [sample_publish, PSimple NewPingreq])
      = replicate (length [sample_publish, PSimple NewPingreq]) None
    \<and> fst (ReadPackets (length [sample_publish, PSimple NewPingreq] + 1)
        (NewReader (w_dst (snd (WritePackets (\<lambda>d bs. (None, d @ bs)) (NewWriter [])
            [sample_publish, PSimple NewPingreq]))) (ReadErr ''EOF'') 100))
      = map Inr [sample_publish, PSimple NewPingreq] @ [Inl (ReadErr ''EOF'')]"
  by (rule stream_roundtrip) (simp_all add: sample_sendable)

text \<open>A packet that announces a body above the configured limit is refused
  before any byte of the body is taken from the connection.\<close>

theorem ReadPacket_too_large:
  assumes "reader_inv r" and "rd_src r = h # lenfield @ body"
    and "IsValid (drop_bit 4 h)" and "validateFlags (drop_bit 4 h) (h AND 0x0F) = None"
    and "decodeRemainingLength (lenfield @ body) = Inr (n, length lenfield)" and "int n > rd_maxPacketSize r"
  shows "\<exists>H. ReadPacket r = (Inl ErrPacketTooLarge, r\<lparr>rd_src := body, rd_header := H\<rparr>)"
proof -
  from assms(1) have "length (rd_header (r\<lparr>rd_src := lenfield @ body\<rparr>)) = 5" by (simp add: reader_inv_def)
  from readRemainingLength_eq [OF this] assms(5) obtain H where
    "readRemainingLength (r\<lparr>rd_src := lenfield @ body\<rparr>) = (Inr n, r\<lparr>rd_src := body, rd_header := H\<rparr>)"
    by auto
  with assms show ?thesis
    by (intro exI [of _ H]) (simp add: ReadPacket_def ReadByte_def Let_def)
qed

lemma ReadPacket_too_large_witness:
  "\<exists>H. ReadPacket (NewReader (0x30 # [0xFF, 0x7F] @ [1, 2, 3]) (ReadErr ''EOF'') 1000)
    = (Inl ErrPacketTooLarge,
       NewReader (0x30 # [0xFF, 0x7F] @ [1, 2, 3]) (ReadErr ''EOF'') 1000\<lparr>rd_src := [1, 2, 3], rd_header := H\<rparr>)"
  by (rule ReadPacket_too_large [where h = "0x30" and lenfield = "[0xFF, 0x7F]" and n = 16383])
    (simp_all add: NewReader_inv, simp_all add: NewReader_def IsValid_def validateFlags_def
      decodeRemainingLength_def decodeLoop.simps)

text \<open>\<open>EncodedSize\<close>, which the broker uses for its byte counters, is the number
  of bytes that \<open>Encode\<close> writes.\<close>

theorem EncodedSize_correct:
  assumes "publish_Encode [] p = Inr bs" and "publish_length p \<le> maxRemainingLength"
  shows "EncodedSize p = length bs"
proof -
  from assms(1) have "\<not> 2 < p_QoS p" "\<not> (0 < p_QoS p \<and> p_PacketID p = 0)"
    by (auto simp: publish_Encode_def split: if_splits)
  then have "p_QoS p \<le> 2" "p_QoS p = 0 \<or> p_PacketID p \<noteq> 0" by (auto simp: not_less word_neq_0_conv)
  from publish_Encode_shape [OF this, of "[]"] assms length_encode_varint [of "publish_length p"]
  show ?thesis by (auto simp: EncodedSize_def packet_bytes_def length_publish_body)
qed

lemma EncodedSize_correct_witness:
  "EncodedSize \<lparr>p_DUP = False, p_QoS = 0, p_Retain = False, p_Topic = ''a'', p_PacketID = 0, p_Payload = [8, 9]\<rparr>
    = length [0x30, 5, 0, 1, 97, 8, 9 :: byte]"
  by (rule EncodedSize_correct)
    (simp_all add: publish_Encode_def publish_flags_def publish_length_def stringSize_def maxRemainingLength_def
      encodeRemainingLength.simps appendString_def appendUint16_def bytes_of_def)

text \<open>The encoder does not check the length limit of the protocol: a packet whose
  body is longer than 268435455 bytes is encoded without an error, and the decoder refuses
  the result.\<close>

theorem Encode_oversized:
  assumes "wf_packet p" and "connack_consistent p" and "length (packet_body p) > maxRemainingLength"
  shows "\<exists>bs. Encode [] p = Inr bs \<and> Decode bs = Inl ErrRemainingLengthOverflow"
proof -
  have "0 < length (encodeRemainingLength [] (length (packet_body p)))" by simp
  then have "\<not> length (encoding p) < 2"
    unfolding encoding_def packet_bytes_def by (simp del: length_greater_0_conv)
  then have "Decode (encoding p) = Inl ErrRemainingLengthOverflow"
    using decode_encode_varint_overflow [OF assms(3), of "packet_body p"] wf_packet_Type [OF assms(1)]
      packet_flags_ok [OF assms(1)]
    by (simp add: Decode_def encoding_def packet_bytes_def Let_def header_parts [OF assms(1)])
  with Encode_wf [OF assms(1,2), of "[]"] show ?thesis by simp
qed

lemma Encode_oversized_witness:
  "\<exists>bs. Encode [] (PPublish \<lparr>p_DUP = False, p_QoS = 0, p_Retain = False, p_Topic = ''a'', p_PacketID = 0,
       p_Payload = replicate 268435455 0\<rparr>) = Inr bs \<and> Decode bs = Inl ErrRemainingLengthOverflow"
proof (rule Encode_oversized)
  have "wire_string ''a''" by (rule wire_string_ascii) (simp_all add: bytes_of_def)
  then show "wf_packet (PPublish \<lparr>p_DUP = False, p_QoS = 0, p_Retain = False, p_Topic = ''a'', p_PacketID = 0,
       p_Payload = replicate 268435455 0\<rparr>)"
    by (simp add: wf_publish_def)
qed (simp_all only: packet_body.simps length_publish_body, simp_all add: publish_length_def maxRemainingLength_def stringSize_def)

end
