(* ===== verification/Connections.thy ===== *)
theory Connections
  imports Stores Packet_Stream
begin

text \<open>
  One client's connection as the rest of the broker sees it: the state of
  \<open>transport.Connection\<close> (\<open>pkg/infrastructure/transport/connection.go\<close>) and the methods of the
  port \<open>PacketSink\<close> (\<open>Send\<close>, \<open>Close\<close>, \<open>ClientID\<close>), with the writer side of the connection.

  The outbound channel is the list of its packets, bounded by its capacity; the channel
  \<open>done\<close> is a flag; \<open>closeOnce\<close> is the test of this flag. The socket is the list of the
  packets written to it and whether it still accepts writes. A write fails when the packet
  cannot be encoded or the socket is closed or broken.
\<close>

subsection \<open>The connection\<close>

record conn =
  cn_outbound :: "packet list"
  cn_queueSize :: nat
  cn_client :: "client_ref option"
  cn_clientID :: client_id \<comment> \<open>the identifier of \<open>cn_client\<close>\<close>
  cn_done :: bool
  cn_closeReason :: "disconnect_reason option"
  cn_remoteAddr :: string
  cn_socketOpen :: bool
  cn_written :: "packet list"

datatype send_error = ErrClientQueueFull | ErrConnectionClosed

definition NewConnection :: "nat \<Rightarrow> string \<Rightarrow> conn" where
  "NewConnection queueSize remoteAddr =
     \<lparr>cn_outbound = [], cn_queueSize = queueSize, cn_client = None, cn_clientID = '''', cn_done = False,
      cn_closeReason = None, cn_remoteAddr = remoteAddr, cn_socketOpen = True, cn_written = []\<rparr>"

definition Send :: "conn \<Rightarrow> packet \<Rightarrow> send_error option \<times> conn" where
  "Send c p =
     (if cn_done c then (Some ErrConnectionClosed, c)
      else if length (cn_outbound c) < cn_queueSize c then (None, c\<lparr>cn_outbound := cn_outbound c @ [p]\<rparr>)
      else (Some ErrClientQueueFull, c))"

definition Close :: "conn \<Rightarrow> disconnect_reason \<Rightarrow> conn" where
  "Close c reason =
     (if cn_done c then c
      else c\<lparr>cn_closeReason := Some reason, cn_done := True, cn_socketOpen := False\<rparr>)"

definition conn_ClientID :: "conn \<Rightarrow> client_id" where
  "conn_ClientID c = (case cn_client c of None \<Rightarrow> '''' | Some k \<Rightarrow> cn_clientID c)"

definition conn_reason :: "conn \<Rightarrow> disconnect_reason" where
  "conn_reason c = (case cn_closeReason c of Some r \<Rightarrow> r | None \<Rightarrow> ReasonNetworkError)"

subsection \<open>The writer\<close>

text \<open>\<open>writer.WritePacket\<close> on the socket of the connection.\<close>

definition writePacket :: "conn \<Rightarrow> packet \<Rightarrow> bool \<times> conn" where
  "writePacket c p =
     (case Encode [] p of
        Inl e \<Rightarrow> (False, c)
      | Inr bs \<Rightarrow> if cn_socketOpen c then (True, c\<lparr>cn_written := cn_written c @ [p]\<rparr>) else (False, c))"

definition writePacketNow :: "conn \<Rightarrow> packet \<Rightarrow> bool \<times> conn" where
  "writePacketNow c p = writePacket c p"

text \<open>\<open>drainOutbound\<close> writes what is queued and gives up at the first error.\<close>

fun drainLoop :: "packet list \<Rightarrow> conn \<Rightarrow> conn" where
  "drainLoop [] c = c\<lparr>cn_outbound := []\<rparr>"
| "drainLoop (p # ps) c =
     (let (ok, c) = writePacket c p in if \<not> ok then c\<lparr>cn_outbound := ps\<rparr> else drainLoop ps c)"

definition drainOutbound :: "conn \<Rightarrow> conn" where
  "drainOutbound c = drainLoop (cn_outbound c) c"

text \<open>One round of \<open>writeLoop\<close>; \<open>False\<close> says that the goroutine has returned.\<close>

definition writeStep :: "conn \<Rightarrow> bool \<times> conn" where
  "writeStep c =
     (if cn_done c then (False, drainOutbound c)
      else case cn_outbound c of
        [] \<Rightarrow> (True, c)
      | p # ps \<Rightarrow>
          let (ok, c) = writePacket (c\<lparr>cn_outbound := ps\<rparr>) p in
          if \<not> ok then (False, Close c ReasonNetworkError) else (True, c))"

subsection \<open>The contract of a packet sink\<close>

text \<open>
  What the services rely on: sending never blocks and either appends to the pending packets
  or reports an error and changes nothing; a closed sink stays closed; the reason of the
  first close is kept.
\<close>

locale packet_sink =
  fixes send :: "'c \<Rightarrow> packet \<Rightarrow> send_error option \<times> 'c" and close :: "'c \<Rightarrow> disconnect_reason \<Rightarrow> 'c"
    and pending :: "'c \<Rightarrow> packet list" and closed :: "'c \<Rightarrow> bool" and cap :: "'c \<Rightarrow> nat"
  assumes send_ok: "fst (send c p) = None \<Longrightarrow> pending (snd (send c p)) = pending c @ [p] \<and> \<not> closed c"
    and send_error: "fst (send c p) \<noteq> None \<Longrightarrow> snd (send c p) = c"
    and send_full: "\<not> closed c \<Longrightarrow> fst (send c p) = None \<longleftrightarrow> length (pending c) < cap c"
    and send_closed: "closed c \<Longrightarrow> fst (send c p) = Some ErrConnectionClosed"
    and send_state: "closed (snd (send c p)) = closed c \<and> cap (snd (send c p)) = cap c"
    and close_closed: "closed (close c r)" and close_pending: "pending (close c r) = pending c"
begin

lemma pending_prefix: "\<exists>ps. pending (snd (send c p)) = pending c @ ps"
  using send_ok [of c p] send_error [of c p] by (metis append_Nil2)

lemma pending_bounded:
  assumes "length (pending c) \<le> cap c"
  shows "length (pending (snd (send c p))) \<le> cap c"
  using assms send_ok [of c p] send_error [of c p] send_full [of c p]
  by (cases "fst (send c p)") auto

end

interpretation conn: packet_sink Send Close cn_outbound cn_done cn_queueSize
  by unfold_locales (auto simp: Send_def Close_def split: if_splits)

text \<open>A connection that is being closed by several parties keeps the reason of the
  first: later calls of \<open>Close\<close> change nothing, so teardown reports the true cause.\<close>

theorem Close_idempotent:
  "Close (Close c r) r' = Close c r \<and> (\<not> cn_done c \<longrightarrow> conn_reason (Close c r) = r)"
  by (simp add: Close_def conn_reason_def)

lemma Close_idempotent_witness:
  "Close (Close (NewConnection 4 ''x'') ReasonClientDisconnect) ReasonNetworkError
      = Close (NewConnection 4 ''x'') ReasonClientDisconnect
    \<and> conn_reason (Close (NewConnection 4 ''x'') ReasonClientDisconnect) = ReasonClientDisconnect"
  using Close_idempotent [of "NewConnection 4 ''x''" ReasonClientDisconnect ReasonNetworkError] by (simp add: NewConnection_def)

end
