(* ===== verification/Subscription_Index.thy ===== *)
theory Subscription_Index
  imports Topics Clients
begin

text \<open>
  The subscription index: the interface \<open>ISubscriptionIndex\<close> of
  \<open>pkg/domain/persistence/stores.go\<close> and its implementation, the topic trie of
  \<open>pkg/infrastructure/persistence/memory/subscription_index.go\<close>. A \<open>trieNode\<close> is owned by
  its parent alone, so the pointer structure is a datatype; walking down while creating
  nodes and pruning on the way back are recursions that rebuild the path. The mutex of the
  index makes every operation one step.

  The lemmas show that the trie represents a finite map from pairs of a filter and a client
  to a granted level, that the operations update this map and keep the trie pruned, that the
  two counters are exact, and that \<open>Match\<close> returns exactly the clients that have a filter
  with \<open>Matches\<close> for the topic, each once and at its highest level.
\<close>

subsection \<open>The trie\<close>

datatype trieNode = TrieNode
  (children: "(level \<times> trieNode) list")
  (single: "trieNode option")
  (multi: "trieNode option")
  (subscribers: "(client_id \<times> qos) list")

definition newTrieNode :: trieNode where
  "newTrieNode = TrieNode [] None None []"

definition isEmpty :: "trieNode \<Rightarrow> bool" where
  "isEmpty n = (length (subscribers n) = 0 \<and> length (children n) = 0 \<and> single n = None \<and> multi n = None)"

definition lookupChild :: "trieNode \<Rightarrow> level \<Rightarrow> trieNode option" where
  "lookupChild n level =
     (if level = SingleLevelWildcard then single n
      else if level = MultiLevelWildcard then multi n
      else mget (children n) level)"

text \<open>The child of a level, created when it is missing, and the node with the child written.\<close>

definition childFor :: "trieNode \<Rightarrow> level \<Rightarrow> trieNode" where
  "childFor n level = (case lookupChild n level of None \<Rightarrow> newTrieNode | Some child \<Rightarrow> child)"

definition setChild :: "trieNode \<Rightarrow> level \<Rightarrow> trieNode \<Rightarrow> trieNode" where
  "setChild n level child =
     (if level = SingleLevelWildcard then TrieNode (children n) (Some child) (multi n) (subscribers n)
      else if level = MultiLevelWildcard then TrieNode (children n) (single n) (Some child) (subscribers n)
      else TrieNode (mput level child (children n)) (single n) (multi n) (subscribers n))"

definition detach :: "trieNode \<Rightarrow> level \<Rightarrow> trieNode" where
  "detach n level =
     (if level = SingleLevelWildcard then TrieNode (children n) None (multi n) (subscribers n)
      else if level = MultiLevelWildcard then TrieNode (children n) (single n) None (subscribers n)
      else TrieNode (mdel level (children n)) (single n) (multi n) (subscribers n))"

definition setSubscribers :: "trieNode \<Rightarrow> (client_id \<times> qos) list \<Rightarrow> trieNode" where
  "setSubscribers n subs = TrieNode (children n) (single n) (multi n) subs"

text \<open>The descent of \<open>Subscribe\<close>; the boolean says whether the pair existed already.\<close>

fun subscribeAt :: "level list \<Rightarrow> client_id \<Rightarrow> qos \<Rightarrow> trieNode \<Rightarrow> bool \<times> trieNode" where
  "subscribeAt [] clientID grantedQoS node =
     (mget (subscribers node) clientID \<noteq> None,
      setSubscribers node (mput clientID grantedQoS (subscribers node)))"
| "subscribeAt (level # levels) clientID grantedQoS node =
     (let (existed, child) = subscribeAt levels clientID grantedQoS (childFor node level)
      in (existed, setChild node level child))"

text \<open>\<open>removeLocked\<close> below a node: \<open>None\<close> is an early return that leaves the trie as it is;
  on the way back an emptied child is detached.\<close>

fun removeAt :: "level list \<Rightarrow> client_id \<Rightarrow> trieNode \<Rightarrow> trieNode option" where
  "removeAt [] clientID node =
     (if mget (subscribers node) clientID = None then None
      else Some (setSubscribers node (mdel clientID (subscribers node))))"
| "removeAt (level # levels) clientID node =
     (case lookupChild node level of
        None \<Rightarrow> None
      | Some next \<Rightarrow>
          (case removeAt levels clientID next of
             None \<Rightarrow> None
           | Some next' \<Rightarrow>
               Some (if isEmpty next' then detach node level else setChild node level next')))"

definition collectStep :: "(client_id, qos) gomap \<Rightarrow> client_id \<times> qos \<Rightarrow> (client_id, qos) gomap" where
  "collectStep matched sub =
     (case sub of (clientID, qos) \<Rightarrow>
        case mget matched clientID of
          None \<Rightarrow> mput clientID qos matched
        | Some existing \<Rightarrow> if qos > existing then mput clientID qos matched else matched)"

definition collect :: "trieNode \<Rightarrow> (client_id, qos) gomap \<Rightarrow> (client_id, qos) gomap" where
  "collect node matched = foldl collectStep matched (subscribers node)"

fun walk :: "trieNode \<Rightarrow> level list \<Rightarrow> (client_id, qos) gomap \<Rightarrow> bool \<Rightarrow> (client_id, qos) gomap" where
  "walk node [] matched skipWildcards =
     collect node (case multi node of
        None \<Rightarrow> matched
      | Some m \<Rightarrow> if \<not> skipWildcards then collect m matched else matched)"
| "walk node (level # levels) matched skipWildcards =
     (let matched = (case multi node of
              None \<Rightarrow> matched
            | Some m \<Rightarrow> if \<not> skipWildcards then collect m matched else matched);
          matched = (case mget (children node) level of
              None \<Rightarrow> matched
            | Some child \<Rightarrow> walk child levels matched False)
      in case single node of
           None \<Rightarrow> matched
         | Some s \<Rightarrow> if \<not> skipWildcards then walk s levels matched False else matched)"

fun countFilters :: "trieNode \<Rightarrow> nat" where
  "countFilters (TrieNode ch s m subs) =
     (if length subs > 0 then 1 else 0)
     + sum_list (map (\<lambda>c. countFilters (snd c)) ch)
     + (case s of None \<Rightarrow> 0 | Some n \<Rightarrow> countFilters n)
     + (case m of None \<Rightarrow> 0 | Some n \<Rightarrow> countFilters n)"

subsection \<open>The index\<close>

record subscriptionIndex =
  ix_root :: trieNode
  ix_clientFilters :: "(client_id, (topic_filter, unit) gomap) gomap"
  ix_subscriptionCount :: int

record subscriber =
  sr_ClientID :: client_id
  sr_GrantedQoS :: qos

definition NewSubscriptionIndex :: subscriptionIndex where
  "NewSubscriptionIndex =
     \<lparr>ix_root = newTrieNode, ix_clientFilters = [], ix_subscriptionCount = 0\<rparr>"

definition index_Subscribe ::
  "subscriptionIndex \<Rightarrow> topic_filter \<Rightarrow> client_id \<Rightarrow> qos \<Rightarrow> subscriptionIndex" where
  "index_Subscribe i filt clientID grantedQoS =
     (let (existed, root) = subscribeAt (Levels filt) clientID grantedQoS (ix_root i);
          i = i\<lparr>ix_root := root\<rparr>;
          i = (if \<not> existed then i\<lparr>ix_subscriptionCount := ix_subscriptionCount i + 1\<rparr> else i);
          filters = (case mget (ix_clientFilters i) clientID of None \<Rightarrow> [] | Some fs \<Rightarrow> fs)
      in i\<lparr>ix_clientFilters := mput clientID (mput filt () filters) (ix_clientFilters i)\<rparr>)"

definition removeLocked :: "subscriptionIndex \<Rightarrow> topic_filter \<Rightarrow> client_id \<Rightarrow> subscriptionIndex" where
  "removeLocked i filt clientID =
     (case removeAt (Levels filt) clientID (ix_root i) of
        None \<Rightarrow> i
      | Some root \<Rightarrow> i\<lparr>ix_root := root, ix_subscriptionCount := ix_subscriptionCount i - 1\<rparr>)"

definition index_Unsubscribe :: "subscriptionIndex \<Rightarrow> topic_filter \<Rightarrow> client_id \<Rightarrow> subscriptionIndex" where
  "index_Unsubscribe i filt clientID =
     (let i = removeLocked i filt clientID in
      case mget (ix_clientFilters i) clientID of
        None \<Rightarrow> i
      | Some filters \<Rightarrow>
          let filters = mdel filt filters in
          if length filters = 0
          then i\<lparr>ix_clientFilters := mdel clientID (ix_clientFilters i)\<rparr>
          else i\<lparr>ix_clientFilters := mput clientID filters (ix_clientFilters i)\<rparr>)"

definition UnsubscribeAll :: "subscriptionIndex \<Rightarrow> client_id \<Rightarrow> subscriptionIndex" where
  "UnsubscribeAll i clientID =
     (let filters = (case mget (ix_clientFilters i) clientID of None \<Rightarrow> [] | Some fs \<Rightarrow> fs);
          i = foldl (\<lambda>i filt. removeLocked i (fst filt) clientID) i filters
      in i\<lparr>ix_clientFilters := mdel clientID (ix_clientFilters i)\<rparr>)"

definition Match :: "subscriptionIndex \<Rightarrow> topic_name \<Rightarrow> subscriber list" where
  "Match i topic =
     (let levels = Split topic;
          matched = walk (ix_root i) levels [] (IsSystem topic)
      in map (\<lambda>(clientID, qos). \<lparr>sr_ClientID = clientID, sr_GrantedQoS = qos\<rparr>) matched)"

definition FilterCount :: "subscriptionIndex \<Rightarrow> nat" where
  "FilterCount i = countFilters (ix_root i)"

definition index_SubscriptionCount :: "subscriptionIndex \<Rightarrow> int" where
  "index_SubscriptionCount i = ix_subscriptionCount i"

subsection \<open>What a trie holds\<close>

fun look :: "level list \<Rightarrow> trieNode \<Rightarrow> client_id \<Rightarrow> qos option" where
  "look [] n = mget (subscribers n)"
| "look (l # ls) n = (case lookupChild n l of None \<Rightarrow> Map.empty | Some c \<Rightarrow> look ls c)"

fun trie_ok :: "trieNode \<Rightarrow> bool" where
  "trie_ok (TrieNode ch s m subs) =
     (map_ok ch \<and> map_ok subs
      \<and> (\<forall>x \<in> set ch. fst x \<noteq> SingleLevelWildcard \<and> fst x \<noteq> MultiLevelWildcard
          \<and> trie_ok (snd x) \<and> \<not> isEmpty (snd x))
      \<and> (case s of None \<Rightarrow> True | Some n \<Rightarrow> trie_ok n \<and> \<not> isEmpty n)
      \<and> (case m of None \<Rightarrow> True | Some n \<Rightarrow> trie_ok n \<and> \<not> isEmpty n))"

lemma trie_sel [simp]:
  "children (setSubscribers n subs) = children n" "single (setSubscribers n subs) = single n"
  "multi (setSubscribers n subs) = multi n" "subscribers (setSubscribers n subs) = subs"
  "subscribers (setChild n l c) = subscribers n" "subscribers (detach n l) = subscribers n"
  by (simp_all add: setSubscribers_def setChild_def detach_def)

lemma lookupChild_setChild [simp]:
  "lookupChild (setChild n l c) l' = (if l' = l then Some c else lookupChild n l')"
  by (simp add: lookupChild_def setChild_def)

lemma lookupChild_detach [simp]:
  "lookupChild (detach n l) l' = (if l' = l then None else lookupChild n l')"
  by (simp add: lookupChild_def detach_def)

lemma lookupChild_setSubscribers [simp]: "lookupChild (setSubscribers n subs) l = lookupChild n l"
  by (simp add: lookupChild_def)

lemma lookupChild_new [simp]: "lookupChild newTrieNode l = None"
  by (simp add: lookupChild_def newTrieNode_def)

lemma look_new [simp]: "look ls newTrieNode = Map.empty"
  by (cases ls) (auto simp: newTrieNode_def lookupChild_def)

lemma look_childFor: "look ls (childFor n l) = look (l # ls) n"
  by (auto simp: childFor_def split: option.split)

lemma trie_ok_new [simp]: "trie_ok newTrieNode"
  by (simp add: newTrieNode_def)

lemma trie_ok_child:
  assumes "trie_ok n" and "lookupChild n l = Some c"
  shows "trie_ok c" and "\<not> isEmpty c"
  using assms by (cases n; force simp: lookupChild_def split: if_splits dest: map_of_SomeD)+

lemma trie_ok_childFor: "trie_ok n \<Longrightarrow> trie_ok (childFor n l)"
  by (auto simp: childFor_def split: option.split dest: trie_ok_child)

lemma trie_ok_setChild:
  assumes "trie_ok n" and "trie_ok c" and "\<not> isEmpty c"
  shows "trie_ok (setChild n l c)"
proof (cases n)
  case (TrieNode ch s m subs)
  with assms show ?thesis by (auto simp: setChild_def dest!: in_set_mput)
qed

lemma trie_ok_detach: "trie_ok n \<Longrightarrow> trie_ok (detach n l)"
  by (cases n) (auto simp: detach_def dest!: in_set_mdel)

subsection \<open>The operations on the trie\<close>

lemma subscribeAt_look:
  "fst (subscribeAt p c q n) = (look p n c \<noteq> None)
   \<and> look p' (snd (subscribeAt p c q n)) c' = (if p' = p \<and> c' = c then Some q else look p' n c')"
proof (induction p arbitrary: n p')
  case Nil
  then show ?case by (cases p') auto
next
  case (Cons l p)
  note IH = Cons.IH [of "childFor n l"]
  show ?case
  proof (cases p')
    case Nil
    with IH show ?thesis by (simp add: split_beta Let_def look_childFor)
  next
    case (Cons l' ls)
    with IH [of ls] show ?thesis by (auto simp: split_beta Let_def look_childFor)
  qed
qed

lemma isEmpty_setChild [simp]: "\<not> isEmpty (setChild n l c)"
  by (simp add: setChild_def isEmpty_def)

lemma subscribeAt_ok:
  "trie_ok n \<Longrightarrow> trie_ok (snd (subscribeAt p c q n)) \<and> \<not> isEmpty (snd (subscribeAt p c q n))"
proof (induction p arbitrary: n)
  case Nil
  then show ?case by (cases n) (simp add: setSubscribers_def isEmpty_def)
next
  case (Cons l p)
  with Cons.IH [OF trie_ok_childFor] show ?case
    by (simp add: split_beta Let_def trie_ok_setChild)
qed

lemma look_empty: "isEmpty n \<Longrightarrow> look p n = Map.empty"
  by (cases p) (auto simp: isEmpty_def lookupChild_def)

lemma removeAt_None: "removeAt p c n = None \<longleftrightarrow> look p n c = None"
proof (induction p arbitrary: n)
  case (Cons l p)
  show ?case
  proof (cases "lookupChild n l")
    case (Some child)
    with Cons [of child] show ?thesis by (cases "removeAt p c child") auto
  qed simp
qed simp

lemma removeAt_look:
  "removeAt p c n = Some n' \<Longrightarrow> look p' n' c' = (if p' = p \<and> c' = c then None else look p' n c')"
proof (induction p arbitrary: n n' p')
  case Nil
  then show ?case by (cases p') (auto split: if_splits)
next
  case (Cons l p)
  then obtain nx nx' where n: "lookupChild n l = Some nx" "removeAt p c nx = Some nx'"
    and n': "n' = (if isEmpty nx' then detach n l else setChild n l nx')"
    by (auto split: option.splits)
  show ?case
  proof (cases p')
    case Nil
    with n' show ?thesis by auto
  next
    case (Cons l' ls)
    have IH: "look ls nx' c' = (if ls = p \<and> c' = c then None else look ls nx c')"
      using Cons.IH n(2) by blast
    have "look ls nx' c' = None" if "isEmpty nx'" using that by (simp add: look_empty)
    with IH n(1) n' Cons show ?thesis by auto
  qed
qed

lemma removeAt_ok:
  "trie_ok n \<Longrightarrow> removeAt p c n = Some n' \<Longrightarrow> trie_ok n'"
proof (induction p arbitrary: n n')
  case Nil
  then show ?case by (cases n) (auto simp: setSubscribers_def split: if_splits)
next
  case (Cons l p)
  then obtain nx nx' where n: "lookupChild n l = Some nx" "removeAt p c nx = Some nx'"
    and n': "n' = (if isEmpty nx' then detach n l else setChild n l nx')"
    by (auto split: option.splits)
  from Cons.IH [OF trie_ok_child(1) [OF Cons.prems(1) n(1)] n(2)] Cons.prems(1) n'
  show ?case by (auto simp: trie_ok_detach trie_ok_setChild)
qed

text \<open>A pruned trie that is not empty holds a subscription.\<close>

lemma trie_ok_inhabited:
  "trie_ok n \<Longrightarrow> \<not> isEmpty n \<Longrightarrow> \<exists>p c. look p n c \<noteq> None"
proof (induction n)
  case (TrieNode ch s m subs)
  consider (subs) x xs where "subs = x # xs" | (ch) l t xs where "ch = (l, t) # xs"
    | (s) t where "s = Some t" | (m) t where "m = Some t"
    using TrieNode.prems(2) by (cases subs; cases ch; cases s; cases m) (auto simp: isEmpty_def)
  then show ?case
  proof cases
    case subs
    then have "look [] (TrieNode ch s m subs) (fst x) \<noteq> None" by (cases x) simp
    then show ?thesis by blast
  next
    case ch
    with TrieNode.prems(1) have l: "l \<noteq> SingleLevelWildcard" "l \<noteq> MultiLevelWildcard" "trie_ok t" "\<not> isEmpty t"
      by auto
    with TrieNode.IH(1) [of "(l, t)"] ch obtain p c where "look p t c \<noteq> None" by auto
    with ch l have "look (l # p) (TrieNode ch s m subs) c \<noteq> None" by (simp add: lookupChild_def)
    then show ?thesis by blast
  next
    case s
    with TrieNode.prems(1) TrieNode.IH(2) [of t] obtain p c where "look p t c \<noteq> None" by auto
    with s have "look (SingleLevelWildcard # p) (TrieNode ch s m subs) c \<noteq> None" by (simp add: lookupChild_def)
    then show ?thesis by blast
  next
    case m
    with TrieNode.prems(1) TrieNode.IH(3) [of t] obtain p c where "look p t c \<noteq> None" by auto
    with m have "look (MultiLevelWildcard # p) (TrieNode ch s m subs) c \<noteq> None" by (simp add: lookupChild_def)
    then show ?thesis by blast
  qed
qed

subsection \<open>Matching\<close>

text \<open>\<open>best A x\<close>: \<open>x\<close> is the greatest element of \<open>A\<close>, or there is none.\<close>

definition best :: "qos set \<Rightarrow> qos option \<Rightarrow> bool" where
  "best A x = (case x of None \<Rightarrow> A = {} | Some q \<Rightarrow> q \<in> A \<and> (\<forall>q' \<in> A. q' \<le> q))"

lemma best_unique: "best A x \<Longrightarrow> best A y \<Longrightarrow> x = y"
  by (auto simp: best_def split: option.splits intro: antisym)

lemma collectStep_best:
  assumes "best A (mget m c)"
  shows "best (if c = c' then insert q A else A) (mget (collectStep m (c', q)) c)"
  using assms by (auto simp: collectStep_def best_def split: option.splits)

lemma collectStep_ok: "map_ok m \<Longrightarrow> map_ok (collectStep m x)"
  by (auto simp: collectStep_def split: prod.split option.split)

lemma collect_ok: "map_ok m \<Longrightarrow> map_ok (collect n m)"
proof -
  have "map_ok m \<Longrightarrow> map_ok (foldl collectStep m subs)" for subs
    by (induction subs arbitrary: m) (simp_all add: collectStep_ok)
  then show "map_ok m \<Longrightarrow> map_ok (collect n m)" by (simp add: collect_def)
qed

lemma collect_fold_best:
  assumes "map_ok subs" and "best A (mget m c)"
  shows "best (A \<union> set_option (mget subs c)) (mget (foldl collectStep m subs) c)"
  using assms
proof (induction subs arbitrary: m A)
  case (Cons x subs)
  obtain c' q where x: "x = (c', q)" by (cases x)
  have "best (if c = c' then insert q A else A) (mget (collectStep m x) c)"
    using collectStep_best [OF Cons.prems(2)] by (simp add: x)
  from Cons.IH [OF _ this] Cons.prems(1) x
  have IH: "best ((if c = c' then insert q A else A) \<union> set_option (mget subs c)) (mget (foldl collectStep m (x # subs)) c)"
    by simp
  have "(if c = c' then insert q A else A) \<union> set_option (mget subs c) = A \<union> set_option (mget (x # subs) c)"
    using Cons.prems(1) x by auto
  with IH show ?case by simp
qed simp

lemma collect_best:
  "trie_ok n \<Longrightarrow> best A (mget m c) \<Longrightarrow> best (A \<union> set_option (look [] n c)) (mget (collect n m) c)"
  by (cases n) (simp add: collect_def collect_fold_best)

text \<open>The paths of a trie that \<open>walk\<close> reaches, and the levels it collects for a client.\<close>

fun path_match :: "bool \<Rightarrow> level list \<Rightarrow> level list \<Rightarrow> bool" where
  "path_match skip [] ts = (ts = [])"
| "path_match skip (f # fs) ts =
     (if f = MultiLevelWildcard then \<not> skip \<and> fs = []
      else case ts of [] \<Rightarrow> False
        | t # ts' \<Rightarrow> (if f = SingleLevelWildcard then \<not> skip else f = t) \<and> path_match False fs ts')"

definition reached :: "bool \<Rightarrow> trieNode \<Rightarrow> level list \<Rightarrow> client_id \<Rightarrow> qos set" where
  "reached skip n ts c = {q. \<exists>p. path_match skip p ts \<and> look p n c = Some q}"

lemma reached_Nil:
  "reached skip n [] c = (if skip then {} else set_option (look [MultiLevelWildcard] n c)) \<union> set_option (look [] n c)"
proof -
  have "path_match skip p [] \<longleftrightarrow> p = [] \<or> p = [MultiLevelWildcard] \<and> \<not> skip" for p
    by (cases p) auto
  then show ?thesis by (auto simp: reached_def simp del: look.simps)
qed

lemma reached_Cons:
  assumes "trie_ok n"
  shows "reached skip n (t # ts) c =
     (if skip then {} else set_option (look [MultiLevelWildcard] n c))
     \<union> (case mget (children n) t of None \<Rightarrow> {} | Some ch \<Rightarrow> reached False ch ts c)
     \<union> (if skip then {} else case single n of None \<Rightarrow> {} | Some s \<Rightarrow> reached False s ts c)"
proof -
  have wild: "mget (children n) t = None" if "t = SingleLevelWildcard \<or> t = MultiLevelWildcard"
    using assms that by (cases n) (auto simp: map_of_eq_None_iff)
  have pm: "path_match skip p (t # ts) \<longleftrightarrow>
      p = [MultiLevelWildcard] \<and> \<not> skip
      \<or> (\<exists>p'. p = SingleLevelWildcard # p' \<and> \<not> skip \<and> path_match False p' ts)
      \<or> (\<exists>p'. p = t # p' \<and> t \<noteq> SingleLevelWildcard \<and> t \<noteq> MultiLevelWildcard \<and> path_match False p' ts)" for p
    by (cases p) auto
  have s: "{q. \<exists>p'. path_match False p' ts \<and> look (SingleLevelWildcard # p') n c = Some q}
      = (case single n of None \<Rightarrow> {} | Some s \<Rightarrow> reached False s ts c)"
    by (auto simp: reached_def lookupChild_def split: option.splits)
  have ch: "{q. \<exists>p'. t \<noteq> SingleLevelWildcard \<and> t \<noteq> MultiLevelWildcard \<and> path_match False p' ts
        \<and> look (t # p') n c = Some q}
      = (case mget (children n) t of None \<Rightarrow> {} | Some ch \<Rightarrow> reached False ch ts c)"
    using wild by (auto simp: reached_def lookupChild_def split: option.splits)
  show ?thesis
    unfolding s [symmetric] ch [symmetric] unfolding reached_def pm
    by (auto simp del: look.simps)
qed

lemma multi_best:
  assumes "trie_ok n" and "best A (mget m c)"
  shows "best (A \<union> (if skip then {} else set_option (look [MultiLevelWildcard] n c)))
    (mget (case multi n of None \<Rightarrow> m | Some k \<Rightarrow> if \<not> skip then collect k m else m) c)"
proof (cases "multi n")
  case None
  with assms show ?thesis by (simp add: lookupChild_def)
next
  case (Some k)
  then have "trie_ok k" using trie_ok_child(1) [OF assms(1), of MultiLevelWildcard] by (simp add: lookupChild_def)
  with collect_best [OF this assms(2)] Some assms(2) show ?thesis by (simp add: lookupChild_def)
qed

lemma walk_best:
  assumes "trie_ok n" and "best A (mget m c)"
  shows "best (A \<union> reached skip n ts c) (mget (walk n ts m skip) c)"
  using assms
proof (induction ts arbitrary: n A m skip)
  case Nil
  from collect_best [OF Nil(1) multi_best [OF Nil, of skip]] show ?case
    by (simp add: reached_Nil Un_assoc)
next
  case (Cons t ts)
  let ?m1 = "case multi n of None \<Rightarrow> m | Some k \<Rightarrow> if \<not> skip then collect k m else m"
  let ?A1 = "A \<union> (if skip then {} else set_option (look [MultiLevelWildcard] n c))"
  let ?m2 = "case mget (children n) t of None \<Rightarrow> ?m1 | Some ch \<Rightarrow> walk ch ts ?m1 False"
  let ?A2 = "?A1 \<union> (case mget (children n) t of None \<Rightarrow> {} | Some ch \<Rightarrow> reached False ch ts c)"
  let ?m3 = "case single n of None \<Rightarrow> ?m2 | Some s \<Rightarrow> if \<not> skip then walk s ts ?m2 False else ?m2"
  let ?A3 = "?A2 \<union> (if skip then {} else case single n of None \<Rightarrow> {} | Some s \<Rightarrow> reached False s ts c)"
  have 1: "best ?A1 (mget ?m1 c)" using Cons.prems by (rule multi_best)
  have 2: "best ?A2 (mget ?m2 c)"
  proof (cases "mget (children n) t")
    case None
    with 1 show ?thesis by simp
  next
    case (Some ch)
    then have "trie_ok ch" using Cons.prems(1) by (cases n) (force dest: map_of_SomeD)
    from Cons.IH [OF this 1] Some show ?thesis by simp
  qed
  have 3: "best ?A3 (mget ?m3 c)"
  proof (cases "single n")
    case None
    with 2 show ?thesis by (cases skip) (simp_all del: look.simps)
  next
    case (Some s)
    then have "trie_ok s" using trie_ok_child(1) [OF Cons.prems(1), of SingleLevelWildcard] by (simp add: lookupChild_def)
    from Cons.IH [OF this 2, of False] Some 2 show ?thesis by (cases skip) (simp_all del: look.simps)
  qed
  have "?A3 = A \<union> reached skip n (t # ts) c"
    unfolding reached_Cons [OF Cons.prems(1)] by (simp add: Un_assoc)
  with 3 show ?case by (simp add: Let_def)
qed

lemma walk_map_ok: "map_ok m \<Longrightarrow> map_ok (walk n ts m skip)"
  by (induction ts arbitrary: n m skip) (auto simp: Let_def collect_ok split: option.split)

text \<open>On a filter whose \<open>#\<close> is last, reaching its path is matching it.\<close>

definition filter_ok :: "topic_filter \<Rightarrow> bool" where
  "filter_ok f = (MultiLevelWildcard \<notin> set (butlast (Levels f)))"

lemma path_match_level_match:
  "MultiLevelWildcard \<notin> set (butlast fs) \<Longrightarrow> path_match False fs ts \<longleftrightarrow> level_match fs ts"
proof (induction fs arbitrary: ts)
  case (Cons f fs)
  then show ?case by (cases "fs = []"; cases ts) (auto split: if_splits)
qed simp

lemma path_match_Matches:
  assumes "filter_ok f"
  shows "path_match (IsSystem t) (Levels f) (Levels t) \<longleftrightarrow> Matches f t"
proof -
  obtain l ls where l: "Levels f = l # ls" by (cases "Levels f") auto
  obtain u us where u: "Levels t = u # us" by (cases "Levels t") auto
  have ls: "MultiLevelWildcard \<notin> set (butlast ls)"
    using assms l by (cases "ls = []") (simp_all add: filter_ok_def)
  have last: "l = MultiLevelWildcard \<Longrightarrow> ls = []"
    using assms l by (cases "ls = []") (simp_all add: filter_ok_def)
  show ?thesis
    unfolding Matches_level_match guarded_def l u
    using path_match_level_match [OF ls, of us] last by auto
qed

lemma NewTopicFilter_filter_ok: "NewTopicFilter raw = Inr f \<Longrightarrow> filter_ok f"
  by (simp add: NewTopicFilter_Inr filter_ok_def Levels_def)

subsection \<open>Counting\<close>

definition filled :: "trieNode \<Rightarrow> level list set" where
  "filled n = {p. look p n \<noteq> Map.empty}"

lemma filled_node:
  assumes "trie_ok (TrieNode ch s m subs)"
  shows "filled (TrieNode ch s m subs) =
     (if subs = [] then {} else {[]}) \<union> (\<Union>x \<in> set ch. (#) (fst x) ` filled (snd x))
     \<union> (case s of None \<Rightarrow> {} | Some n \<Rightarrow> (#) SingleLevelWildcard ` filled n)
     \<union> (case m of None \<Rightarrow> {} | Some n \<Rightarrow> (#) MultiLevelWildcard ` filled n)"
proof -
  have ch: "mget ch l = Some t \<longleftrightarrow> (l, t) \<in> set ch" for l t
    using assms by (simp add: map_ok_in_set)
  have wild: "(SingleLevelWildcard, t) \<notin> set ch" "(MultiLevelWildcard, t) \<notin> set ch" for t
    using assms by force+
  have mem: "p \<in> filled (TrieNode ch s m subs) \<longleftrightarrow>
     (case p of [] \<Rightarrow> subs \<noteq> []
      | l # ls \<Rightarrow> (\<exists>t. (l, t) \<in> set ch \<and> ls \<in> filled t) \<or> (l = SingleLevelWildcard \<and> (\<exists>t. s = Some t \<and> ls \<in> filled t))
         \<or> (l = MultiLevelWildcard \<and> (\<exists>t. m = Some t \<and> ls \<in> filled t)))" for p
  proof (cases p)
    case Nil
    then show ?thesis by (cases subs) (auto simp: filled_def fun_eq_iff split: if_splits)
  next
    case (Cons l ls)
    have "mget ch SingleLevelWildcard = None" "mget ch MultiLevelWildcard = None"
      using wild by (auto simp: map_of_eq_None_iff)
    with Cons show ?thesis
      by (auto simp: filled_def lookupChild_def ch [symmetric] split: option.splits)
  qed
  show ?thesis
  proof (rule set_eqI)
    fix p
    show "p \<in> filled (TrieNode ch s m subs) \<longleftrightarrow> p \<in> (if subs = [] then {} else {[]})
        \<union> (\<Union>x \<in> set ch. (#) (fst x) ` filled (snd x))
        \<union> (case s of None \<Rightarrow> {} | Some n \<Rightarrow> (#) SingleLevelWildcard ` filled n)
        \<union> (case m of None \<Rightarrow> {} | Some n \<Rightarrow> (#) MultiLevelWildcard ` filled n)"
      unfolding mem by (cases p; cases s; cases m) (force simp: image_iff)+
  qed
qed

lemma filled_children:
  assumes "distinct (map fst ch)" and "\<forall>x \<in> set ch. finite (filled (snd x)) \<and> card (filled (snd x)) = countFilters (snd x)"
  shows "finite (\<Union>x \<in> set ch. (#) (fst x) ` filled (snd x))
    \<and> card (\<Union>x \<in> set ch. (#) (fst x) ` filled (snd x)) = sum_list (map (\<lambda>x. countFilters (snd x)) ch)"
  using assms
proof (induction ch)
  case (Cons x ch)
  have "(#) (fst x) ` filled (snd x) \<inter> (\<Union>y \<in> set ch. (#) (fst y) ` filled (snd y)) = {}"
    using Cons.prems(1) by force
  moreover have "card ((#) (fst x) ` filled (snd x)) = card (filled (snd x))"
    by (rule card_image) simp
  ultimately show ?case
    using Cons by (simp add: card_Un_disjoint)
qed simp

lemma card_Un4:
  assumes "finite A" "finite B" "finite C" "finite D"
    and "A \<inter> B = {}" "(A \<union> B) \<inter> C = {}" "(A \<union> B \<union> C) \<inter> D = {}"
  shows "finite (A \<union> B \<union> C \<union> D) \<and> card (A \<union> B \<union> C \<union> D) = card A + card B + card C + card D"
  using assms by (simp add: card_Un_disjoint)

lemma countFilters_filled: "trie_ok n \<Longrightarrow> finite (filled n) \<and> card (filled n) = countFilters n"
proof (induction n)
  case (TrieNode ch s m subs)
  let ?A = "if subs = [] then {} else {[]}"
  let ?B = "\<Union>x \<in> set ch. (#) (fst x) ` filled (snd x)"
  let ?C = "case s of None \<Rightarrow> {} | Some n \<Rightarrow> (#) SingleLevelWildcard ` filled n"
  let ?D = "case m of None \<Rightarrow> {} | Some n \<Rightarrow> (#) MultiLevelWildcard ` filled n"
  have "\<forall>x \<in> set ch. finite (filled (snd x)) \<and> card (filled (snd x)) = countFilters (snd x)"
    using TrieNode.IH(1) TrieNode.prems by (metis trie_ok.simps prod_set_simps(2) singletonI snds.simps)
  with TrieNode.prems have B: "finite ?B" "card ?B = sum_list (map (\<lambda>x. countFilters (snd x)) ch)"
    using filled_children [of ch] by (auto simp: map_ok_def)
  have C: "finite ?C" "card ?C = (case s of None \<Rightarrow> 0 | Some n \<Rightarrow> countFilters n)"
    using TrieNode.IH(2) TrieNode.prems by (auto simp: card_image split: option.splits)
  have D: "finite ?D" "card ?D = (case m of None \<Rightarrow> 0 | Some n \<Rightarrow> countFilters n)"
    using TrieNode.IH(3) TrieNode.prems by (auto simp: card_image split: option.splits)
  have wild: "(SingleLevelWildcard, t) \<notin> set ch" "(MultiLevelWildcard, t) \<notin> set ch" for t
    using TrieNode.prems by force+
  have disj: "?A \<inter> ?B = {}" "(?A \<union> ?B) \<inter> ?C = {}" "(?A \<union> ?B \<union> ?C) \<inter> ?D = {}"
    using wild by (auto split: option.splits if_splits)
  have A: "finite ?A" "card ?A = (if length subs > 0 then 1 else 0)" by auto
  show ?case
    using card_Un4 [OF A(1) B(1) C(1) D(1) disj]
    unfolding filled_node [OF TrieNode.prems] A(2) B(2) C(2) D(2) countFilters.simps .
qed

subsection \<open>The index as a map of subscriptions\<close>

definition granted :: "subscriptionIndex \<Rightarrow> topic_filter \<Rightarrow> client_id \<Rightarrow> qos option" where
  "granted i f c = look (Levels f) (ix_root i) c"

definition holders :: "subscriptionIndex \<Rightarrow> (topic_filter \<times> client_id) set" where
  "holders i = {(f, c). granted i f c \<noteq> None}"

definition index_ok :: "subscriptionIndex \<Rightarrow> bool" where
  "index_ok i \<longleftrightarrow>
     trie_ok (ix_root i)
     \<and> (\<forall>p c. look p (ix_root i) c \<noteq> None \<longrightarrow> (\<exists>f. p = Levels f \<and> filter_ok f))
     \<and> (\<forall>f c. granted i f c \<noteq> None \<longleftrightarrow> (\<exists>fs. mget (ix_clientFilters i) c = Some fs \<and> mget fs f \<noteq> None))
     \<and> finite (holders i) \<and> ix_subscriptionCount i = int (card (holders i))"

lemma New_ok: "index_ok NewSubscriptionIndex"
  by (simp add: index_ok_def NewSubscriptionIndex_def holders_def granted_def)

lemma granted_New: "granted NewSubscriptionIndex f c = None"
  by (simp add: granted_def NewSubscriptionIndex_def)

lemma look_Subscribe:
  "look p (ix_root (index_Subscribe i f c q)) c' = (if p = Levels f \<and> c' = c then Some q else look p (ix_root i) c')"
proof -
  have "ix_root (index_Subscribe i f c q) = snd (subscribeAt (Levels f) c q (ix_root i))"
    by (simp add: index_Subscribe_def split_beta Let_def)
  then show ?thesis using subscribeAt_look [of "Levels f" c q "ix_root i" p c'] by simp
qed

lemma granted_Subscribe:
  "granted (index_Subscribe i f c q) f' c' = (if f' = f \<and> c' = c then Some q else granted i f' c')"
  by (simp add: granted_def look_Subscribe)

lemma granted_removeLocked:
  "granted (removeLocked i f c) f' c' = (if f' = f \<and> c' = c then None else granted i f' c')"
proof (cases "removeAt (Levels f) c (ix_root i)")
  case None
  then have "look (Levels f) (ix_root i) c = None" by (simp add: removeAt_None)
  with None show ?thesis by (auto simp: removeLocked_def granted_def)
next
  case (Some root)
  from removeAt_look [OF Some, of "Levels f'" c'] Some show ?thesis
    by (simp add: removeLocked_def granted_def)
qed

lemma root_Unsubscribe: "ix_root (index_Unsubscribe i f c) = ix_root (removeLocked i f c)"
  by (simp add: index_Unsubscribe_def Let_def split: option.split)

lemma granted_Unsubscribe:
  "granted (index_Unsubscribe i f c) f' c' = (if f' = f \<and> c' = c then None else granted i f' c')"
  using granted_removeLocked [of i f c f' c'] by (simp add: granted_def root_Unsubscribe)

lemma granted_removeLoop:
  "granted (foldl (\<lambda>i filt. removeLocked i (fst filt) c) i fs) f' c'
    = (if c' = c \<and> f' \<in> fst ` set fs then None else granted i f' c')"
  by (induction fs arbitrary: i) (auto simp: granted_removeLocked)

lemma granted_UnsubscribeAll:
  assumes "index_ok i"
  shows "granted (UnsubscribeAll i c) f' c' = (if c' = c then None else granted i f' c')"
proof -
  define fs where "fs = (case mget (ix_clientFilters i) c of None \<Rightarrow> [] | Some fs \<Rightarrow> fs)"
  have "granted (UnsubscribeAll i c) f' c' = (if c' = c \<and> f' \<in> fst ` set fs then None else granted i f' c')"
    using granted_removeLoop [of c i fs f' c'] by (simp add: UnsubscribeAll_def fs_def Let_def granted_def)
  moreover have "f' \<notin> fst ` set fs \<Longrightarrow> granted i f' c = None"
  proof (rule ccontr)
    assume f': "f' \<notin> fst ` set fs" and "granted i f' c \<noteq> None"
    with assms obtain gs where "mget (ix_clientFilters i) c = Some gs" "mget gs f' \<noteq> None"
      unfolding index_ok_def by blast
    with f' show False by (simp add: fs_def map_of_eq_None_iff)
  qed
  ultimately show ?thesis by auto
qed

subsection \<open>The invariant is kept\<close>

lemma holders_Subscribe: "holders (index_Subscribe i f c q) = insert (f, c) (holders i)"
  by (auto simp: holders_def granted_Subscribe split: if_splits)

lemma count_Subscribe:
  "ix_subscriptionCount (index_Subscribe i f c q)
    = (if (f, c) \<in> holders i then ix_subscriptionCount i else ix_subscriptionCount i + 1)"
  using subscribeAt_look [of "Levels f" c q "ix_root i"]
  by (auto simp: index_Subscribe_def holders_def granted_def split_beta Let_def)

lemma Subscribe_index_ok:
  assumes "index_ok i" and "filter_ok f"
  shows "index_ok (index_Subscribe i f c q)"
proof -
  let ?i = "index_Subscribe i f c q"
  have "trie_ok (ix_root ?i)"
    using assms(1) subscribeAt_ok by (simp add: index_ok_def index_Subscribe_def split_beta Let_def)
  moreover have "\<forall>p d. look p (ix_root ?i) d \<noteq> None \<longrightarrow> (\<exists>f. p = Levels f \<and> filter_ok f)"
    using assms unfolding look_Subscribe index_ok_def by metis
  moreover have "\<forall>g d. granted ?i g d \<noteq> None \<longleftrightarrow> (\<exists>fs. mget (ix_clientFilters ?i) d = Some fs \<and> mget fs g \<noteq> None)"
  proof (intro allI)
    fix g d
    have cf: "mget (ix_clientFilters ?i) d = (if d = c then Some (mput f ()
        (case mget (ix_clientFilters i) c of None \<Rightarrow> [] | Some fs \<Rightarrow> fs)) else mget (ix_clientFilters i) d)"
      by (simp add: index_Subscribe_def split_beta Let_def)
    have old: "granted i g d \<noteq> None \<longleftrightarrow> (\<exists>fs. mget (ix_clientFilters i) d = Some fs \<and> mget fs g \<noteq> None)"
      using assms(1) by (simp add: index_ok_def)
    show "granted ?i g d \<noteq> None \<longleftrightarrow> (\<exists>fs. mget (ix_clientFilters ?i) d = Some fs \<and> mget fs g \<noteq> None)"
      unfolding cf granted_Subscribe using old by (cases "mget (ix_clientFilters i) c") auto
  qed
  moreover have "finite (holders ?i) \<and> ix_subscriptionCount ?i = int (card (holders ?i))"
    using assms(1) by (simp add: index_ok_def holders_Subscribe count_Subscribe card_insert_if)
  ultimately show ?thesis by (simp add: index_ok_def)
qed

text \<open>What a removal leaves of the trie and of the counter, whatever the filters recorded per client.\<close>

definition core_ok :: "subscriptionIndex \<Rightarrow> bool" where
  "core_ok i \<longleftrightarrow>
     trie_ok (ix_root i) \<and> (\<forall>p c. look p (ix_root i) c \<noteq> None \<longrightarrow> (\<exists>f. p = Levels f \<and> filter_ok f))
     \<and> finite (holders i) \<and> ix_subscriptionCount i = int (card (holders i))"

lemma removeLocked_core:
  assumes "core_ok i"
  shows "core_ok (removeLocked i f c)" and "ix_clientFilters (removeLocked i f c) = ix_clientFilters i"
proof -
  show "ix_clientFilters (removeLocked i f c) = ix_clientFilters i"
    by (simp add: removeLocked_def split: option.split)
  have h: "holders (removeLocked i f c) = holders i - {(f, c)}"
    by (auto simp: holders_def granted_removeLocked split: if_splits)
  show "core_ok (removeLocked i f c)"
  proof (cases "removeAt (Levels f) c (ix_root i)")
    case None
    with assms show ?thesis by (simp add: removeLocked_def)
  next
    case (Some root)
    have "(f, c) \<in> holders i"
      using Some removeAt_None [of "Levels f" c "ix_root i"] by (simp add: holders_def granted_def)
    moreover have "trie_ok root" using removeAt_ok Some assms by (auto simp: core_ok_def)
    moreover have "\<forall>p d. look p root d \<noteq> None \<longrightarrow> (\<exists>f. p = Levels f \<and> filter_ok f)"
      using assms unfolding removeAt_look [OF Some] core_ok_def by metis
    ultimately show ?thesis
      using assms Some card_gt_0_iff [of "holders i"] unfolding core_ok_def h
      by (auto simp: removeLocked_def card_Diff_singleton of_nat_diff Suc_leI)
  qed
qed

lemma removeLoop_core:
  assumes "core_ok i"
  shows "core_ok (foldl (\<lambda>i filt. removeLocked i (fst filt) c) i fs)
    \<and> ix_clientFilters (foldl (\<lambda>i filt. removeLocked i (fst filt) c) i fs) = ix_clientFilters i"
  using assms by (induction fs arbitrary: i) (simp_all add: removeLocked_core)

lemma core_filters:
  "core_ok (i\<lparr>ix_clientFilters := cf\<rparr>) = core_ok i" "granted (i\<lparr>ix_clientFilters := cf\<rparr>) = granted i"
  by (simp_all add: core_ok_def holders_def granted_def fun_eq_iff)

lemma index_ok_core:
  "index_ok i \<longleftrightarrow> core_ok i \<and>
     (\<forall>f c. granted i f c \<noteq> None \<longleftrightarrow> (\<exists>fs. mget (ix_clientFilters i) c = Some fs \<and> mget fs f \<noteq> None))"
  by (auto simp: index_ok_def core_ok_def)

lemma Unsubscribe_index_ok:
  assumes "index_ok i"
  shows "index_ok (index_Unsubscribe i f c)"
proof -
  let ?j = "removeLocked i f c"
  let ?i = "index_Unsubscribe i f c"
  have core: "core_ok ?j" "ix_clientFilters ?j = ix_clientFilters i"
    using removeLocked_core assms by (auto simp: index_ok_core)
  have "\<exists>cf. ?i = ?j\<lparr>ix_clientFilters := cf\<rparr>"
    using core(2) by (auto simp: index_Unsubscribe_def Let_def split: option.split intro: exI [of _ "ix_clientFilters ?j"])
  then have "core_ok ?i" using core(1) core_filters by metis
  moreover have "\<forall>g d. granted ?i g d \<noteq> None \<longleftrightarrow> (\<exists>fs. mget (ix_clientFilters ?i) d = Some fs \<and> mget fs g \<noteq> None)"
  proof (intro allI)
    fix g d
    have old: "granted i g d \<noteq> None \<longleftrightarrow> (\<exists>fs. mget (ix_clientFilters i) d = Some fs \<and> mget fs g \<noteq> None)"
      using assms by (simp add: index_ok_def)
    show "granted ?i g d \<noteq> None \<longleftrightarrow> (\<exists>fs. mget (ix_clientFilters ?i) d = Some fs \<and> mget fs g \<noteq> None)"
    proof (cases "mget (ix_clientFilters i) c")
      case None
      then have "ix_clientFilters ?i = ix_clientFilters i"
        using core(2) by (simp add: index_Unsubscribe_def Let_def)
      with None old show ?thesis by (auto simp: granted_Unsubscribe)
    next
      case (Some fs)
      have cf: "mget (ix_clientFilters ?i) d =
          (if d = c then (if mdel f fs = [] then None else Some (mdel f fs)) else mget (ix_clientFilters i) d)"
        using Some core(2) by (simp add: index_Unsubscribe_def Let_def)
      have "mdel f fs = [] \<Longrightarrow> g \<noteq> f \<Longrightarrow> mget fs g = None"
        using mget_mdel [of f fs g] by simp
      with Some old show ?thesis unfolding cf granted_Unsubscribe by auto
    qed
  qed
  ultimately show ?thesis by (simp add: index_ok_core)
qed

lemma UnsubscribeAll_index_ok:
  assumes "index_ok i"
  shows "index_ok (UnsubscribeAll i c)"
proof -
  let ?i = "UnsubscribeAll i c"
  define fs where "fs = (case mget (ix_clientFilters i) c of None \<Rightarrow> [] | Some fs \<Rightarrow> fs)"
  define j where "j = foldl (\<lambda>i filt. removeLocked i (fst filt) c) i fs"
  have i: "?i = j\<lparr>ix_clientFilters := mdel c (ix_clientFilters j)\<rparr>"
    by (simp add: UnsubscribeAll_def fs_def j_def Let_def)
  have j: "core_ok j" "ix_clientFilters j = ix_clientFilters i"
    using removeLoop_core assms by (auto simp: index_ok_core j_def)
  have "granted ?i g d \<noteq> None \<longleftrightarrow> (\<exists>fs. mget (ix_clientFilters ?i) d = Some fs \<and> mget fs g \<noteq> None)" for g d
    using assms unfolding granted_UnsubscribeAll [OF assms]
    by (auto simp: i j(2) index_ok_core)
  moreover have "core_ok ?i" using j(1) by (simp add: i core_filters)
  ultimately show ?thesis by (simp add: index_ok_core)
qed

lemma best_eq: "best A x \<Longrightarrow> x = y \<longleftrightarrow> best A y"
  by (blast intro: best_unique)

lemma Match_pairs:
  "\<lparr>sr_ClientID = c, sr_GrantedQoS = q\<rparr> \<in> set (Match i t) \<longleftrightarrow>
     mget (walk (ix_root i) (Levels t) [] (IsSystem t)) c = Some q"
proof -
  have "map_ok (walk (ix_root i) (Levels t) [] (IsSystem t))" by (simp add: walk_map_ok)
  from map_ok_in_set [OF this, of c q] show ?thesis
    by (force simp: Match_def Levels_def Let_def)
qed

lemma Match_distinct: "distinct (map sr_ClientID (Match i t))"
proof -
  have "map_ok (walk (ix_root i) (Levels t) [] (IsSystem t))" by (simp add: walk_map_ok)
  moreover have "map sr_ClientID (Match i t) = map fst (walk (ix_root i) (Levels t) [] (IsSystem t))"
    by (simp add: Match_def Levels_def Let_def split_beta)
  ultimately show ?thesis by (simp add: map_ok_def)
qed

lemma Match_best:
  assumes "index_ok i"
  shows "best {q. \<exists>f. granted i f c = Some q \<and> Matches f t}
    (mget (walk (ix_root i) (Levels t) [] (IsSystem t)) c)"
proof -
  have "best ({} \<union> reached (IsSystem t) (ix_root i) (Levels t) c) (mget (walk (ix_root i) (Levels t) [] (IsSystem t)) c)"
    using assms by (intro walk_best) (simp_all add: index_ok_def best_def)
  moreover have "reached (IsSystem t) (ix_root i) (Levels t) c = {q. \<exists>f. granted i f c = Some q \<and> Matches f t}"
  proof (intro set_eqI iffI)
    fix q assume "q \<in> reached (IsSystem t) (ix_root i) (Levels t) c"
    then obtain p where p: "path_match (IsSystem t) p (Levels t)" "look p (ix_root i) c = Some q"
      by (auto simp: reached_def)
    with assms obtain f where "p = Levels f" "filter_ok f" unfolding index_ok_def by blast
    with p show "q \<in> {q. \<exists>f. granted i f c = Some q \<and> Matches f t}"
      using path_match_Matches by (auto simp: granted_def)
  next
    fix q assume "q \<in> {q. \<exists>f. granted i f c = Some q \<and> Matches f t}"
    then obtain f where f: "look (Levels f) (ix_root i) c = Some q" "Matches f t" by (auto simp: granted_def)
    with assms have "filter_ok f" unfolding index_ok_def by (metis Levels_inject option.distinct(1))
    with f show "q \<in> reached (IsSystem t) (ix_root i) (Levels t) c"
      using path_match_Matches by (auto simp: reached_def)
  qed
  ultimately show ?thesis by simp
qed

subsection \<open>The contract of a subscription index\<close>

text \<open>
  The promises of \<open>ISubscriptionIndex\<close>, over an abstract map \<open>grant\<close> of subscriptions. Its
  clients, the publishing and the subscribing service, rely on these alone.
\<close>

locale subscription_index =
  fixes ok :: "'i \<Rightarrow> bool" and grant :: "'i \<Rightarrow> topic_filter \<Rightarrow> client_id \<Rightarrow> qos option"
    and subscribe :: "'i \<Rightarrow> topic_filter \<Rightarrow> client_id \<Rightarrow> qos \<Rightarrow> 'i"
    and unsubscribe :: "'i \<Rightarrow> topic_filter \<Rightarrow> client_id \<Rightarrow> 'i"
    and unsubscribeAll :: "'i \<Rightarrow> client_id \<Rightarrow> 'i"
    and matching :: "'i \<Rightarrow> topic_name \<Rightarrow> subscriber list"
  assumes subscribe_ok: "ok i \<Longrightarrow> filter_ok f \<Longrightarrow> ok (subscribe i f c q)"
    and unsubscribe_ok: "ok i \<Longrightarrow> ok (unsubscribe i f c)"
    and unsubscribeAll_ok: "ok i \<Longrightarrow> ok (unsubscribeAll i c)"
    and grant_subscribe: "ok i \<Longrightarrow>
      grant (subscribe i f c q) f' c' = (if f' = f \<and> c' = c then Some q else grant i f' c')"
    and grant_unsubscribe: "ok i \<Longrightarrow>
      grant (unsubscribe i f c) f' c' = (if f' = f \<and> c' = c then None else grant i f' c')"
    and grant_unsubscribeAll: "ok i \<Longrightarrow>
      grant (unsubscribeAll i c) f' c' = (if c' = c then None else grant i f' c')"
    and matching_once: "ok i \<Longrightarrow> distinct (map sr_ClientID (matching i t))"
    and matching_iff: "ok i \<Longrightarrow> \<lparr>sr_ClientID = c, sr_GrantedQoS = q\<rparr> \<in> set (matching i t) \<longleftrightarrow>
      best {q. \<exists>f. grant i f c = Some q \<and> Matches f t} (Some q)"
begin

lemma matching_subscribed:
  assumes "ok i" and "filter_ok f" and "Matches f t"
  shows "\<exists>q' \<ge> q. \<lparr>sr_ClientID = c, sr_GrantedQoS = q'\<rparr> \<in> set (matching (subscribe i f c q) t)"
proof -
  let ?A = "{q'. \<exists>g. grant (subscribe i f c q) g c = Some q' \<and> Matches g t}"
  have q: "q \<in> ?A" using assms by (auto simp: grant_subscribe)
  have "finite ?A" by (rule finite_subset [OF subset_UNIV]) simp
  with q have "Max ?A \<in> ?A" "q \<le> Max ?A" "\<forall>q' \<in> ?A. q' \<le> Max ?A"
    using Max_in [of ?A] by auto
  then have "best ?A (Some (Max ?A))" by (simp add: best_def)
  with matching_iff [OF subscribe_ok [OF assms(1,2)]] \<open>q \<le> Max ?A\<close> show ?thesis by blast
qed

lemma matching_after_unsubscribeAll:
  assumes "ok i"
  shows "\<lparr>sr_ClientID = c, sr_GrantedQoS = q\<rparr> \<notin> set (matching (unsubscribeAll i c) t)"
  using matching_iff [OF unsubscribeAll_ok [OF assms]] grant_unsubscribeAll [OF assms] by (simp add: best_def)

lemma matching_other_client:
  assumes "ok i" and "d \<noteq> c" and "filter_ok f"
  shows "\<lparr>sr_ClientID = d, sr_GrantedQoS = q\<rparr> \<in> set (matching (subscribe i f c r) t) \<longleftrightarrow>
      \<lparr>sr_ClientID = d, sr_GrantedQoS = q\<rparr> \<in> set (matching i t)"
    and "\<lparr>sr_ClientID = d, sr_GrantedQoS = q\<rparr> \<in> set (matching (unsubscribeAll i c) t) \<longleftrightarrow>
      \<lparr>sr_ClientID = d, sr_GrantedQoS = q\<rparr> \<in> set (matching i t)"
  using assms by (simp_all add: matching_iff subscribe_ok unsubscribeAll_ok grant_subscribe grant_unsubscribeAll)

end

interpretation trie: subscription_index index_ok granted index_Subscribe index_Unsubscribe UnsubscribeAll Match
proof
  fix i f c q t
  assume ok: "index_ok i"
  show "filter_ok f \<Longrightarrow> index_ok (index_Subscribe i f c q)" using ok by (rule Subscribe_index_ok)
  show "\<lparr>sr_ClientID = c, sr_GrantedQoS = q\<rparr> \<in> set (Match i t) \<longleftrightarrow>
      best {q. \<exists>f. granted i f c = Some q \<and> Matches f t} (Some q)"
    unfolding Match_pairs using Match_best [OF ok, of c t] by (rule best_eq)
qed (simp_all add: Unsubscribe_index_ok UnsubscribeAll_index_ok granted_Subscribe granted_Unsubscribe
    granted_UnsubscribeAll Match_distinct)

subsection \<open>Properties\<close>

text \<open>The states of the index that the broker can produce: its filters passed the constructor.\<close>

inductive reachable_index :: "subscriptionIndex \<Rightarrow> bool" where
  new: "reachable_index NewSubscriptionIndex"
| subscribe: "reachable_index i \<Longrightarrow> NewTopicFilter raw = Inr f \<Longrightarrow> reachable_index (index_Subscribe i f c q)"
| unsubscribe: "reachable_index i \<Longrightarrow> reachable_index (index_Unsubscribe i f c)"
| unsubscribeAll: "reachable_index i \<Longrightarrow> reachable_index (UnsubscribeAll i c)"

lemma reachable_index_ok: "reachable_index i \<Longrightarrow> index_ok i"
  by (induction rule: reachable_index.induct)
    (simp_all add: New_ok trie.subscribe_ok trie.unsubscribe_ok trie.unsubscribeAll_ok NewTopicFilter_filter_ok)

definition sample_index :: subscriptionIndex where
  "sample_index = index_Subscribe (index_Subscribe NewSubscriptionIndex ''a/#'' ''c'' 0) ''a/+'' ''c'' 1"

lemma sample_filters: "NewTopicFilter ''a/#'' = Inr ''a/#''" "NewTopicFilter ''a/+'' = Inr ''a/+''"
  by (simp_all add: NewTopicFilter_Inr MaxTopicLength_def MaxTopicLevels_def SingleLevelWildcard_def
      MultiLevelWildcard_def)

lemma sample_index_reachable: "reachable_index sample_index"
  unfolding sample_index_def
  by (intro reachable_index.intros) (rule sample_filters)+

text \<open>Claim C2. The trie agrees with the reference definition of topic matching: whatever
  sequence of subscriptions and removals produced the index, \<open>Match\<close> returns a client at a
  level exactly when that level is the highest one granted to the client by a filter for
  which \<open>TopicFilter.Matches\<close> holds, and it returns no client twice.\<close>

theorem Match_agrees_with_Matches:
  assumes "reachable_index i"
  shows "distinct (map sr_ClientID (Match i t))
    \<and> (\<lparr>sr_ClientID = c, sr_GrantedQoS = q\<rparr> \<in> set (Match i t) \<longleftrightarrow>
        (\<exists>f. granted i f c = Some q \<and> Matches f t)
        \<and> (\<forall>f q'. granted i f c = Some q' \<and> Matches f t \<longrightarrow> q' \<le> q))"
  using trie.matching_iff [OF reachable_index_ok [OF assms], of c q t] trie.matching_once [OF reachable_index_ok [OF assms]]
  by (auto simp: best_def)

lemma Match_agrees_with_Matches_witness:
  "distinct (map sr_ClientID (Match sample_index ''a/b''))
    \<and> (\<lparr>sr_ClientID = ''c'', sr_GrantedQoS = 1\<rparr> \<in> set (Match sample_index ''a/b'') \<longleftrightarrow>
        (\<exists>f. granted sample_index f ''c'' = Some 1 \<and> Matches f ''a/b'')
        \<and> (\<forall>f q'. granted sample_index f ''c'' = Some q' \<and> Matches f ''a/b'' \<longrightarrow> q' \<le> 1))"
  by (rule Match_agrees_with_Matches) (rule sample_index_reachable)

text \<open>The index is the map of subscriptions the operations describe: subscribing
  sets the level of one pair of filter and client, unsubscribing clears one pair, and
  \<open>UnsubscribeAll\<close> clears every pair of one client; every other pair keeps its level.\<close>

theorem index_operations:
  assumes "reachable_index i"
  shows "granted (index_Subscribe i f c q) f' c' = (if f' = f \<and> c' = c then Some q else granted i f' c')
    \<and> granted (index_Unsubscribe i f c) f' c' = (if f' = f \<and> c' = c then None else granted i f' c')
    \<and> granted (UnsubscribeAll i c) f' c' = (if c' = c then None else granted i f' c')"
  using granted_UnsubscribeAll [OF reachable_index_ok [OF assms]]
  by (simp add: granted_Subscribe granted_Unsubscribe)

lemma index_operations_witness:
  "granted (index_Subscribe sample_index ''x'' ''d'' 1) ''x'' ''d''
      = (if ''x'' = ''x'' \<and> ''d'' = ''d'' then Some 1 else granted sample_index ''x'' ''d'')
    \<and> granted (index_Unsubscribe sample_index ''x'' ''d'') ''x'' ''d''
      = (if ''x'' = ''x'' \<and> ''d'' = ''d'' then None else granted sample_index ''x'' ''d'')
    \<and> granted (UnsubscribeAll sample_index ''d'') ''x'' ''d''
      = (if ''d'' = ''d'' then None else granted sample_index ''x'' ''d'')"
  by (rule index_operations) (rule sample_index_reachable)

text \<open>The two counters are exact: \<open>SubscriptionCount\<close> is the number of pairs of
  filter and client, \<open>FilterCount\<close> the number of distinct filters; and the trie is pruned, so
  that an index without subscriptions is back to its empty root node.\<close>

theorem index_counts:
  assumes "reachable_index i"
  shows "index_SubscriptionCount i = int (card {(f, c). granted i f c \<noteq> None})
    \<and> FilterCount i = card {f. \<exists>c. granted i f c \<noteq> None}
    \<and> ((\<forall>f c. granted i f c = None) \<longrightarrow> isEmpty (ix_root i))"
proof -
  have ok: "index_ok i" using assms by (rule reachable_index_ok)
  then have trie: "trie_ok (ix_root i)"
    and paths: "look p (ix_root i) c \<noteq> None \<Longrightarrow> \<exists>f. p = Levels f" for p c
    unfolding index_ok_def by blast+
  have "p \<in> filled (ix_root i) \<longleftrightarrow> (\<exists>c. look p (ix_root i) c \<noteq> None)" for p
    by (auto simp: filled_def fun_eq_iff)
  then have "filled (ix_root i) = Levels ` {f. \<exists>c. granted i f c \<noteq> None}"
    using paths unfolding granted_def by blast
  moreover have "inj_on Levels {f. \<exists>c. granted i f c \<noteq> None}" by (simp add: inj_on_def)
  ultimately have "FilterCount i = card {f. \<exists>c. granted i f c \<noteq> None}"
    using countFilters_filled [OF trie] by (metis FilterCount_def card_image)
  moreover have "(\<forall>f c. granted i f c = None) \<longrightarrow> isEmpty (ix_root i)"
    using trie_ok_inhabited [OF trie] paths unfolding granted_def by metis
  ultimately show ?thesis
    using ok by (simp add: index_ok_def index_SubscriptionCount_def holders_def)
qed

lemma index_counts_witness:
  "index_SubscriptionCount sample_index = int (card {(f, c). granted sample_index f c \<noteq> None})
    \<and> FilterCount sample_index = card {f. \<exists>c. granted sample_index f c \<noteq> None}"
  using index_counts [OF sample_index_reachable] by blast

end
