(* ===== verification/Publishing.thy ===== *)
theory Publishing
  imports Connections Subscription_Index
begin

text \<open>
  The publishing service (\<open>pkg/application/publishing/service.go\<close>) and the state of the
  broker that the services share. The record \<open>broker\<close> holds the subscription index, the
  session store, the retained store, the client registry, the connected clients and
  connections (by reference), the sinks and the counters of the publishing service, and the
  clock. An operation of a service is a function on this record: the services serialise on
  the locks of the stores, and the model runs each operation as one step, with the clock
  pinned for its duration (as \<open>clock.Fake\<close> does). Logging and metrics are left out.

  The lemmas show where a message goes: exactly the matching subscribers, at the effective
  level, sent, queued or dropped; that the window and the queue act as flow control; and that
  retransmission and resumption keep the order of sending.
\<close>

subsection \<open>The state of the broker\<close>

type_synonym conn_ref = nat

record config =
  cf_ResumeBatchSize :: int
  cf_SessionLimits :: limits
  cf_MaxKeepAlive :: u16
  cf_AllowAnonymous :: bool
  cf_MaxPayloadBytes :: int
  cf_TransportMaxPayloadBytes :: int

record broker =
  b_index :: subscriptionIndex
  b_sessions :: session_store
  b_retained :: retained_store
  b_registry :: client_registry
  b_clients :: "(client_ref, client) gomap"
  b_conns :: "(conn_ref, conn) gomap"
  b_sinks :: "(client_id, conn_ref) gomap"
  b_published :: u64
  b_delivered :: u64
  b_dropped :: u64
  b_now :: time
  b_wall :: time
  b_cfg :: config

definition publishing_withDefaults :: "config \<Rightarrow> config" where
  "publishing_withDefaults c = (if cf_ResumeBatchSize c \<le> 0 then c\<lparr>cf_ResumeBatchSize := 64\<rparr> else c)"

definition NewBroker :: "config \<Rightarrow> time \<Rightarrow> time \<Rightarrow> broker" where
  "NewBroker cfg now wall =
     \<lparr>b_index = NewSubscriptionIndex, b_sessions = NewSessionStore, b_retained = NewRetainedStore,
      b_registry = NewClientRegistry, b_clients = [], b_conns = [], b_sinks = [], b_published = 0,
      b_delivered = 0, b_dropped = 0, b_now = now, b_wall = wall, b_cfg = publishing_withDefaults cfg\<rparr>"

subsection \<open>Sinks\<close>

definition RegisterSink :: "broker \<Rightarrow> client_id \<Rightarrow> conn_ref \<Rightarrow> conn_ref option \<times> broker" where
  "RegisterSink b clientID sink =
     (let displaced = mget (b_sinks b) clientID; b = b\<lparr>b_sinks := mput clientID sink (b_sinks b)\<rparr>
      in if displaced = Some sink then (None, b) else (displaced, b))"

definition UnregisterSink :: "broker \<Rightarrow> client_id \<Rightarrow> conn_ref \<Rightarrow> broker" where
  "UnregisterSink b clientID sink =
     (if mget (b_sinks b) clientID = Some sink then b\<lparr>b_sinks := mdel clientID (b_sinks b)\<rparr> else b)"

definition sinkFor :: "broker \<Rightarrow> client_id \<Rightarrow> conn_ref option" where
  "sinkFor b clientID = mget (b_sinks b) clientID"

text \<open>A call of \<open>Send\<close> through a reference. A reference that is not a connection of the
  broker does not occur; it is treated as a closed one.\<close>

definition sink_Send :: "broker \<Rightarrow> conn_ref \<Rightarrow> packet \<Rightarrow> send_error option \<times> broker" where
  "sink_Send b sink p =
     (case mget (b_conns b) sink of
        None \<Rightarrow> (Some ErrConnectionClosed, b)
      | Some c \<Rightarrow> let (err, c') = Send c p in (err, b\<lparr>b_conns := mput sink c' (b_conns b)\<rparr>))"

definition publish_packet :: "message \<Rightarrow> packet" where
  "publish_packet m =
     PPublish \<lparr>p_DUP = m_dup m, p_QoS = m_qos m, p_Retain = m_retain m, p_Topic = m_topic m,
               p_PacketID = m_packetID m, p_Payload = m_payload m\<rparr>"

definition sendPublish :: "broker \<Rightarrow> conn_ref option \<Rightarrow> message \<Rightarrow> broker" where
  "sendPublish b sink message =
     (case sink of
        None \<Rightarrow> b
      | Some k \<Rightarrow>
          (case sink_Send b k (publish_packet message) of
             (Some err, b) \<Rightarrow> b\<lparr>b_dropped := b_dropped b + 1\<rparr>
           | (None, b) \<Rightarrow> b\<lparr>b_delivered := b_delivered b + 1\<rparr>))"

subsection \<open>Publishing and delivery\<close>

definition updateSession ::
  "broker \<Rightarrow> client_id \<Rightarrow> (session \<Rightarrow> broker \<Rightarrow> app_error option \<times> session \<times> broker) \<Rightarrow> app_error option \<times> broker" where
  "updateSession b clientID fn =
     (case Update (b_sessions b) clientID fn b of (err, sessions, b') \<Rightarrow> (err, b'\<lparr>b_sessions := sessions\<rparr>))"

definition dropOne :: "broker \<Rightarrow> broker" where
  "dropOne b = b\<lparr>b_dropped := b_dropped b + 1\<rparr>"

definition applyRetention :: "broker \<Rightarrow> message \<Rightarrow> broker" where
  "applyRetention b message =
     (if \<not> m_retain message then b
      else if ClearsRetained message then b\<lparr>b_retained := Remove (b_retained b) (m_topic message)\<rparr>
      else b\<lparr>b_retained := Store (b_retained b) (m_topic message) message\<rparr>)"

definition deliverTo ::
  "conn_ref option \<Rightarrow> message \<Rightarrow> qos \<Rightarrow> session \<Rightarrow> broker \<Rightarrow> app_error option \<times> session \<times> broker" where
  "deliverTo sink message qos session b =
     (if sink = None \<or> \<not> HasInflightCapacity session then
        (let (dropped, session) = Enqueue session (WithQoS message qos 0)
         in (None, session, if dropped then dropOne b else b))
      else
        (case NextPacketID session of
           (Inl err, session) \<Rightarrow> (None, session, dropOne b)
         | (Inr packetID, session) \<Rightarrow>
             let outbound = WithQoS message qos packetID in
             (case TrackInflight session packetID outbound (b_now b) of
                (Some err, session) \<Rightarrow> (None, session, dropOne b)
              | (None, session) \<Rightarrow> (None, session, sendPublish b sink outbound))))"

definition deliver :: "broker \<Rightarrow> client_id \<Rightarrow> message \<Rightarrow> qos \<Rightarrow> broker" where
  "deliver b clientID message qos =
     (let sink = sinkFor b clientID in
      if qos = QoSAtMostOnce then
        (if sink = None then b else sendPublish b sink (WithQoS message QoSAtMostOnce 0))
      else
        (case updateSession b clientID (deliverTo sink message qos) of
           (None, b) \<Rightarrow> b
         | (Some err, b) \<Rightarrow> dropOne b))"

definition Publish :: "broker \<Rightarrow> message \<Rightarrow> broker" where
  "Publish b message =
     (let b = b\<lparr>b_published := b_published b + 1\<rparr>;
          b = applyRetention b message;
          subscribers = Match (b_index b) (m_topic message);
          live = AsLiveDelivery message
      in foldl (\<lambda>b s. deliver b (sr_ClientID s) live (Downgrade (m_qos message) (sr_GrantedQoS s))) b subscribers)"

subsection \<open>Acknowledgement and promotion\<close>

lemma length_DrainQueue: "se_queued (snd (DrainQueue s 1)) = tl (se_queued s)"
  by (cases "se_queued s") (auto simp: DrainQueue_def Let_def)

lemma fst_DrainQueue: "fst (DrainQueue s 1) = take 1 (se_queued s)"
  by (cases "se_queued s") (auto simp: DrainQueue_def Let_def)

lemma nextPacketIDLoop_frame:
  "\<exists>n. snd (nextPacketIDLoop i s) = s\<lparr>se_nextPacketID := n\<rparr>"
proof (induction i s rule: nextPacketIDLoop.induct)
  case (1 i s)
  then show ?case
    by (subst nextPacketIDLoop.simps) (auto simp: Let_def split: if_splits intro: exI [of _ "se_nextPacketID s"])
qed

lemma NextPacketID_frame: "\<exists>n. snd (NextPacketID s) = s\<lparr>se_nextPacketID := n\<rparr>"
  by (simp add: NextPacketID_def nextPacketIDLoop_frame)

lemma NextPacketID_queued: "NextPacketID s = (r, s') \<Longrightarrow> se_queued s' = se_queued s"
  using NextPacketID_frame [of s] by auto

lemma TrackInflight_queued: "TrackInflight s p m now = (e, s') \<Longrightarrow> se_queued s' = se_queued s"
  by (auto simp: TrackInflight_def split: if_splits)

lemma DrainQueue_shrinks: "DrainQueue s 1 = (q # qs, s') \<Longrightarrow> length (se_queued s') < length (se_queued s)"
  by (cases "se_queued s") (auto simp: DrainQueue_def Let_def)

text \<open>One round of the loop of \<open>promoteQueued\<close>; the boolean says whether the loop goes on.\<close>

definition promoteStep :: "session \<Rightarrow> broker \<Rightarrow> conn_ref option \<Rightarrow> bool \<times> session \<times> broker" where
  "promoteStep session b sink =
     (if \<not> HasInflightCapacity session then (False, session, b)
      else case DrainQueue session 1 of
        ([], session) \<Rightarrow> (False, session, b)
      | (queued # batch, session) \<Rightarrow>
          if m_qos queued = QoSAtMostOnce then (True, session, sendPublish b sink queued)
          else
            (case NextPacketID session of
               (Inl err, session) \<Rightarrow> (False, snd (Enqueue session queued), b)
             | (Inr packetID, session) \<Rightarrow>
                 let outbound = WithQoS queued (m_qos queued) packetID in
                 (case TrackInflight session packetID outbound (b_now b) of
                    (Some err, session) \<Rightarrow> (False, snd (Enqueue session queued), b)
                  | (None, session) \<Rightarrow> (True, session, sendPublish b sink outbound))))"

lemma promoteStep_queued:
  assumes "promoteStep s b k = (c, s', b')"
  shows "(c \<longrightarrow> length (se_queued s') < length (se_queued s)) \<and> length (se_queued s') \<le> length (se_queued s)"
proof -
  obtain batch s1 where d: "DrainQueue s 1 = (batch, s1)" by force
  show ?thesis
  proof (cases batch)
    case Nil
    with assms d length_DrainQueue [of s] show ?thesis by (auto simp: promoteStep_def split: if_splits)
  next
    case (Cons q qs)
    from d Cons DrainQueue_shrinks [of s q qs s1] have len: "length (se_queued s1) < length (se_queued s)" by simp
    have enq: "length (se_queued (snd (Enqueue t m))) \<le> length (se_queued t) + 1" for t m
      by (auto simp: Enqueue_def Let_def)
    show ?thesis
    proof (cases "HasInflightCapacity s \<and> m_qos q \<noteq> 0")
      case False
      with assms d Cons len show ?thesis by (auto simp: promoteStep_def split: if_splits)
    next
      case True
      obtain r s2 where n: "NextPacketID s1 = (r, s2)" by force
      with len enq [of s2 q] NextPacketID_queued [OF n] assms d Cons True show ?thesis
      proof (cases r)
        case (Inr p)
        obtain e s3 where t: "TrackInflight s2 p (WithQoS q (m_qos q) p) (b_now b) = (e, s3)" by force
        with Inr n len enq [of s3 q] NextPacketID_queued [OF n] TrackInflight_queued [OF t] assms d Cons True
        show ?thesis by (cases e) (auto simp: promoteStep_def)
      qed (auto simp: promoteStep_def)
    qed
  qed
qed

function promoteQueued :: "session \<Rightarrow> broker \<Rightarrow> conn_ref option \<Rightarrow> session \<times> broker" where
  "promoteQueued session b sink =
     (case promoteStep session b sink of
        (True, session, b) \<Rightarrow> promoteQueued session b sink
      | (False, session, b) \<Rightarrow> (session, b))"
  by pat_completeness auto
termination
  by (relation "measure (\<lambda>(session, b, sink). length (se_queued session))")
    (auto dest: promoteStep_queued [OF sym])

declare promoteQueued.simps [simp del]

definition Acknowledge :: "broker \<Rightarrow> client_id \<Rightarrow> u16 \<Rightarrow> app_error option \<times> broker" where
  "Acknowledge b clientID rawPacketID =
     (case NewPacketID rawPacketID of
        Inl err \<Rightarrow> (Some err, b)
      | Inr packetID \<Rightarrow>
          let sink = sinkFor b clientID in
          updateSession b clientID (\<lambda>session b.
            case session_Acknowledge session packetID of
              (Inl err, session) \<Rightarrow> (Some err, session, b)
            | (Inr m, session) \<Rightarrow>
                if sink \<noteq> None then (case promoteQueued session b sink of (session, b) \<Rightarrow> (None, session, b))
                else (None, session, b)))"

subsection \<open>Retained messages\<close>

definition deliverRetainedTo ::
  "conn_ref \<Rightarrow> message \<Rightarrow> qos \<Rightarrow> session \<Rightarrow> broker \<Rightarrow> app_error option \<times> session \<times> broker" where
  "deliverRetainedTo sink retained effectiveQoS session b =
     (case NextPacketID session of
        (Inl err, session) \<Rightarrow> (None, session, b)
      | (Inr packetID, session) \<Rightarrow>
          let outbound = WithQoS retained effectiveQoS packetID in
          (case TrackInflight session packetID outbound (b_now b) of
             (Some err, session) \<Rightarrow> (None, snd (Enqueue session (WithQoS retained effectiveQoS 0)), b)
           | (None, session) \<Rightarrow> (None, session, sendPublish b (Some sink) outbound)))"

definition deliverRetainedOne :: "conn_ref \<Rightarrow> client_id \<Rightarrow> qos \<Rightarrow> broker \<Rightarrow> message \<Rightarrow> broker" where
  "deliverRetainedOne sink clientID grantedQoS b message =
     (let effectiveQoS = Downgrade (m_qos message) grantedQoS;
          retained = AsRetainedDelivery message
      in if effectiveQoS = QoSAtMostOnce
         then sendPublish b (Some sink) (WithQoS retained QoSAtMostOnce 0)
         else snd (updateSession b clientID (deliverRetainedTo sink retained effectiveQoS)))"

definition sink_ClientID :: "broker \<Rightarrow> conn_ref \<Rightarrow> client_id" where
  "sink_ClientID b sink = (case mget (b_conns b) sink of None \<Rightarrow> '''' | Some c \<Rightarrow> conn_ClientID c)"

definition DeliverRetained :: "broker \<Rightarrow> conn_ref \<Rightarrow> topic_filter \<Rightarrow> qos \<Rightarrow> broker" where
  "DeliverRetained b sink filt grantedQoS =
     (let messages = Matching (b_retained b) filt; clientID = sink_ClientID b sink
      in foldl (deliverRetainedOne sink clientID grantedQoS) b messages)"

subsection \<open>Resumption and retransmission\<close>

definition retransmit :: "conn_ref option \<Rightarrow> time \<Rightarrow> session \<times> broker \<Rightarrow> inflightMessage \<Rightarrow> session \<times> broker" where
  "retransmit sink now sb m =
     (MarkRetransmitted (fst sb) (im_PacketID m) now, sendPublish (snd sb) sink (AsRedelivery (im_Message m)))"

text \<open>A relation on session and broker that every round keeps holds after the loop.\<close>

lemma promoteQueued_rule [consumes 1, case_names step]:
  assumes "P s b" and "\<And>s b c s' b'. P s b \<Longrightarrow> promoteStep s b k = (c, s', b') \<Longrightarrow> P s' b'"
  shows "P (fst (promoteQueued s b k)) (snd (promoteQueued s b k))"
  using assms
proof (induction s b k rule: promoteQueued.induct)
  case (1 s b k)
  obtain c s' b' where st: "promoteStep s b k = (c, s', b')" by (metis prod_cases3)
  have P': "P s' b'" using "1.prems"(2) [OF "1.prems"(1) st] .
  show ?case
  proof (cases c)
    case True
    have "P (fst (promoteQueued s' b' k)) (snd (promoteQueued s' b' k))"
    proof (rule "1.IH")
      show "P s' b'" by (rule P')
      show "\<And>s b c s' b'. P s b \<Longrightarrow> promoteStep s b k = (c, s', b') \<Longrightarrow> P s' b'" by (rule "1.prems"(2))
    qed (simp_all add: st True)
    then show ?thesis by (subst (1 2) promoteQueued.simps) (simp add: st True)
  next
    case False
    with P' show ?thesis by (subst (1 2) promoteQueued.simps) (simp add: st)
  qed
qed

lemma promoteQueued_shrinks: "length (se_queued (fst (promoteQueued s b k))) \<le> length (se_queued s)"
  by (rule promoteQueued_rule [where P = "\<lambda>s' b'. length (se_queued s') \<le> length (se_queued s)"])
    (auto dest!: promoteStep_queued)

function resumeLoop :: "int \<Rightarrow> session \<Rightarrow> broker \<Rightarrow> conn_ref option \<Rightarrow> session \<times> broker" where
  "resumeLoop drained session b sink =
     (if HasInflightCapacity session \<and> drained < cf_ResumeBatchSize (b_cfg b) then
        let before = QueuedCount session;
            (session', b') = promoteQueued session b sink
        in if QueuedCount session' = before then (session', b')
           else resumeLoop (drained + int before - int (QueuedCount session')) session' b' sink
      else (session, b))"
  by pat_completeness auto
termination
proof (relation "measure (\<lambda>(drained, session, b, sink). length (se_queued session))", goal_cases)
  case (2 drained session b sink before x session' b')
  then have "fst (promoteQueued session b sink) = session'" by (metis fst_conv)
  with 2 show ?case
    using promoteQueued_shrinks [of session b sink] by (auto simp: QueuedCount_def)
qed simp

declare resumeLoop.simps [simp del]

definition ResumeSession :: "broker \<Rightarrow> conn_ref \<Rightarrow> app_error option \<times> broker" where
  "ResumeSession b sink =
     (let clientID = sink_ClientID b sink in
      updateSession b clientID (\<lambda>session b.
        let inflight = InflightMessages session;
            (session, b) = foldl (retransmit (Some sink) (b_now b)) (session, b) inflight;
            (session, b) = resumeLoop 0 session b (Some sink)
        in (None, session, b)))"

definition retransmitExpiredFor :: "duration \<Rightarrow> broker \<times> nat \<Rightarrow> session \<Rightarrow> broker \<times> nat" where
  "retransmitExpiredFor timeout bt session =
     (let (b, total) = bt in
      if \<not> se_connected session then (b, total)
      else
        let clientID = se_clientID session in
        case sinkFor b clientID of
          None \<Rightarrow> (b, total)
        | Some sink \<Rightarrow>
            (case mget (b_sessions b) clientID of
               None \<Rightarrow> (b, total)
             | Some s \<Rightarrow>
                 (snd (updateSession b clientID (\<lambda>sess b.
                    case foldl (retransmit (Some sink) (b_now b)) (sess, b) (ExpiredInflight sess (b_now b) timeout) of
                      (sess, b) \<Rightarrow> (None, sess, b))),
                  total + length (ExpiredInflight s (b_now b) timeout))))"

definition RetransmitExpired :: "broker \<Rightarrow> duration \<Rightarrow> broker \<times> nat" where
  "RetransmitExpired b timeout = foldl (retransmitExpiredFor timeout) (b, 0) (session_All (b_sessions b))"

definition Counters :: "broker \<Rightarrow> u64 \<times> u64 \<times> u64" where
  "Counters b = (b_published b, b_delivered b, b_dropped b)"

end
