(* ===== verification/Delivery.thy ===== *)
theory Delivery
  imports Publishing
begin

text \<open>
  What the publishing service changes, and what it keeps. The relation \<open>delivers\<close> bounds the
  effect of every operation of the service: subscriptions, retained messages, clients and
  registrations stay as they are, connections only get packets appended, and sessions only
  change in their traffic. The invariant \<open>broker_ok\<close> of the broker is kept by every step of
  this kind.

  The properties say where a published message goes, how the in-flight window and the offline
  queue act as flow control, and what a reconnecting or newly subscribed client is sent.
\<close>

subsection \<open>What a delivery may change\<close>

text \<open>The messages of a session: those waiting and those in flight have level 1, and a message in
  flight carries the identifier it is filed under.\<close>

definition traffic_ok :: "session \<Rightarrow> bool" where
  "traffic_ok s = (list_all (\<lambda>m. m_qos m = QoSAtLeastOnce) (se_queued s)
     \<and> list_all (\<lambda>(p, im). m_qos (im_Message im) = QoSAtLeastOnce \<and> m_packetID (im_Message im) = p) (se_inflight s))"

text \<open>The parts that deliveries leave alone: everything of a session but its traffic, and everything
  of the broker but connections, counters and sessions.\<close>

definition session_core :: "session \<Rightarrow> session" where
  "session_core s = s\<lparr>se_inflight := [], se_nextPacketID := 0, se_queued := [], se_droppedFromQueue := 0\<rparr>"

definition broker_core :: "broker \<Rightarrow> broker" where
  "broker_core b = b\<lparr>b_conns := [], b_delivered := 0, b_dropped := 0, b_published := 0, b_sessions := []\<rparr>"

definition session_step :: "session \<Rightarrow> session \<Rightarrow> bool" where
  "session_step s s' = (session_core s' = session_core s
     \<and> (session_ok s \<and> traffic_ok s \<longrightarrow> session_ok s' \<and> traffic_ok s'))"

definition conn_grows :: "conn \<Rightarrow> conn \<Rightarrow> bool" where
  "conn_grows c c' = ((\<exists>ps. c' = c\<lparr>cn_outbound := cn_outbound c @ ps\<rparr>)
     \<and> (length (cn_outbound c) \<le> cn_queueSize c \<longrightarrow> length (cn_outbound c') \<le> cn_queueSize c))"

text \<open>\<open>sends b b'\<close>: only connections and counters change, and connections only grow.
  \<open>delivers b b'\<close>: in addition the traffic of sessions changes.\<close>

definition sends :: "broker \<Rightarrow> broker \<Rightarrow> bool" where
  "sends b b' =
     (broker_core b' = broker_core b
      \<and> (\<forall>k. rel_option conn_grows (mget (b_conns b) k) (mget (b_conns b') k))
      \<and> (map_ok (b_conns b) \<longrightarrow> map_ok (b_conns b')))"

definition delivers :: "broker \<Rightarrow> broker \<Rightarrow> bool" where
  "delivers b b' =
     (sends b b'
      \<and> (\<forall>c. rel_option session_step (session_Get (b_sessions b) c) (session_Get (b_sessions b') c))
      \<and> (map_ok (b_sessions b) \<longrightarrow> map_ok (b_sessions b')))"

lemma session_step_refl [simp]: "session_step s s"
  by (simp add: session_step_def)

lemma session_step_trans: "session_step s s' \<Longrightarrow> session_step s' s'' \<Longrightarrow> session_step s s''"
  by (simp add: session_step_def)

lemma conn_grows_refl [simp]: "conn_grows c c"
  unfolding conn_grows_def by (auto intro: exI [of _ "[]"])

lemma conn_grows_trans: "conn_grows c c' \<Longrightarrow> conn_grows c' c'' \<Longrightarrow> conn_grows c c''"
  by (auto simp: conn_grows_def) 

lemma rel_option_trans:
  "(\<And>x y z. R x y \<Longrightarrow> R y z \<Longrightarrow> R x z) \<Longrightarrow> rel_option R x y \<Longrightarrow> rel_option R y z \<Longrightarrow> rel_option R x z"
  by (cases x; cases y; cases z) auto

lemma sends_refl [simp]: "sends b b"
  by (simp add: sends_def option.rel_refl)

lemma sends_trans: "sends b b' \<Longrightarrow> sends b' b'' \<Longrightarrow> sends b b''"
  unfolding sends_def by (metis rel_option_trans [where R = conn_grows] conn_grows_trans)

lemma delivers_refl [simp]: "delivers b b"
  by (simp add: delivers_def option.rel_refl)

lemma delivers_trans: "delivers b b' \<Longrightarrow> delivers b' b'' \<Longrightarrow> delivers b b''"
  unfolding delivers_def by (metis sends_trans rel_option_trans [where R = session_step] session_step_trans)

lemma broker_core_frame:
  assumes "broker_core b' = broker_core b"
  shows "b_index b' = b_index b" "b_retained b' = b_retained b" "b_registry b' = b_registry b"
    "b_clients b' = b_clients b" "b_sinks b' = b_sinks b" "b_now b' = b_now b" "b_wall b' = b_wall b"
    "b_cfg b' = b_cfg b"
  using arg_cong [OF assms, of b_index] arg_cong [OF assms, of b_retained] arg_cong [OF assms, of b_registry]
    arg_cong [OF assms, of b_clients] arg_cong [OF assms, of b_sinks] arg_cong [OF assms, of b_now]
    arg_cong [OF assms, of b_wall] arg_cong [OF assms, of b_cfg]
  by (simp_all add: broker_core_def)

lemma sends_core: "sends b b' \<Longrightarrow> broker_core b' = broker_core b"
  by (simp add: sends_def)

lemma delivers_core: "delivers b b' \<Longrightarrow> broker_core b' = broker_core b"
  by (simp add: delivers_def sends_def)

lemmas sends_frame = broker_core_frame [OF sends_core]
lemmas delivers_frame = broker_core_frame [OF delivers_core]

lemma broker_core_upd [simp]:
  "broker_core (b\<lparr>b_conns := x\<rparr>) = broker_core b" "broker_core (b\<lparr>b_delivered := n\<rparr>) = broker_core b"
  "broker_core (b\<lparr>b_dropped := n\<rparr>) = broker_core b" "broker_core (b\<lparr>b_published := n\<rparr>) = broker_core b"
  "broker_core (b\<lparr>b_sessions := y\<rparr>) = broker_core b"
  by (simp_all add: broker_core_def)

lemma sends_upd [simp]:
  "sends b (b'\<lparr>b_delivered := n\<rparr>) = sends b b'" "sends b (b'\<lparr>b_dropped := n\<rparr>) = sends b b'"
  "sends b (b'\<lparr>b_published := n\<rparr>) = sends b b'" "sends b (b'\<lparr>b_sessions := y\<rparr>) = sends b b'"
  by (simp_all add: sends_def)

lemma delivers_upd [simp]:
  "delivers b (b'\<lparr>b_delivered := n\<rparr>) = delivers b b'" "delivers b (b'\<lparr>b_dropped := n\<rparr>) = delivers b b'"
  "delivers b (b'\<lparr>b_published := n\<rparr>) = delivers b b'"
  by (simp_all add: delivers_def)

lemma delivers_fold: "(\<And>b x. x \<in> set xs \<Longrightarrow> delivers b (f b x)) \<Longrightarrow> delivers b (foldl f b xs)"
  by (induction xs arbitrary: b) (auto intro: delivers_trans)

subsection \<open>Sending\<close>

lemma Send_grows: "conn_grows c (snd (Send c p))"
  using conn.pending_bounded [of c p]
  by (auto simp: conn_grows_def Send_def intro: exI [of _ "[]"])

lemma sink_Send_sends: "sends b (snd (sink_Send b k p))"
proof (cases "mget (b_conns b) k")
  case (Some c)
  obtain e c' where s: "Send c p = (e, c')" by force
  with Some Send_grows [of c p] show ?thesis
    by (auto simp: sink_Send_def sends_def option.rel_refl)
qed (simp add: sink_Send_def)

lemma sink_Send_frame [simp]:
  "b_sessions (snd (sink_Send b k p)) = b_sessions b" "b_published (snd (sink_Send b k p)) = b_published b"
  by (auto simp: sink_Send_def split: option.split prod.split)

lemma sendPublish_sends: "sends b (sendPublish b k m)"
  using sink_Send_sends [of b "the k" "publish_packet m"]
  by (auto simp: sendPublish_def split: option.split prod.split)

lemma sendPublish_frame [simp]:
  "b_sessions (sendPublish b k m) = b_sessions b" "b_published (sendPublish b k m) = b_published b"
  using sink_Send_frame [of b "the k" "publish_packet m"]
  by (simp_all add: sendPublish_def split_beta split: option.split)

lemmas sendPublish_core [simp] = sends_frame [OF sendPublish_sends]

lemma sends_delivers: "sends b b' \<Longrightarrow> b_sessions b' = b_sessions b \<Longrightarrow> delivers b b'"
  by (simp add: delivers_def option.rel_refl)

subsection \<open>Updating a session\<close>

lemma updateSession_None:
  "session_Get (b_sessions b) c = None \<Longrightarrow>
     updateSession b c fn = (Some (NotFound ESessionNotFound (''no session found for client '' @ c)), b)"
  by (simp add: updateSession_def Update_def session_Get_def)

lemma updateSession_Some:
  "fn s b = (e, s', b') \<Longrightarrow> session_Get (b_sessions b) c = Some s \<Longrightarrow>
     updateSession b c fn = (e, b'\<lparr>b_sessions := mput c s' (b_sessions b)\<rparr>)"
  by (simp add: updateSession_def Update_def session_Get_def)

lemma session_Get_mput [simp]: "session_Get (mput c s ss) c' = (if c' = c then Some s else session_Get ss c')"
  by (simp add: session_Get_def)

lemma updateSession_delivers:
  assumes "\<And>s e s' b'. session_Get (b_sessions b) c = Some s \<Longrightarrow> fn s b = (e, s', b') \<Longrightarrow>
      session_step s s' \<and> sends b b'"
  shows "delivers b (snd (updateSession b c fn))"
proof (cases "session_Get (b_sessions b) c")
  case (Some s)
  obtain e s' b' where fn: "fn s b = (e, s', b')" by (metis prod_cases3)
  from assms [OF Some fn] have "session_step s s'" "sends b b'" by auto
  with Some show ?thesis
    by (simp add: updateSession_Some [of fn, OF fn Some] delivers_def option.rel_refl)
qed (simp add: updateSession_None)

subsection \<open>Steps of a session\<close>

lemma session_core_upd [simp]:
  "session_core (s\<lparr>se_inflight := x\<rparr>) = session_core s" "session_core (s\<lparr>se_nextPacketID := n\<rparr>) = session_core s"
  "session_core (s\<lparr>se_queued := q\<rparr>) = session_core s" "session_core (s\<lparr>se_droppedFromQueue := d\<rparr>) = session_core s"
  by (simp_all add: session_core_def)

lemma list_all_tl: "list_all P xs \<Longrightarrow> list_all P (tl xs)"
  by (cases xs) auto

lemma list_all_drop: "list_all P xs \<Longrightarrow> list_all P (drop n xs)"
  by (auto simp: list_all_iff dest: in_set_dropD)

lemma NextPacketID_step: "session_step s (snd (NextPacketID s))"
proof -
  obtain n where n: "snd (NextPacketID s) = s\<lparr>se_nextPacketID := n\<rparr>" using NextPacketID_frame by blast
  then have "traffic_ok (snd (NextPacketID s)) = traffic_ok s" by (simp add: traffic_ok_def)
  with n NextPacketID_ok [of s] show ?thesis by (simp add: session_step_def)
qed

lemma TrackInflight_step:
  assumes "m_qos m = QoSAtLeastOnce" and "m_packetID m = p"
  shows "session_step s (snd (TrackInflight s p m now))"
  using TrackInflight_ok [of s p m now] assms
  by (auto simp: session_step_def TrackInflight_def traffic_ok_def list_all_map)

lemma Enqueue_step: "m_qos m = QoSAtLeastOnce \<Longrightarrow> session_step s (snd (Enqueue s m))"
  using Enqueue_ok [of s m] by (auto simp: session_step_def Enqueue_def Let_def traffic_ok_def list_all_tl)

lemma DrainQueue_step: "session_step s (snd (DrainQueue s n))"
  using DrainQueue_ok [of s n] by (auto simp: session_step_def DrainQueue_def Let_def traffic_ok_def list_all_drop)

lemma Acknowledge_step: "session_step s (snd (session_Acknowledge s p))"
  using Acknowledge_ok [of s p]
  by (auto simp: session_step_def session_Acknowledge_def traffic_ok_def list_all_map split: option.splits)

lemma MarkRetransmitted_step: "session_step s (MarkRetransmitted s p now)"
proof (cases "mget (se_inflight s) p")
  case (Some m)
  let ?P = "\<lambda>(p, im). m_qos (im_Message im) = QoSAtLeastOnce \<and> m_packetID (im_Message im) = p"
  from Some have "list_all ?P (se_inflight s) \<Longrightarrow> ?P (p, m)" by (rule list_all_mget [rotated])
  with Some MarkRetransmitted_ok [of s p now] show ?thesis
    by (auto simp: session_step_def MarkRetransmitted_def traffic_ok_def intro!: list_all_mput)
qed (simp add: MarkRetransmitted_def)

lemmas session_steps = NextPacketID_step TrackInflight_step Enqueue_step DrainQueue_step Acknowledge_step
  MarkRetransmitted_step

text \<open>The same facts, for a call whose result is known.\<close>

lemma session_stepsD:
  "NextPacketID s = (r, s') \<Longrightarrow> session_step s s'"
  "TrackInflight s p m now = (e, s') \<Longrightarrow> m_qos m = QoSAtLeastOnce \<Longrightarrow> m_packetID m = p \<Longrightarrow> session_step s s'"
  "Enqueue s m = (d, s') \<Longrightarrow> m_qos m = QoSAtLeastOnce \<Longrightarrow> session_step s s'"
  "DrainQueue s n = (ms, s') \<Longrightarrow> session_step s s'"
  "session_Acknowledge s p = (a, s') \<Longrightarrow> session_step s s'"
  using session_steps by (metis snd_conv)+

lemma deliverTo_step:
  assumes "deliverTo k m QoSAtLeastOnce s b = (e, s', b')"
  shows "session_step s s' \<and> sends b b'"
  using assms
  by (auto simp: deliverTo_def Let_def dropOne_def sendPublish_sends
      split: if_splits prod.splits sum.splits option.splits
      dest!: session_stepsD intro: session_step_trans)

lemma qos_le_1: "(q :: qos) \<le> 1 \<longleftrightarrow> q = 0 \<or> q = 1"
proof -
  have "q \<le> 1 \<longleftrightarrow> unat q = 0 \<or> unat q = 1" by (auto simp: word_le_nat_alt)
  then show ?thesis by (auto simp: unat_eq_zero intro: word_unat_eq_iff [THEN iffD2])
qed

lemma deliver_delivers:
  assumes "q \<le> MaxSupportedQoS"
  shows "delivers b (deliver b c m q)"
proof (cases "q = 0")
  case True
  then show ?thesis by (auto simp: deliver_def Let_def intro: sends_delivers sendPublish_sends)
next
  case False
  with assms have q: "q = QoSAtLeastOnce" by (simp add: qos_le_1)
  have "delivers b (snd (updateSession b c (deliverTo (sinkFor b c) m q)))"
    by (rule updateSession_delivers) (use q deliverTo_step in blast)
  with q show ?thesis by (auto simp: deliver_def Let_def dropOne_def split: prod.split option.split)
qed

lemma applyRetention_frame [simp]:
  "b_conns (applyRetention b m) = b_conns b" "b_sessions (applyRetention b m) = b_sessions b"
  "b_index (applyRetention b m) = b_index b" "b_sinks (applyRetention b m) = b_sinks b"
  "b_now (applyRetention b m) = b_now b" "b_cfg (applyRetention b m) = b_cfg b"
  "b_clients (applyRetention b m) = b_clients b" "b_registry (applyRetention b m) = b_registry b"
  by (simp_all add: applyRetention_def)

lemma Publish_delivers:
  "delivers (applyRetention b m) (Publish b m)"
proof -
  let ?b = "applyRetention (b\<lparr>b_published := b_published b + 1\<rparr>) m"
  have eq: "?b = (applyRetention b m)\<lparr>b_published := b_published b + 1\<rparr>" by (simp add: applyRetention_def)
  have "delivers ?b (Publish b m)"
    unfolding Publish_def Let_def by (intro delivers_fold deliver_delivers) (simp add: Downgrade_min)
  then show ?thesis unfolding eq by (rule delivers_trans [rotated]) simp
qed

lemma promoteStep_core:
  assumes "promoteStep s b k = (c, s', b')"
  shows "session_core s' = session_core s \<and> sends b b'"
proof -
  have *: "DrainQueue s n = (ms, t) \<Longrightarrow> session_core t = session_core s"
    "NextPacketID s = (r, t) \<Longrightarrow> session_core t = session_core s"
    "TrackInflight s p m now = (e, t) \<Longrightarrow> session_core t = session_core s"
    "session_core (snd (Enqueue s m)) = session_core s" for s n ms t r p m now e
    using session_stepsD(1,4) by (auto simp: session_step_def TrackInflight_def Enqueue_def Let_def split: if_splits)
  show ?thesis
    using assms by (auto simp: promoteStep_def Let_def sendPublish_sends *
        split: if_splits list.splits prod.splits sum.splits option.splits dest!: *(1-3))
qed

lemma promoteStep_step:
  assumes "promoteStep s b k = (c, s', b')"
  shows "session_step s s' \<and> sends b b'"
proof (cases "traffic_ok s \<and> se_queued s \<noteq> []")
  case True
  then have q: "m_qos (hd (se_queued s)) = QoSAtLeastOnce" by (cases "se_queued s") (auto simp: traffic_ok_def)
  from True have d: "DrainQueue s 1 = ([hd (se_queued s)], s\<lparr>se_queued := tl (se_queued s)\<rparr>)"
    by (cases "se_queued s") (auto simp: DrainQueue_def Let_def)
  from DrainQueue_step [of s 1] d have t: "session_step s (s\<lparr>se_queued := tl (se_queued s)\<rparr>)" by simp
  show ?thesis
    using assms q Enqueue_step [OF q]
    by (auto simp: promoteStep_def d Let_def sendPublish_sends
        split: if_splits prod.splits sum.splits option.splits
        dest!: session_stepsD intro: session_step_trans [OF t] session_step_trans)
next
  case False
  then consider "\<not> traffic_ok s" | "se_queued s = []" by blast
  then show ?thesis
  proof cases
    case 1
    with promoteStep_core [OF assms] show ?thesis by (simp add: session_step_def)
  next
    case 2
    then have "DrainQueue s 1 = ([], s)" by (simp add: DrainQueue_def)
    with assms show ?thesis by (auto simp: promoteStep_def split: if_splits)
  qed
qed

lemma promoteQueued_step:
  "session_step s (fst (promoteQueued s b k)) \<and> sends b (snd (promoteQueued s b k))"
  by (rule promoteQueued_rule) (auto dest: promoteStep_step intro: session_step_trans sends_trans)

lemma resumeLoop_step:
  "session_step s (fst (resumeLoop n s b k)) \<and> sends b (snd (resumeLoop n s b k))"
proof (induction n s b k rule: resumeLoop.induct)
  case (1 n s b k)
  obtain s' b' where p: "promoteQueued s b k = (s', b')" by force
  from promoteQueued_step [of s b k] p have st: "session_step s s'" "sends b b'" by auto
  show ?case
  proof (cases "HasInflightCapacity s \<and> n < cf_ResumeBatchSize (b_cfg b) \<and> QueuedCount s' \<noteq> QueuedCount s")
    case True
    from 1 [OF _ refl p [symmetric] refl] True
    have "session_step s' (fst (resumeLoop (n + int (QueuedCount s) - int (QueuedCount s')) s' b' k))
        \<and> sends b' (snd (resumeLoop (n + int (QueuedCount s) - int (QueuedCount s')) s' b' k))" by simp
    with st show ?thesis
      by (subst (1 2) resumeLoop.simps) (auto simp: p Let_def True intro: session_step_trans sends_trans)
  next
    case False
    with st show ?thesis by (subst (1 2) resumeLoop.simps) (auto simp: p Let_def)
  qed
qed

lemma retransmit_fold_step:
  "session_step (fst sb) (fst (foldl (retransmit k now) sb ms)) \<and> sends (snd sb) (snd (foldl (retransmit k now) sb ms))"
proof (induction ms arbitrary: sb)
  case (Cons m ms)
  show ?case
    using Cons.IH [of "retransmit k now sb m"]
    by (auto simp: retransmit_def intro: session_step_trans [OF MarkRetransmitted_step] sends_trans [OF sendPublish_sends])
qed simp

lemma Acknowledge_delivers: "delivers b (snd (Acknowledge b c p))"
proof (cases "NewPacketID p")
  case (Inr pid)
  show ?thesis
    unfolding Acknowledge_def Inr sum.case Let_def
  proof (rule updateSession_delivers)
    fix s e s' b'
    assume fn: "(case session_Acknowledge s pid of
          (Inl err, session) \<Rightarrow> (Some err, session, b)
        | (Inr m, session) \<Rightarrow>
            if sinkFor b c \<noteq> None
            then case promoteQueued session b (sinkFor b c) of (session, b) \<Rightarrow> (None, session, b)
            else (None, session, b)) = (e, s', b')"
    obtain r t where a: "session_Acknowledge s pid = (r, t)" by force
    from session_stepsD(5) [OF a] have "session_step s t" .
    with fn a promoteQueued_step [of t b "sinkFor b c"] show "session_step s s' \<and> sends b b'"
      by (auto split: sum.splits if_splits prod.splits intro: session_step_trans)
  qed
qed (simp add: Acknowledge_def)

lemma deliverRetainedTo_step:
  assumes "deliverRetainedTo k m QoSAtLeastOnce s b = (e, s', b')"
  shows "session_step s s' \<and> sends b b'"
  using assms Enqueue_step [of "WithQoS m QoSAtLeastOnce 0"]
  by (auto simp: deliverRetainedTo_def Let_def sendPublish_sends
      split: if_splits prod.splits sum.splits option.splits dest!: session_stepsD intro: session_step_trans)

lemma DeliverRetained_delivers: "delivers b (DeliverRetained b k f q)"
  unfolding DeliverRetained_def Let_def
proof (rule delivers_fold)
  fix b :: broker and m :: message
  have "Downgrade (m_qos m) q \<le> MaxSupportedQoS" by (simp add: Downgrade_min)
  then have cases: "Downgrade (m_qos m) q = 0 \<or> Downgrade (m_qos m) q = 1" by (simp only: qos_le_1)
  have "delivers b (snd (updateSession b c (deliverRetainedTo k (AsRetainedDelivery m) QoSAtLeastOnce)))" for c
    by (rule updateSession_delivers) (rule deliverRetainedTo_step)
  with cases show "delivers b (deliverRetainedOne k (sink_ClientID b' k) q b m)" for b'
    by (auto simp: deliverRetainedOne_def Let_def intro: sends_delivers sendPublish_sends)
qed

lemma ResumeSession_delivers: "delivers b (snd (ResumeSession b k))"
  unfolding ResumeSession_def Let_def
proof (rule updateSession_delivers)
  fix s e s' b'
  assume fn: "(case foldl (retransmit (Some k) (b_now b)) (s, b) (InflightMessages s) of
      (session, b) \<Rightarrow> case resumeLoop 0 session b (Some k) of (session, b) \<Rightarrow> (None, session, b)) = (e, s', b')"
  obtain s1 b1 where f: "foldl (retransmit (Some k) (b_now b)) (s, b) (InflightMessages s) = (s1, b1)" by force
  from retransmit_fold_step [of "(s, b)" "Some k" "b_now b" "InflightMessages s"] f
  have "session_step s s1" "sends b b1" by auto
  with fn f resumeLoop_step [of s1 0 b1 "Some k"] show "session_step s s' \<and> sends b b'"
    by (auto split: prod.splits intro: session_step_trans sends_trans)
qed

lemma retransmitExpiredFor_delivers: "delivers (fst bt) (fst (retransmitExpiredFor timeout bt s))"
proof -
  obtain b n where bt: "bt = (b, n)" by force
  have "delivers b (snd (updateSession b c (\<lambda>sess b.
      case foldl (retransmit (Some k) (b_now b)) (sess, b) (ExpiredInflight sess (b_now b) timeout) of
        (sess, b) \<Rightarrow> (None, sess, b))))" for c k
  proof (rule updateSession_delivers)
    fix s e s' b'
    assume "(case foldl (retransmit (Some k) (b_now b)) (s, b) (ExpiredInflight s (b_now b) timeout) of
        (sess, b) \<Rightarrow> (None, sess, b)) = (e, s', b')"
    then show "session_step s s' \<and> sends b b'"
      using retransmit_fold_step [of "(s, b)" "Some k" "b_now b" "ExpiredInflight s (b_now b) timeout"]
      by (auto split: prod.splits)
  qed
  then show ?thesis by (auto simp: bt retransmitExpiredFor_def Let_def split: option.split)
qed

lemma RetransmitExpired_delivers: "delivers b (fst (RetransmitExpired b timeout))"
proof -
  have "delivers (fst bt) (fst (foldl (retransmitExpiredFor timeout) bt ss))" for bt ss
  proof (induction ss arbitrary: bt)
    case (Cons s ss)
    show ?case
      using delivers_trans [OF retransmitExpiredFor_delivers Cons.IH] by simp
  qed simp
  from this [of "(b, 0)"] show ?thesis by (simp add: RetransmitExpired_def)
qed

lemmas publishing_delivers = Acknowledge_delivers DeliverRetained_delivers ResumeSession_delivers
  RetransmitExpired_delivers

subsection \<open>The invariant of the broker\<close>

text \<open>The level at which the session of a client holds a filter.\<close>

definition subscribed :: "broker \<Rightarrow> client_id \<Rightarrow> topic_filter \<Rightarrow> qos option" where
  "subscribed b c f =
     (case session_Get (b_sessions b) c of
        None \<Rightarrow> None | Some s \<Rightarrow> map_option sub_grantedQoS (session_Subscription s f))"

text \<open>Sessions are well-formed, the index agrees with them, and a retained message is filed under its
  topic, has the flag and is not empty.\<close>

definition state_ok :: "broker \<Rightarrow> bool" where
  "state_ok b =
     (index_ok (b_index b) \<and> store_ok (b_sessions b)
      \<and> (\<forall>c s. session_Get (b_sessions b) c = Some s \<longrightarrow> traffic_ok s)
      \<and> (\<forall>c f. granted (b_index b) f c = subscribed b c f)
      \<and> map_ok (b_retained b)
      \<and> (\<forall>t m. mget (b_retained b) t = Some m \<longrightarrow> m_topic m = t \<and> m_retain m \<and> \<not> IsEmpty m))"

text \<open>References lead to objects, objects carry the identifier they are filed under, and no
  outbound queue exceeds its capacity.\<close>

definition refs_ok :: "broker \<Rightarrow> bool" where
  "refs_ok b =
     (map_ok (b_conns b) \<and> map_ok (b_clients b) \<and> map_ok (b_sinks b) \<and> map_ok (b_registry b)
      \<and> (\<forall>c k. mget (b_sinks b) c = Some k \<longrightarrow> mget (b_conns b) k \<noteq> None)
      \<and> (\<forall>c r. mget (b_registry b) c = Some r \<longrightarrow> (\<exists>cl. mget (b_clients b) r = Some cl \<and> cl_id cl = c))
      \<and> (\<forall>k cn. mget (b_conns b) k = Some cn \<longrightarrow> length (cn_outbound cn) \<le> cn_queueSize cn
          \<and> (\<forall>r. cn_client cn = Some r \<longrightarrow> (\<exists>cl. mget (b_clients b) r = Some cl \<and> cl_id cl = cn_clientID cn))))"

definition broker_ok :: "broker \<Rightarrow> bool" where
  "broker_ok b = (state_ok b \<and> refs_ok b)"

lemma store_ok_iff:
  "store_ok ss \<longleftrightarrow> map_ok ss \<and> (\<forall>c s. session_Get ss c = Some s \<longrightarrow> se_clientID s = c \<and> session_ok s)"
  unfolding store_ok_def list_all_iff session_Get_def by (metis (mono_tags, lifting) case_prodE case_prodI2 map_ok_in_set case_prod_conv)

lemma session_core_frame:
  assumes "session_core s' = session_core s"
  shows "se_clientID s' = se_clientID s" "se_subscriptions s' = se_subscriptions s" "se_clean s' = se_clean s"
    "se_connected s' = se_connected s" "se_maxInflight s' = se_maxInflight s" "se_maxQueued s' = se_maxQueued s"
  using arg_cong [OF assms, of se_clientID] arg_cong [OF assms, of se_subscriptions] arg_cong [OF assms, of se_clean]
    arg_cong [OF assms, of se_connected] arg_cong [OF assms, of se_maxInflight] arg_cong [OF assms, of se_maxQueued]
  by (simp_all add: session_core_def)

lemma delivers_session:
  assumes "delivers b b'" and "session_Get (b_sessions b') c = Some s'"
  obtains s where "session_Get (b_sessions b) c = Some s" and "session_step s s'"
  using assms unfolding delivers_def by (metis option_rel_Some2)

lemma delivers_subscribed:
  assumes "delivers b b'"
  shows "subscribed b' c f = subscribed b c f"
proof -
  have "rel_option session_step (session_Get (b_sessions b) c) (session_Get (b_sessions b') c)"
    using assms by (simp add: delivers_def)
  then show ?thesis
    by (cases rule: option.rel_cases)
      (auto simp: subscribed_def session_Subscription_def session_step_def dest: session_core_frame(2))
qed

lemma delivers_state_ok:
  assumes "delivers b b'" and "state_ok b"
  shows "state_ok b'"
proof -
  have "se_clientID s' = c \<and> session_ok s' \<and> traffic_ok s'" if s': "session_Get (b_sessions b') c = Some s'" for c s'
  proof -
    obtain s where s: "session_Get (b_sessions b) c = Some s" "session_step s s'"
      using delivers_session [OF assms(1) s'] .
    then have "se_clientID s = c" "session_ok s" "traffic_ok s" using assms(2) by (auto simp: state_ok_def store_ok_iff)
    with s(2) session_core_frame(1) [of s' s] show ?thesis by (simp add: session_step_def)
  qed
  moreover have "map_ok (b_sessions b')" using assms by (simp add: delivers_def state_ok_def store_ok_def)
  ultimately show ?thesis
    using assms(2) delivers_frame [OF assms(1)] delivers_subscribed [OF assms(1)]
    by (simp add: state_ok_def store_ok_iff)
qed

lemma delivers_refs_ok:
  assumes "delivers b b'" and "refs_ok b"
  shows "refs_ok b'"
proof -
  have conns: "rel_option conn_grows (mget (b_conns b) k) (mget (b_conns b') k)" for k
    using assms(1) by (simp add: delivers_def sends_def)
  have "(mget (b_conns b') k = None) = (mget (b_conns b) k = None)" for k
    using conns [of k] by (cases rule: option.rel_cases) auto
  moreover have "length (cn_outbound cn) \<le> cn_queueSize cn
      \<and> (\<forall>r. cn_client cn = Some r \<longrightarrow> (\<exists>cl. mget (b_clients b) r = Some cl \<and> cl_id cl = cn_clientID cn))"
    if cn: "mget (b_conns b') k = Some cn" for k cn
  proof -
    obtain c0 where c0: "mget (b_conns b) k = Some c0" "conn_grows c0 cn"
      using conns [of k] cn by (metis option_rel_Some2)
    then show ?thesis using assms(2) by (auto simp: refs_ok_def conn_grows_def)
  qed
  ultimately show ?thesis
    using assms delivers_frame [OF assms(1)] by (simp add: refs_ok_def delivers_def sends_def)
qed

lemma delivers_ok: "delivers b b' \<Longrightarrow> broker_ok b \<Longrightarrow> broker_ok b'"
  by (simp add: broker_ok_def delivers_state_ok delivers_refs_ok)

lemma applyRetention_ok: "broker_ok b \<Longrightarrow> broker_ok (applyRetention b m)"
  by (auto simp: broker_ok_def state_ok_def refs_ok_def applyRetention_def subscribed_def Store_def Remove_def
      ClearsRetained_def split: if_splits)

lemma Publish_ok: "broker_ok b \<Longrightarrow> broker_ok (Publish b m)"
  by (rule delivers_ok [OF Publish_delivers applyRetention_ok])

lemma NewBroker_ok: "broker_ok (NewBroker cfg now wall)"
  by (simp add: broker_ok_def state_ok_def refs_ok_def NewBroker_def New_ok granted_New subscribed_def store_ok_def
      NewSessionStore_def NewRetainedStore_def NewClientRegistry_def session_Get_def)

subsection \<open>Where a message goes\<close>

text \<open>The session that a delivery at level 1 leaves behind, as a function of the session alone.\<close>

definition receive :: "conn_ref option \<Rightarrow> message \<Rightarrow> time \<Rightarrow> session \<Rightarrow> session" where
  "receive sink m now s =
     (if sink = None \<or> \<not> HasInflightCapacity s then snd (Enqueue s (WithQoS m QoSAtLeastOnce 0))
      else case NextPacketID s of
        (Inl err, s) \<Rightarrow> s
      | (Inr p, s) \<Rightarrow> snd (TrackInflight s p (WithQoS m QoSAtLeastOnce p) now))"

lemma deliverTo_receive: "fst (snd (deliverTo k m QoSAtLeastOnce s b)) = receive k m (b_now b) s"
  by (auto simp: deliverTo_def receive_def Let_def split: prod.splits sum.splits option.splits)

lemma deliver_session:
  assumes "q \<le> MaxSupportedQoS"
  shows "session_Get (b_sessions (deliver b c m q)) c' =
    (if c' = c \<and> q \<noteq> 0 then map_option (receive (sinkFor b c) m (b_now b)) (session_Get (b_sessions b) c)
     else session_Get (b_sessions b) c')"
proof (cases "q = 0")
  case False
  with assms have q: "q = 1" by (simp add: qos_le_1)
  show ?thesis
  proof (cases "session_Get (b_sessions b) c")
    case None
    then show ?thesis by (simp add: q deliver_def Let_def updateSession_None dropOne_def)
  next
    case (Some s)
    obtain e s' b' where d: "deliverTo (sinkFor b c) m 1 s b = (e, s', b')" by (metis prod_cases3)
    with deliverTo_receive [of "sinkFor b c" m s b] have "s' = receive (sinkFor b c) m (b_now b) s" by simp
    then show ?thesis
      using updateSession_Some [of "deliverTo (sinkFor b c) m 1", OF d Some] Some by (auto simp: q deliver_def Let_def dropOne_def split: option.split)
  qed
qed (simp add: deliver_def Let_def)

lemmas deliver_frame = delivers_frame [OF deliver_delivers]

definition deliverAll :: "broker \<Rightarrow> message \<Rightarrow> (client_id \<times> qos) list \<Rightarrow> broker" where
  "deliverAll b m cs = foldl (\<lambda>b (c, q). deliver b c m q) b cs"

lemma deliverAll_Cons [simp]: "deliverAll b m ((c, q) # cs) = deliverAll (deliver b c m q) m cs"
  by (simp add: deliverAll_def)

lemma deliverAll_Nil [simp]: "deliverAll b m [] = b"
  by (simp add: deliverAll_def)

lemma deliverAll_session:
  assumes "map_ok cs" and "list_all (\<lambda>(c, q). q \<le> MaxSupportedQoS) cs"
  shows "session_Get (b_sessions (deliverAll b m cs)) c =
    (if mget cs c = None \<or> mget cs c = Some 0 then session_Get (b_sessions b) c
     else map_option (receive (sinkFor b c) m (b_now b)) (session_Get (b_sessions b) c))"
  using assms
proof (induction cs arbitrary: b)
  case (Cons x cs)
  obtain d q where x: "x = (d, q)" by force
  with Cons.prems have q: "q \<le> MaxSupportedQoS" and ok: "map_ok cs" "mget cs d = None" by auto
  from Cons.IH [of "deliver b d m q"] Cons.prems x ok deliver_frame [OF q, of b d m] deliver_session [OF q, of b d m c]
  show ?case by (auto simp: sinkFor_def)
qed simp

text \<open>The level at which a client gets messages of a topic: the highest of its matching filters.\<close>

definition level_for :: "broker \<Rightarrow> topic_name \<Rightarrow> client_id \<Rightarrow> qos option" where
  "level_for b t c = mget (walk (ix_root (b_index b)) (Levels t) [] (IsSystem t)) c"

definition recipients :: "broker \<Rightarrow> message \<Rightarrow> (client_id \<times> qos) list" where
  "recipients b m = map (\<lambda>s. (sr_ClientID s, Downgrade (m_qos m) (sr_GrantedQoS s))) (Match (b_index b) (m_topic m))"

lemma mget_recipients:
  "mget (recipients b m) c = map_option (Downgrade (m_qos m)) (level_for b (m_topic m) c)"
proof -
  have "recipients b m = map (\<lambda>(k, v). (k, Downgrade (m_qos m) v))
      (walk (ix_root (b_index b)) (Levels (m_topic m)) [] (IsSystem (m_topic m)))"
    by (simp add: recipients_def Match_def Let_def split_def comp_def Levels_def)
  then show ?thesis by (simp add: level_for_def map_of_map)
qed

lemma recipients_ok: "map_ok (recipients b m)" "list_all (\<lambda>(c, q). q \<le> MaxSupportedQoS) (recipients b m)"
  using Match_distinct [of "b_index b" "m_topic m"]
  by (auto simp: recipients_def map_ok_def comp_def list_all_iff Downgrade_min)

lemma Publish_deliverAll:
  "Publish b m = deliverAll ((applyRetention b m)\<lparr>b_published := b_published b + 1\<rparr>) (AsLiveDelivery m) (recipients b m)"
proof -
  have eq: "applyRetention (b\<lparr>b_published := b_published b + 1\<rparr>) m = (applyRetention b m)\<lparr>b_published := b_published b + 1\<rparr>"
    by (simp add: applyRetention_def)
  show ?thesis by (simp add: Publish_def Let_def eq deliverAll_def recipients_def foldl_map)
qed

lemma level_for_best:
  assumes "broker_ok b"
  shows "best {q. \<exists>f. subscribed b c f = Some q \<and> Matches f t} (level_for b t c)"
  using assms Match_best [of "b_index b" c t] by (simp add: broker_ok_def state_ok_def level_for_def)

lemma Publish_session:
  "session_Get (b_sessions (Publish b m)) c =
    (case level_for b (m_topic m) c of
       None \<Rightarrow> session_Get (b_sessions b) c
     | Some g \<Rightarrow>
         if Downgrade (m_qos m) g = 0 then session_Get (b_sessions b) c
         else map_option (receive (sinkFor b c) (AsLiveDelivery m) (b_now b)) (session_Get (b_sessions b) c))"
  unfolding Publish_deliverAll
  by (subst deliverAll_session [OF recipients_ok]) (auto simp: mget_recipients sinkFor_def split: option.split)

lemma Enqueue_inflight [simp]: "se_inflight (snd (Enqueue s m)) = se_inflight s"
  by (simp add: Enqueue_def Let_def)

lemma receive_queued:
  assumes "session_ok s" and "k = None \<or> \<not> HasInflightCapacity s"
  shows "se_inflight (receive k m now s) = se_inflight s
    \<and> se_queued (receive k m now s)
        = drop (length (se_queued s) + 1 - nat (se_maxQueued s)) (se_queued s @ [WithQoS m QoSAtLeastOnce 0])"
  using assms offline.put_content [OF assms(1)] by (auto simp: receive_def)

text \<open>The entry of a message that has just been sent.\<close>

definition sent :: "message \<Rightarrow> time \<Rightarrow> packet_id \<Rightarrow> packet_id \<times> inflightMessage" where
  "sent m now p = (p, \<lparr>im_PacketID = p, im_Message = WithQoS m (m_qos m) p, im_SentAt = now, im_Attempts = 1\<rparr>)"

lemma track_next:
  assumes "session_ok s" and "HasInflightCapacity s" and "se_maxInflight s \<le> 65535"
  obtains p s1 where "NextPacketID s = (Inr p, s1)" and "p \<noteq> 0" and "mget (se_inflight s) p = None"
    and "\<exists>n. s1 = s\<lparr>se_nextPacketID := n\<rparr>"
    and "\<And>m. TrackInflight s1 p (WithQoS m (m_qos m) p) now = (None, s1\<lparr>se_inflight := se_inflight s @ [sent m now p]\<rparr>)"
proof -
  have "length (se_inflight s) < 65535" using assms(2,3) by (simp add: HasInflightCapacity_def)
  then obtain p s1 where n: "NextPacketID s = (Inr p, s1)" using NextPacketID_window [OF assms(1)] by blast
  from NextPacketID_Inr [OF assms(1) n] have free: "p \<noteq> 0" "mget (se_inflight s) p = None" by auto
  have s1: "\<exists>n. s1 = s\<lparr>se_nextPacketID := n\<rparr>" using NextPacketID_frame [of s] n by simp
  then have "TrackInflight s1 p (WithQoS m (m_qos m) p) now = (None, s1\<lparr>se_inflight := se_inflight s @ [sent m now p]\<rparr>)" for m
    using free assms(2) by (auto simp: TrackInflight_def HasInflightCapacity_def mput_fresh sent_def)
  with n free s1 that show thesis by blast
qed

lemma receive_tracked:
  assumes "session_ok s" and "HasInflightCapacity s" and "se_maxInflight s \<le> 65535" and "k \<noteq> None"
  shows "\<exists>p. p \<noteq> 0 \<and> mget (se_inflight s) p = None \<and> se_queued (receive k m now s) = se_queued s
    \<and> se_inflight (receive k m now s) = se_inflight s @ [sent (WithQoS m QoSAtLeastOnce 0) now p]"
proof -
  obtain p s1 where n: "NextPacketID s = (Inr p, s1)" and free: "p \<noteq> 0" "mget (se_inflight s) p = None"
    and s1: "\<exists>n. s1 = s\<lparr>se_nextPacketID := n\<rparr>"
    and t: "\<And>m. TrackInflight s1 p (WithQoS m (m_qos m) p) now = (None, s1\<lparr>se_inflight := se_inflight s @ [sent m now p]\<rparr>)"
    using track_next [OF assms(1-3)] by blast
  have "WithQoS m QoSAtLeastOnce p = WithQoS (WithQoS m QoSAtLeastOnce 0) QoSAtLeastOnce p"
    by (simp add: WithQoS_def Let_def RequiresAcknowledgement_iff)
  then have "TrackInflight s1 p (WithQoS m QoSAtLeastOnce p) now
      = (None, s1\<lparr>se_inflight := se_inflight s @ [sent (WithQoS m QoSAtLeastOnce 0) now p]\<rparr>)"
    using t [of "WithQoS m QoSAtLeastOnce 0"] by (metis WithQoS_simps(3))
  with n free s1 assms(2,4) show ?thesis by (auto simp: receive_def)
qed

lemma Downgrade_zero: "Downgrade q g = 0 \<longleftrightarrow> q = 0 \<or> g = 0"
  by (auto simp: Downgrade_min min_def)

lemma level_for_zero:
  assumes "broker_ok b"
  shows "(\<exists>f q. subscribed b c f = Some q \<and> q \<noteq> 0 \<and> Matches f t) \<longleftrightarrow> (\<exists>g. level_for b t c = Some g \<and> g \<noteq> 0)"
  using level_for_best [OF assms, of c t] by (fastforce simp: best_def split: option.splits)

text \<open>Claim C3. A published message reaches every session that is due to get it at level 1. For a
  connected client with room in its in-flight window it is filed there under a fresh
  identifier, with the retain flag cleared; for a client that is away or whose window is full
  it goes to the end of the offline queue, which gives up its oldest message when full. A
  session with no matching filter of level 1, and any session when the message itself has
  level 0, is left exactly as it was.\<close>

theorem Publish_reaches_sessions:
  assumes "broker_ok b" and "session_Get (b_sessions b) c = Some s" and "se_maxInflight s \<le> 65535"
  shows "\<exists>s'. session_Get (b_sessions (Publish b m)) c = Some s' \<and>
    (if m_qos m \<noteq> 0 \<and> (\<exists>f q. subscribed b c f = Some q \<and> q \<noteq> 0 \<and> Matches f (m_topic m)) then
       let live = WithQoS (AsLiveDelivery m) QoSAtLeastOnce 0 in
       if sinkFor b c \<noteq> None \<and> HasInflightCapacity s
       then \<exists>p. p \<noteq> 0 \<and> mget (se_inflight s) p = None
         \<and> se_inflight s' = se_inflight s @ [sent live (b_now b) p] \<and> se_queued s' = se_queued s
       else se_inflight s' = se_inflight s
         \<and> se_queued s' = drop (length (se_queued s) + 1 - nat (se_maxQueued s)) (se_queued s @ [live])
     else s' = s)"
proof -
  have ok: "session_ok s" using assms(1,2) by (auto simp: broker_ok_def state_ok_def store_ok_iff)
  note session = Publish_session [of b m c, unfolded assms(2) option.map]
  show ?thesis
  proof (cases "m_qos m \<noteq> 0 \<and> (\<exists>f q. subscribed b c f = Some q \<and> q \<noteq> 0 \<and> Matches f (m_topic m))")
    case True
    then obtain g where "level_for b (m_topic m) c = Some g" "g \<noteq> 0" using level_for_zero [OF assms(1)] by blast
    with session True have "session_Get (b_sessions (Publish b m)) c
        = Some (receive (sinkFor b c) (AsLiveDelivery m) (b_now b) s)" by (simp add: Downgrade_zero)
    moreover note receive_queued [OF ok, of "sinkFor b c" "AsLiveDelivery m" "b_now b"]
    moreover note receive_tracked [OF ok _ assms(3), of "sinkFor b c" "AsLiveDelivery m" "b_now b"]
    ultimately show ?thesis using True unfolding Let_def by auto
  next
    case False
    then have "\<nexists>g. level_for b (m_topic m) c = Some g \<and> Downgrade (m_qos m) g \<noteq> 0"
      using level_for_zero [OF assms(1)] by (auto simp: Downgrade_zero)
    with False session show ?thesis by (auto split: option.splits if_splits)
  qed
qed

text \<open>The message that a delivery hands to the sink of the client, if any.\<close>

definition emitted :: "session option \<Rightarrow> message \<Rightarrow> qos \<Rightarrow> message option" where
  "emitted so m q =
     (if q = 0 then Some (WithQoS m QoSAtMostOnce 0)
      else case so of
        None \<Rightarrow> None
      | Some s \<Rightarrow>
          if \<not> HasInflightCapacity s then None
          else case NextPacketID s of
            (Inl err, s) \<Rightarrow> None
          | (Inr p, s) \<Rightarrow> if fst (TrackInflight s p (WithQoS m q p) 0) = None then Some (WithQoS m q p) else None)"

definition push :: "conn \<Rightarrow> message option \<Rightarrow> conn" where
  "push c mo = (case mo of None \<Rightarrow> c | Some m \<Rightarrow> snd (Send c (publish_packet m)))"

lemma TrackInflight_now: "fst (TrackInflight s p m now) = fst (TrackInflight s p m now')"
  by (simp add: TrackInflight_def)

lemma sink_Send_conns:
  "mget (b_conns (snd (sink_Send b k p))) k' =
     (if k' = k then map_option (\<lambda>c. snd (Send c p)) (mget (b_conns b) k) else mget (b_conns b) k')"
  by (auto simp: sink_Send_def split: option.split prod.split)

lemma sendPublish_conns:
  "mget (b_conns (sendPublish b sink m)) k =
     (if sink = Some k then map_option (\<lambda>c. push c (Some m)) (mget (b_conns b) k) else mget (b_conns b) k)"
  using sink_Send_conns [of b "the sink" "publish_packet m" k]
  by (auto simp: sendPublish_def push_def split_beta split: option.split)

lemma push_None [simp]: "push c None = c" "map_option (\<lambda>x. x) y = y"
  by (simp_all add: push_def option.map_ident)

lemma deliver_conn:
  assumes "q \<le> MaxSupportedQoS"
  shows "mget (b_conns (deliver b c m q)) k =
    (if sinkFor b c = Some k
     then map_option (\<lambda>cn. push cn (emitted (session_Get (b_sessions b) c) m q)) (mget (b_conns b) k)
     else mget (b_conns b) k)"
proof (cases "q = 0")
  case False
  with assms have q: "q = 1" by (simp add: qos_le_1)
  show ?thesis
  proof (cases "session_Get (b_sessions b) c")
    case None
    then show ?thesis by (simp add: q deliver_def Let_def updateSession_None dropOne_def emitted_def)
  next
    case (Some s)
    obtain e s' b' where d: "deliverTo (sinkFor b c) m 1 s b = (e, s', b')" by (metis prod_cases3)
    have "mget (b_conns b') k = (if sinkFor b c = Some k
        then map_option (\<lambda>cn. push cn (emitted (Some s) m 1)) (mget (b_conns b) k) else mget (b_conns b) k)"
      using d by (auto simp: deliverTo_def emitted_def Let_def dropOne_def sendPublish_conns
          TrackInflight_now [of _ _ _ 0 "b_now b"] split: if_splits prod.splits sum.splits option.splits)
    then show ?thesis
      using updateSession_Some [of "deliverTo (sinkFor b c) m 1", OF d Some] Some
      by (auto simp: q deliver_def Let_def dropOne_def split: option.split)
  qed
qed (auto simp: deliver_def Let_def sendPublish_conns emitted_def)

lemma deliverAll_conn:
  assumes "map_ok cs" and "list_all (\<lambda>(c, q). q \<le> MaxSupportedQoS) cs"
    and "sinkFor b c = Some k" and "\<forall>c'. sinkFor b c' = Some k \<longrightarrow> c' = c"
  shows "mget (b_conns (deliverAll b m cs)) k =
    map_option (\<lambda>cn. push cn (Option.bind (mget cs c) (emitted (session_Get (b_sessions b) c) m))) (mget (b_conns b) k)"
  using assms
proof (induction cs arbitrary: b)
  case (Cons x cs)
  obtain d q where x: "x = (d, q)" by force
  with Cons.prems have q: "q \<le> MaxSupportedQoS" and ok: "map_ok cs" "mget cs d = None" by auto
  have sinks: "sinkFor (deliver b d m q) = sinkFor b"
    using deliver_frame(5) [OF q, of b d m] by (simp add: sinkFor_def fun_eq_iff)
  have other: "sinkFor b d \<noteq> Some k" if "d \<noteq> c" using Cons.prems(4) that by blast
  have "mget (b_conns (deliverAll (deliver b d m q) m cs)) k =
      map_option (\<lambda>cn. push cn (Option.bind (mget cs c) (emitted (session_Get (b_sessions (deliver b d m q)) c) m)))
        (mget (b_conns (deliver b d m q)) k)"
    by (rule Cons.IH) (use Cons.prems(1,2) x in simp, use Cons.prems(1,2) x in simp, unfold sinks, fact+)
  with x ok other Cons.prems(3) show ?case
    by (cases "d = c") (simp_all add: deliver_session [OF q] deliver_conn [OF q])
next
  case Nil
  show ?case by simp
qed

lemma Publish_conn:
  assumes "sinkFor b c = Some k" and "\<forall>c'. sinkFor b c' = Some k \<longrightarrow> c' = c"
  shows "mget (b_conns (Publish b m)) k =
    map_option (\<lambda>cn. push cn (Option.bind (level_for b (m_topic m) c)
        (\<lambda>g. emitted (session_Get (b_sessions b) c) (AsLiveDelivery m) (Downgrade (m_qos m) g)))) (mget (b_conns b) k)"
proof -
  let ?b = "(applyRetention b m)\<lparr>b_published := b_published b + 1\<rparr>"
  have sinks: "sinkFor ?b = sinkFor b" by (simp add: sinkFor_def fun_eq_iff)
  have "mget (b_conns (Publish b m)) k = map_option
      (\<lambda>cn. push cn (Option.bind (mget (recipients b m) c) (emitted (session_Get (b_sessions ?b) c) (AsLiveDelivery m))))
      (mget (b_conns ?b) k)"
    unfolding Publish_deliverAll by (rule deliverAll_conn [OF recipients_ok]) (unfold sinks, fact+)
  then show ?thesis by (cases "level_for b (m_topic m) c") (simp_all add: mget_recipients)
qed

lemma emitted_Some: "emitted so m q = Some m' \<Longrightarrow> \<exists>pid. m' = WithQoS m q pid"
  by (auto simp: emitted_def split: if_splits option.splits prod.splits sum.splits)

text \<open>Claim C11. A connected client gets at most one copy of a published message, however many of its
  filters match. The copy has the retain flag cleared and the lower of the level of the
  message and the highest level granted among the matching filters. A client none of whose
  filters matches gets nothing. When a filter matches, the connection is open and its outbound
  queue has room, a message of level 0 is queued for sending.\<close>

theorem Publish_sends_one_copy:
  assumes "broker_ok b" and "sinkFor b c = Some k" and "\<forall>c'. sinkFor b c' = Some k \<longrightarrow> c' = c"
    and "mget (b_conns b) k = Some cn"
  shows "\<exists>ps. mget (b_conns (Publish b m)) k = Some (cn\<lparr>cn_outbound := cn_outbound cn @ ps\<rparr>) \<and> length ps \<le> 1
    \<and> (\<forall>p \<in> set ps. \<exists>g pid. best {q. \<exists>f. subscribed b c f = Some q \<and> Matches f (m_topic m)} (Some g)
        \<and> p = publish_packet (WithQoS (AsLiveDelivery m) (Downgrade (m_qos m) g) pid))
    \<and> (m_qos m = 0 \<and> (\<exists>f q. subscribed b c f = Some q \<and> Matches f (m_topic m))
        \<and> \<not> cn_done cn \<and> length (cn_outbound cn) < cn_queueSize cn \<longrightarrow> length ps = 1)"
proof -
  note best = level_for_best [OF assms(1), of c "m_topic m"]
  let ?mo = "Option.bind (level_for b (m_topic m) c)
        (\<lambda>g. emitted (session_Get (b_sessions b) c) (AsLiveDelivery m) (Downgrade (m_qos m) g))"
  have conn: "mget (b_conns (Publish b m)) k = Some (push cn ?mo)"
    using Publish_conn [OF assms(2,3), of m] assms(4) by simp
  have zero: "?mo \<noteq> None" if "m_qos m = 0" "\<exists>f q. subscribed b c f = Some q \<and> Matches f (m_topic m)"
    using that best by (auto simp: best_def emitted_def Downgrade_zero split: option.splits)
  show ?thesis
  proof (cases "\<exists>m'. ?mo = Some m' \<and> \<not> cn_done cn \<and> length (cn_outbound cn) < cn_queueSize cn")
    case True
    then obtain m' where m': "?mo = Some m'" and room: "\<not> cn_done cn" "length (cn_outbound cn) < cn_queueSize cn"
      by blast
    then obtain g pid where "level_for b (m_topic m) c = Some g"
        "m' = WithQoS (AsLiveDelivery m) (Downgrade (m_qos m) g) pid"
      by (auto simp: bind_eq_Some_conv dest: emitted_Some)
    with best conn m' room show ?thesis
      by (intro exI [of _ "[publish_packet m']"]) (auto simp: push_def Send_def)
  next
    case False
    then have "push cn ?mo = cn" by (auto simp: push_def Send_def split: option.split)
    moreover have "\<not> (m_qos m = 0 \<and> (\<exists>f q. subscribed b c f = Some q \<and> Matches f (m_topic m))
        \<and> \<not> cn_done cn \<and> length (cn_outbound cn) < cn_queueSize cn)"
      using zero False by blast
    ultimately show ?thesis using conn by (intro exI [of _ "[]"]) simp
  qed
qed

lemma deliver_published: "b_published (deliver b c x q) = b_published b"
  by (auto simp: deliver_def Let_def dropOne_def updateSession_def Update_def deliverTo_def
      split: if_splits option.splits prod.splits sum.splits)

lemma Publish_published: "b_published (Publish b m) = b_published b + 1"
proof -
  have "b_published (deliverAll b x cs) = b_published b" for b x cs
    by (induction cs arbitrary: b) (auto simp: deliverAll_def deliver_published)
  then show ?thesis by (simp add: Publish_deliverAll)
qed

text \<open>The retained store after a publish: a message with the retain flag replaces what was kept
  for its topic, or removes it when its payload is empty; no other topic is affected, and a
  message without the flag changes nothing.\<close>

theorem Publish_retains:
  "mget (b_retained (Publish b m)) t =
    (if m_retain m \<and> t = m_topic m then (if m_payload m = [] then None else Some m) else mget (b_retained b) t)"
  using delivers_frame(2) [OF Publish_delivers, of b m]
  by (simp add: applyRetention_def ClearsRetained_def IsEmpty_def Store_def Remove_def)

text \<open>A broker with one client, connected and subscribed.\<close>

definition sample_config :: config where
  "sample_config = \<lparr>cf_ResumeBatchSize = 0, cf_SessionLimits = \<lparr>li_MaxInflight = 2, li_MaxQueued = 2, li_MaxSubscriptions = 2\<rparr>,
     cf_MaxKeepAlive = 60, cf_AllowAnonymous = True, cf_MaxPayloadBytes = 100, cf_TransportMaxPayloadBytes = 100\<rparr>"

definition sample_broker :: broker where
  "sample_broker = (NewBroker sample_config 5 5)\<lparr>
     b_index := index_Subscribe NewSubscriptionIndex ''a/#'' ''c'' 1,
     b_sessions := [(''c'', snd (session_Subscribe sample_session ''a/#'' 1 3))],
     b_conns := [(0, NewConnection 4 ''addr'')], b_sinks := [(''c'', 0)]\<rparr>"

definition sample_message :: message where
  "sample_message = \<lparr>m_topic = ''a/b'', m_payload = [7], m_qos = 1, m_retain = True, m_dup = False,
     m_packetID = 9, m_createdAt = 5\<rparr>"

lemma sample_broker_session:
  "session_Get (b_sessions sample_broker) c =
     (if c = ''c'' then Some (snd (session_Subscribe sample_session ''a/#'' 1 3)) else None)"
  by (simp add: sample_broker_def session_Get_def)

lemma sample_session_fields:
  "se_maxInflight (snd (session_Subscribe sample_session f q now)) = 2"
  "se_clientID (snd (session_Subscribe sample_session f q now)) = ''c''"
  "traffic_ok (snd (session_Subscribe sample_session f q now))"
  "session_Subscription (snd (session_Subscribe sample_session f q now)) f'
     = (if f' = f then Some (NewSubscription ''c'' f q now) else None)"
  by (simp_all add: sample_session_def session_Subscribe_def NewSession_def withDefaults_def Let_def traffic_ok_def
      session_Subscription_def)

lemma sample_broker_sinks: "sinkFor sample_broker c = (if c = ''c'' then Some 0 else None)"
  by (simp add: sample_broker_def sinkFor_def)

lemma sample_broker_conns: "mget (b_conns sample_broker) 0 = Some (NewConnection 4 ''addr'')"
  by (simp add: sample_broker_def)

lemma sample_broker_ok: "broker_ok sample_broker"
proof -
  have "session_ok sample_session" by (simp add: sample_session_def NewSession_ok)
  then have ss: "session_ok (snd (session_Subscribe sample_session ''a/#'' 1 3))" by (rule Subscribe_ok)
  have "index_ok (b_index sample_broker)"
    by (simp add: sample_broker_def Subscribe_index_ok New_ok filter_ok_def Levels_def MultiLevelWildcard_def)
  moreover have "store_ok (b_sessions sample_broker)"
    using ss by (simp add: sample_broker_def store_ok_def sample_session_fields)
  moreover have "granted (b_index sample_broker) f c = subscribed sample_broker c f" for f c
    by (simp add: subscribed_def sample_broker_session sample_session_fields)
      (simp add: sample_broker_def granted_Subscribe granted_New)
  ultimately show ?thesis
    by (simp add: broker_ok_def state_ok_def sample_broker_session sample_session_fields refs_ok_def)
      (simp add: sample_broker_def NewBroker_def NewRetainedStore_def NewClientRegistry_def NewConnection_def)
qed

lemma Publish_reaches_sessions_witness:
  "\<exists>s'. session_Get (b_sessions (Publish sample_broker sample_message)) ''c'' = Some s' \<and>
    (if m_qos sample_message \<noteq> 0 \<and> (\<exists>f q. subscribed sample_broker ''c'' f = Some q \<and> q \<noteq> 0 \<and> Matches f (m_topic sample_message)) then
       let live = WithQoS (AsLiveDelivery sample_message) QoSAtLeastOnce 0; s = snd (session_Subscribe sample_session ''a/#'' 1 3) in
       if sinkFor sample_broker ''c'' \<noteq> None \<and> HasInflightCapacity s
       then \<exists>p. p \<noteq> 0 \<and> mget (se_inflight s) p = None
         \<and> se_inflight s' = se_inflight s @ [sent live (b_now sample_broker) p] \<and> se_queued s' = se_queued s
       else se_inflight s' = se_inflight s
         \<and> se_queued s' = drop (length (se_queued s) + 1 - nat (se_maxQueued s)) (se_queued s @ [live])
     else s' = snd (session_Subscribe sample_session ''a/#'' 1 3))"
  unfolding Let_def
  by (rule Publish_reaches_sessions [OF sample_broker_ok, unfolded Let_def])
    (simp_all add: sample_broker_session sample_session_fields)

lemma Publish_sends_one_copy_witness:
  "\<exists>ps. mget (b_conns (Publish sample_broker sample_message)) 0
      = Some ((NewConnection 4 ''addr'')\<lparr>cn_outbound := cn_outbound (NewConnection 4 ''addr'') @ ps\<rparr>) \<and> length ps \<le> 1
    \<and> (\<forall>p \<in> set ps. \<exists>g pid. best {q. \<exists>f. subscribed sample_broker ''c'' f = Some q \<and> Matches f (m_topic sample_message)} (Some g)
        \<and> p = publish_packet (WithQoS (AsLiveDelivery sample_message) (Downgrade (m_qos sample_message) g) pid))
    \<and> (m_qos sample_message = 0 \<and> (\<exists>f q. subscribed sample_broker ''c'' f = Some q \<and> Matches f (m_topic sample_message))
        \<and> \<not> cn_done (NewConnection 4 ''addr'') \<and> length (cn_outbound (NewConnection 4 ''addr'')) < cn_queueSize (NewConnection 4 ''addr'')
        \<longrightarrow> length ps = 1)"
  by (rule Publish_sends_one_copy [OF sample_broker_ok]) (auto simp: sample_broker_sinks sample_broker_conns split: if_splits)

subsection \<open>Flow control\<close>

lemma promoteStep_go:
  assumes "session_ok s" and "traffic_ok s" and "HasInflightCapacity s" and "se_maxInflight s \<le> 65535"
    and "se_queued s = m # ms"
  obtains p n where "p \<noteq> 0" and "mget (se_inflight s) p = None"
    and "promoteStep s b k = (True, s\<lparr>se_queued := ms, se_nextPacketID := n,
        se_inflight := se_inflight s @ [sent m (b_now b) p]\<rparr>, sendPublish b k (im_Message (snd (sent m (b_now b) p))))"
proof -
  let ?s = "s\<lparr>se_queued := ms\<rparr>"
  have d: "DrainQueue s 1 = ([m], ?s)" using assms(5) by (simp add: DrainQueue_def Let_def)
  then have ok: "session_ok ?s" using DrainQueue_ok [OF assms(1), of 1] by simp
  have cap: "HasInflightCapacity ?s" "se_maxInflight ?s \<le> 65535" using assms(3,4) by (simp_all add: HasInflightCapacity_def)
  have q: "m_qos m = 1" using assms(2,5) by (simp add: traffic_ok_def)
  obtain p s1 where n: "NextPacketID ?s = (Inr p, s1)" and free: "p \<noteq> 0" "mget (se_inflight ?s) p = None"
    and s1: "\<exists>n. s1 = ?s\<lparr>se_nextPacketID := n\<rparr>"
    and t: "\<And>m. TrackInflight s1 p (WithQoS m (m_qos m) p) (b_now b)
        = (None, s1\<lparr>se_inflight := se_inflight ?s @ [sent m (b_now b) p]\<rparr>)"
    using track_next [OF ok cap] by blast
  obtain i where i: "s1 = ?s\<lparr>se_nextPacketID := i\<rparr>" using s1 by blast
  have "promoteStep s b k = (True, s1\<lparr>se_inflight := se_inflight s @ [sent m (b_now b) p]\<rparr>,
      sendPublish b k (im_Message (snd (sent m (b_now b) p))))"
    using t [of m] by (simp add: promoteStep_def assms(3) d n q sent_def Let_def)
  with free i show thesis by (intro that) simp_all
qed

lemma promoteStep_stop:
  assumes "\<not> HasInflightCapacity s \<or> se_queued s = []"
  shows "promoteStep s b k = (False, s, b)"
  using assms by (auto simp: promoteStep_def DrainQueue_def)

text \<open>How many messages of the queue the window has room for.\<close>

definition promotable :: "session \<Rightarrow> nat" where
  "promotable s = min (length (se_queued s)) (nat (se_maxInflight s) - length (se_inflight s))"

definition promoted :: "time \<Rightarrow> message list \<Rightarrow> packet_id list \<Rightarrow> (packet_id \<times> inflightMessage) list" where
  "promoted now ms ps = map2 (\<lambda>m p. sent m now p) ms ps"

abbreviation entry_message :: "packet_id \<times> inflightMessage \<Rightarrow> message" where
  "entry_message x \<equiv> im_Message (snd x)"

text \<open>Sending messages in order, and what a connection gets of a list of packets: those that its outbound
  queue has room for.\<close>

definition transmit :: "conn_ref \<Rightarrow> broker \<Rightarrow> message list \<Rightarrow> broker" where
  "transmit k b ms = foldl (\<lambda>b m. sendPublish b (Some k) m) b ms"

definition offer :: "conn \<Rightarrow> packet list \<Rightarrow> conn" where
  "offer c ps = c\<lparr>cn_outbound := cn_outbound c
     @ take (if cn_done c then 0 else cn_queueSize c - length (cn_outbound c)) ps\<rparr>"

lemma offer_Cons: "offer (snd (Send c p)) ps = offer c (p # ps)"
  by (auto simp: offer_def Send_def take_Cons' Suc_diff_Suc)

lemma transmit_conns:
  "mget (b_conns (transmit k b ms)) k' =
     (if k' = k then map_option (\<lambda>c. offer c (map publish_packet ms)) (mget (b_conns b) k) else mget (b_conns b) k')"
proof (induction ms arbitrary: b)
  case (Cons m ms)
  have "transmit k b (m # ms) = transmit k (sendPublish b (Some k) m) ms" by (simp add: transmit_def)
  with Cons [of "sendPublish b (Some k) m"] show ?case
    by (simp add: sendPublish_conns option.map_comp comp_def push_def offer_Cons)
next
  case Nil
  show ?case by (cases "mget (b_conns b) k") (simp_all add: transmit_def offer_def)
qed

lemma transmit_append: "transmit k (transmit k b ms) ms' = transmit k b (ms @ ms')"
  by (simp add: transmit_def)

lemma transmit_now [simp]: "b_now (transmit k b ms) = b_now b" "b_cfg (transmit k b ms) = b_cfg b"
  by (induction ms arbitrary: b) (simp_all add: transmit_def)

lemma promoteQueued_promotes:
  assumes "session_ok s" and "traffic_ok s" and "se_maxInflight s \<le> 65535"
  shows "\<exists>ps. length ps = promotable s \<and> distinct ps \<and> (\<forall>p \<in> set ps. p \<noteq> 0 \<and> mget (se_inflight s) p = None)
    \<and> se_queued (fst (promoteQueued s b (Some k))) = drop (length ps) (se_queued s)
    \<and> se_inflight (fst (promoteQueued s b (Some k))) = se_inflight s @ promoted (b_now b) (se_queued s) ps
    \<and> snd (promoteQueued s b (Some k)) = transmit k b (map entry_message (promoted (b_now b) (se_queued s) ps))"
  using assms
proof (induction s b "Some k" rule: promoteQueued.induct)
  case (1 s b)
  show ?case
  proof (cases "HasInflightCapacity s \<and> se_queued s \<noteq> []")
    case False
    then have "promoteQueued s b (Some k) = (s, b)"
      by (subst promoteQueued.simps) (simp add: promoteStep_stop disj_commute)
    moreover have "promotable s = 0"
      using False by (auto simp: promotable_def HasInflightCapacity_def)
    ultimately show ?thesis by (intro exI [of _ "[]"]) (simp add: promoted_def transmit_def)
  next
    case True
    then obtain m ms where q: "se_queued s = m # ms" by (cases "se_queued s") auto
    obtain p n where free: "p \<noteq> 0" "mget (se_inflight s) p = None"
      and st: "promoteStep s b (Some k) = (True, s\<lparr>se_queued := ms, se_nextPacketID := n,
        se_inflight := se_inflight s @ [sent m (b_now b) p]\<rparr>, sendPublish b (Some k) (im_Message (snd (sent m (b_now b) p))))"
      (is "_ = (_, ?s, ?b)")
      using promoteStep_go [OF 1(2,3) _ 1(4) q] True by blast
    have ok: "session_ok ?s" "traffic_ok ?s" "se_maxInflight ?s \<le> 65535"
      using promoteStep_step [OF st] 1(2-4) by (auto simp: session_step_def)
    from 1(1) [OF st [symmetric] refl refl ok]
    obtain ps where ps: "length ps = promotable ?s" "distinct ps" "\<forall>p \<in> set ps. p \<noteq> 0 \<and> mget (se_inflight ?s) p = None"
      "se_queued (fst (promoteQueued ?s ?b (Some k))) = drop (length ps) (se_queued ?s)"
      "se_inflight (fst (promoteQueued ?s ?b (Some k))) = se_inflight ?s @ promoted (b_now ?b) (se_queued ?s) ps"
      "snd (promoteQueued ?s ?b (Some k)) = transmit k ?b (map entry_message (promoted (b_now ?b) (se_queued ?s) ps))" by blast
    have rec: "promoteQueued s b (Some k) = promoteQueued ?s ?b (Some k)" by (subst promoteQueued.simps) (simp add: st)
    have "promotable s = Suc (promotable ?s)"
      using True q by (simp add: promotable_def HasInflightCapacity_def)
    with ps free show ?thesis
      unfolding rec by (intro exI [of _ "p # ps"]) (auto simp: promoted_def transmit_def q sent_def)
  qed
qed

lemma Acknowledge_session:
  assumes "session_Get (b_sessions b) c = Some s" and "sinkFor b c = Some k" and "mget (se_inflight s) p = Some im" and "p \<noteq> 0"
  shows "Acknowledge b c p =
    (None, (snd (promoteQueued (s\<lparr>se_inflight := mdel p (se_inflight s)\<rparr>) b (Some k)))
       \<lparr>b_sessions := mput c (fst (promoteQueued (s\<lparr>se_inflight := mdel p (se_inflight s)\<rparr>) b (Some k))) (b_sessions b)\<rparr>)"
  unfolding Acknowledge_def using assms
  by (simp add: NewPacketID_def updateSession_def Update_def session_Get_def session_Acknowledge_def split: prod.split)

text \<open>Claim C9. Flow control of a connected client: an acknowledgement takes its message out of the
  window and moves exactly as many waiting messages into it as there is room for, so that
  afterwards the queue is empty or the window is full. They leave the queue from its front, get
  distinct fresh identifiers, and are sent in the order in which they were queued.\<close>

theorem Acknowledge_flow_control:
  assumes "broker_ok b" and "session_Get (b_sessions b) c = Some s" and "sinkFor b c = Some k"
    and "mget (se_inflight s) p = Some im" and "se_maxInflight s \<le> 65535"
  shows "\<exists>s' ps. fst (Acknowledge b c p) = None \<and> session_Get (b_sessions (snd (Acknowledge b c p))) c = Some s'
    \<and> length ps = min (length (se_queued s)) (nat (se_maxInflight s) - (length (se_inflight s) - 1))
    \<and> distinct ps \<and> (\<forall>q \<in> set ps. q \<noteq> 0 \<and> mget (mdel p (se_inflight s)) q = None)
    \<and> se_queued s' = drop (length ps) (se_queued s)
    \<and> se_inflight s' = mdel p (se_inflight s) @ promoted (b_now b) (se_queued s) ps
    \<and> mget (b_conns (snd (Acknowledge b c p))) k = map_option
        (\<lambda>cn. offer cn (map (publish_packet \<circ> entry_message) (promoted (b_now b) (se_queued s) ps))) (mget (b_conns b) k)"
proof -
  have ok: "session_ok s" "traffic_ok s" using assms(1,2) by (auto simp: broker_ok_def state_ok_def store_ok_iff)
  have p: "p \<noteq> 0" using ok(1) list_all_mget [of inflight_ok, OF _ assms(4)] by (simp add: session_ok_def inflight_ok_def)
  have a: "session_Acknowledge s p = (Inr im, s\<lparr>se_inflight := mdel p (se_inflight s)\<rparr>)" (is "_ = (_, ?s)")
    by (simp add: session_Acknowledge_def assms(4))
  have ok': "session_ok ?s" "traffic_ok ?s" "se_maxInflight ?s \<le> 65535"
    using Acknowledge_step [of s p] ok assms(5) by (auto simp: session_step_def a)
  have len: "length (mdel p (se_inflight s)) = length (se_inflight s) - 1"
    using ok(1) assms(4) by (simp add: length_mdel session_ok_def)
  obtain ps where ps: "length ps = promotable ?s" "distinct ps" "\<forall>p \<in> set ps. p \<noteq> 0 \<and> mget (se_inflight ?s) p = None"
      "se_queued (fst (promoteQueued ?s b (Some k))) = drop (length ps) (se_queued ?s)"
      "se_inflight (fst (promoteQueued ?s b (Some k))) = se_inflight ?s @ promoted (b_now b) (se_queued ?s) ps"
      "snd (promoteQueued ?s b (Some k)) = transmit k b (map entry_message (promoted (b_now b) (se_queued ?s) ps))"
    using promoteQueued_promotes [OF ok'] by blast
  from Acknowledge_session [OF assms(2-4) p] ps len show ?thesis
    by (intro exI [of _ "fst (promoteQueued ?s b (Some k))"] exI [of _ ps]) (simp add: promotable_def transmit_conns session_Get_def)
qed

lemma mdel_last: "mget xs p = None \<Longrightarrow> mdel p (xs @ [(p, v)]) = xs"
  by (induction xs) (auto split: if_splits)

lemma Acknowledge_last:
  assumes "session_Get (b_sessions b) c = Some s" and "session_ok s" and "traffic_ok s" and "se_maxInflight s \<le> 65535"
    and "sinkFor b c = Some k" and "se_inflight s = xs @ [(p, im)]" and "mget xs p = None" and "p \<noteq> 0"
  shows "\<exists>s' ps. session_Get (b_sessions (snd (Acknowledge b c p))) c = Some s'
    \<and> se_inflight s' = xs @ promoted (b_now b) (se_queued s) ps"
proof -
  let ?s = "s\<lparr>se_inflight := xs\<rparr>"
  have del: "mdel p (se_inflight s) = xs" "mget (se_inflight s) p = Some im"
    using assms(6,7) by (simp_all add: mdel_last map_add_def)
  then have "session_step s ?s" using Acknowledge_step [of s p] by (simp add: session_Acknowledge_def)
  then have ok: "session_ok ?s" "traffic_ok ?s" "se_maxInflight ?s \<le> 65535" using assms(2-4) by (auto simp: session_step_def)
  from promoteQueued_promotes [OF ok, of b k] obtain ps where
    "se_inflight (fst (promoteQueued ?s b (Some k))) = xs @ promoted (b_now b) (se_queued s) ps" by auto
  moreover have "session_Get (b_sessions (snd (Acknowledge b c p))) c = Some (fst (promoteQueued ?s b (Some k)))"
    using Acknowledge_session [OF assms(1,5) del(2) assms(8)] by (simp add: del(1) session_Get_def)
  ultimately show ?thesis by blast
qed

lemma Publish_session_limits:
  assumes "session_Get (b_sessions b) c = Some s" and "session_Get (b_sessions (Publish b m)) c = Some s'"
  shows "se_maxInflight s' = se_maxInflight s"
proof -
  have "rel_option session_step (session_Get (b_sessions (applyRetention b m)) c) (session_Get (b_sessions (Publish b m)) c)"
    using Publish_delivers by (simp add: delivers_def)
  then have "session_core s' = session_core s" using assms by (simp add: applyRetention_def session_step_def split: if_splits)
  from arg_cong [OF this, of se_maxInflight] show ?thesis by (simp add: session_core_def)
qed

text \<open>For a client with room in its window, the message that is sent is the one that is filed.\<close>

lemma filed_and_sent:
  assumes "session_ok s" and "HasInflightCapacity s" and "se_maxInflight s \<le> 65535"
  obtains p where "p \<noteq> 0" and "mget (se_inflight s) p = None"
    and "emitted (Some s) m QoSAtLeastOnce = Some (WithQoS m QoSAtLeastOnce p)"
    and "se_inflight (receive (Some k) m now s) = se_inflight s @ [sent (WithQoS m QoSAtLeastOnce 0) now p]"
    and "se_queued (receive (Some k) m now s) = se_queued s"
proof -
  let ?m = "WithQoS m QoSAtLeastOnce 0"
  obtain p s1 where n: "NextPacketID s = (Inr p, s1)" and free: "p \<noteq> 0" "mget (se_inflight s) p = None"
    and s1: "\<exists>n. s1 = s\<lparr>se_nextPacketID := n\<rparr>"
    and t: "\<And>m. TrackInflight s1 p (WithQoS m (m_qos m) p) now = (None, s1\<lparr>se_inflight := se_inflight s @ [sent m now p]\<rparr>)"
    using track_next [OF assms] by blast
  have "WithQoS m QoSAtLeastOnce p = WithQoS ?m QoSAtLeastOnce p" by (simp add: WithQoS_def Let_def RequiresAcknowledgement_iff)
  then have tr: "TrackInflight s1 p (WithQoS m QoSAtLeastOnce p) now = (None, s1\<lparr>se_inflight := se_inflight s @ [sent ?m now p]\<rparr>)"
    using t [of ?m] by (metis WithQoS_simps(3))
  then have "fst (TrackInflight s1 p (WithQoS m QoSAtLeastOnce p) 0) = None" using TrackInflight_now [of s1 p _ 0 now] by simp
  with n assms(2) have e: "emitted (Some s) m QoSAtLeastOnce = Some (WithQoS m QoSAtLeastOnce p)" by (simp add: emitted_def)
  from n assms(2) tr s1 have "se_inflight (receive (Some k) m now s) = se_inflight s @ [sent ?m now p]"
    "se_queued (receive (Some k) m now s) = se_queued s" by (auto simp: receive_def)
  with that free e show ?thesis by blast
qed

lemma Publish_frame:
  "b_clients (Publish b m) = b_clients b" "sinkFor (Publish b m) = sinkFor b" "b_now (Publish b m) = b_now b"
proof -
  have "broker_core (Publish b m) = broker_core (applyRetention b m)" using Publish_delivers by (simp add: delivers_def sends_def)
  from arg_cong [OF this, of b_clients] arg_cong [OF this, of b_sinks] arg_cong [OF this, of b_now]
  show "b_clients (Publish b m) = b_clients b" "sinkFor (Publish b m) = sinkFor b" "b_now (Publish b m) = b_now b"
    by (simp_all add: broker_core_def applyRetention_def sinkFor_def fun_eq_iff)
qed

text \<open>What a subscriber's connection and session have after a publish that is due to it at level 1.\<close>

lemma Publish_due:
  assumes "broker_ok b" and "session_Get (b_sessions b) c = Some s" and "se_maxInflight s \<le> 65535" and "HasInflightCapacity s"
    and "sinkFor b c = Some k" and "\<forall>c'. sinkFor b c' = Some k \<longrightarrow> c' = c" and "mget (b_conns b) k = Some cn"
    and "m_qos m \<noteq> 0" and "subscribed b c f = Some q" and "q \<noteq> 0" and "Matches f (m_topic m)"
  obtains p s' where "p \<noteq> 0" and "mget (se_inflight s) p = None"
    and "mget (b_conns (Publish b m)) k = Some (push cn (Some (WithQoS (AsLiveDelivery m) QoSAtLeastOnce p)))"
    and "session_Get (b_sessions (Publish b m)) c = Some s'"
    and "se_inflight s' = se_inflight s @ [sent (WithQoS (AsLiveDelivery m) QoSAtLeastOnce 0) (b_now b) p]"
    and "se_queued s' = se_queued s"
proof -
  have ok: "session_ok s" using assms(1,2) by (auto simp: broker_ok_def state_ok_def store_ok_iff)
  obtain g where g: "level_for b (m_topic m) c = Some g" "g \<noteq> 0" using level_for_zero [OF assms(1)] assms(9-11) by blast
  have "Downgrade (m_qos m) g \<le> MaxSupportedQoS" by (simp add: Downgrade_min)
  then have "Downgrade (m_qos m) g = 0 \<or> Downgrade (m_qos m) g = 1" by (simp only: qos_le_1)
  then have d: "Downgrade (m_qos m) g = QoSAtLeastOnce" using Downgrade_zero assms(8) g(2) by auto
  obtain p where p: "p \<noteq> 0" "mget (se_inflight s) p = None"
    "emitted (Some s) (AsLiveDelivery m) QoSAtLeastOnce = Some (WithQoS (AsLiveDelivery m) QoSAtLeastOnce p)"
    "se_inflight (receive (Some k) (AsLiveDelivery m) (b_now b) s)
       = se_inflight s @ [sent (WithQoS (AsLiveDelivery m) QoSAtLeastOnce 0) (b_now b) p]"
    "se_queued (receive (Some k) (AsLiveDelivery m) (b_now b) s) = se_queued s"
    by (rule filed_and_sent [OF ok assms(4,3)])
  have "mget (b_conns (Publish b m)) k = Some (push cn (Some (WithQoS (AsLiveDelivery m) QoSAtLeastOnce p)))"
    using Publish_conn [OF assms(5,6), of m] assms(2,7) g(1) d p(3) by simp
  moreover have "session_Get (b_sessions (Publish b m)) c = Some (receive (Some k) (AsLiveDelivery m) (b_now b) s)"
    using Publish_session [of b m c] assms(2,5) g(1) d by simp
  ultimately show ?thesis using that p by blast
qed

lemma mput_same: "mget m k = Some v \<Longrightarrow> mput k v m = m"
  by (induction m) (auto split: if_splits)

text \<open>An acknowledgement is refused exactly when its identifier is zero or not in flight in
  the session of the client, or there is no such session, and a refused acknowledgement
  leaves the whole broker as it was.\<close>

theorem Acknowledge_refused:
  "if p = 0 \<or> Option.bind (session_Get (b_sessions b) c) (\<lambda>s. mget (se_inflight s) p) = None
   then \<exists>e. Acknowledge b c p = (Some e, b) else fst (Acknowledge b c p) = None"
proof (cases "p = 0")
  case False
  show ?thesis
  proof (cases "session_Get (b_sessions b) c")
    case (Some s)
    then have "mput c s (b_sessions b) = b_sessions b" by (simp add: session_Get_def mput_same)
    with Some False show ?thesis
      by (auto simp: Acknowledge_def NewPacketID_def session_Acknowledge_def updateSession_def Update_def session_Get_def
          Let_def split: option.split prod.split)
  qed (simp add: Acknowledge_def NewPacketID_def updateSession_None False)
qed (simp add: Acknowledge_def NewPacketID_def)

subsection \<open>Resumption\<close>

lemma promoteQueued_fixed:
  assumes "\<not> HasInflightCapacity s \<or> se_queued s = []"
  shows "promoteQueued s b k = (s, b)"
  by (subst promoteQueued.simps) (simp add: promoteStep_stop [OF assms])

text \<open>One call of \<open>promoteQueued\<close> does all the work of the loop of \<open>ResumeSession\<close>, whatever the batch size.\<close>

lemma resumeLoop_promotes:
  assumes "session_ok s" and "traffic_ok s" and "se_maxInflight s \<le> 65535" and "0 < cf_ResumeBatchSize (b_cfg b)"
  shows "resumeLoop 0 s b (Some k) = promoteQueued s b (Some k)"
proof (cases "HasInflightCapacity s")
  case True
  obtain s' b' where p: "promoteQueued s b (Some k) = (s', b')" by force
  obtain ps where ps: "length ps = promotable s" "se_queued s' = drop (length ps) (se_queued s)"
      "se_inflight s' = se_inflight s @ promoted (b_now b) (se_queued s) ps"
    using promoteQueued_promotes [OF assms(1-3), of b k] p by auto
  have "se_maxInflight s' = se_maxInflight s"
    using promoteQueued_step [of s b "Some k"] p by (auto simp: session_step_def dest: session_core_frame(5))
  with ps have "\<not> HasInflightCapacity s' \<or> se_queued s' = []"
    by (auto simp: promotable_def HasInflightCapacity_def promoted_def min_def)
  then have "promoteQueued s' b' (Some k) = (s', b')" by (rule promoteQueued_fixed)
  then have "resumeLoop n s' b' (Some k) = (s', b')" for n
    by (subst resumeLoop.simps) (simp add: Let_def)
  with True p assms(4) show ?thesis
    by (subst resumeLoop.simps) (simp add: Let_def)
next
  case False
  then show ?thesis by (subst resumeLoop.simps) (simp add: promoteQueued_fixed)
qed

text \<open>The window as identifiers and messages, without the times and counts of sending.\<close>

definition window :: "session \<Rightarrow> (packet_id \<times> message) list" where
  "window s = map (\<lambda>(p, im). (p, im_Message im)) (se_inflight s)"

lemma MarkRetransmitted_window: "window (MarkRetransmitted s p now) = window s"
proof -
  have "mget xs p = Some m \<Longrightarrow> map (\<lambda>(p, im). (p, im_Message im)) (mput p (m\<lparr>im_Attempts := n, im_SentAt := now\<rparr>) xs)
      = map (\<lambda>(p, im). (p, im_Message im)) xs" for m n and xs :: "(packet_id \<times> inflightMessage) list"
    by (induction xs) (auto split: if_splits)
  then show ?thesis by (simp add: window_def MarkRetransmitted_def split: option.split)
qed

lemma retransmit_parts:
  "fst (retransmit k now sb m) = MarkRetransmitted (fst sb) (im_PacketID m) now"
  "snd (retransmit k now sb m) = sendPublish (snd sb) k (AsRedelivery (im_Message m))"
  by (simp_all add: retransmit_def)

lemma retransmit_fold:
  "window (fst (foldl (retransmit (Some k) now) sb ms)) = window (fst sb)
    \<and> se_queued (fst (foldl (retransmit (Some k) now) sb ms)) = se_queued (fst sb)
    \<and> snd (foldl (retransmit (Some k) now) sb ms) = transmit k (snd sb) (map (AsRedelivery \<circ> im_Message) ms)"
proof (induction ms arbitrary: sb)
  case (Cons m ms)
  have "se_queued (MarkRetransmitted s p now) = se_queued s" for s p
    by (simp add: MarkRetransmitted_def split: option.split)
  with Cons [of "retransmit (Some k) now sb m"] show ?case
    by (simp add: retransmit_parts MarkRetransmitted_window transmit_def)
qed (simp add: transmit_def)


text \<open>A client with a full window, a waiting message and a connection.\<close>

definition loaded_session :: session where
  "loaded_session = (snd (session_Subscribe sample_session ''a/#'' 1 3))\<lparr>
     se_inflight := [sent sample_message 4 1, sent sample_message 5 2],
     se_queued := [WithQoS sample_message 1 0], se_nextPacketID := 3\<rparr>"

definition loaded_conn :: conn where
  "loaded_conn = (NewConnection 4 ''addr'')\<lparr>cn_client := Some 0, cn_clientID := ''c''\<rparr>"

definition loaded_broker :: broker where
  "loaded_broker = sample_broker\<lparr>b_sessions := [(''c'', loaded_session)], b_conns := [(0, loaded_conn)],
     b_clients := [(0, sample_client\<lparr>cl_id := ''c''\<rparr>)], b_registry := [(''c'', 0)]\<rparr>"

lemma loaded_session_ok: "session_ok loaded_session" "traffic_ok loaded_session" "se_maxInflight loaded_session = 2"
  "se_clientID loaded_session = ''c''"
  "session_Subscription loaded_session f = session_Subscription (snd (session_Subscribe sample_session ''a/#'' 1 3)) f"
  by (simp_all add: loaded_session_def session_ok_def traffic_ok_def sample_session_def session_Subscribe_def NewSession_def
      withDefaults_def Let_def subscription_ok_def inflight_ok_def sent_def sample_message_def session_Subscription_def)

lemma loaded_broker_parts:
  "session_Get (b_sessions loaded_broker) c = (if c = ''c'' then Some loaded_session else None)"
  "sinkFor loaded_broker ''c'' = Some 0" "mget (b_conns loaded_broker) 0 = Some loaded_conn"
  "conn_ClientID loaded_conn = ''c''" "cf_ResumeBatchSize (b_cfg loaded_broker) = 64"
  "mget (se_inflight loaded_session) 1 = Some (snd (sent sample_message 4 1))"
  by (simp_all add: loaded_broker_def session_Get_def sinkFor_def sample_broker_def loaded_conn_def conn_ClientID_def
      NewBroker_def publishing_withDefaults_def sample_config_def loaded_session_def sent_def)

lemma loaded_broker_ok: "broker_ok loaded_broker"
proof -
  have "subscribed loaded_broker c f = subscribed sample_broker c f" for c f
    by (simp add: subscribed_def loaded_broker_parts loaded_session_ok sample_broker_session)
  then show ?thesis
    using sample_broker_ok
    by (auto simp: broker_ok_def state_ok_def refs_ok_def loaded_broker_def store_ok_def loaded_session_ok session_Get_def
        sinkFor_def sample_broker_def loaded_conn_def NewConnection_def split: if_splits)
qed

lemma Acknowledge_flow_control_witness:
  "\<exists>s' ps. fst (Acknowledge loaded_broker ''c'' 1) = None
    \<and> session_Get (b_sessions (snd (Acknowledge loaded_broker ''c'' 1))) ''c'' = Some s'
    \<and> length ps = min (length (se_queued loaded_session)) (nat (se_maxInflight loaded_session) - (length (se_inflight loaded_session) - 1))
    \<and> distinct ps \<and> (\<forall>q \<in> set ps. q \<noteq> 0 \<and> mget (mdel 1 (se_inflight loaded_session)) q = None)
    \<and> se_queued s' = drop (length ps) (se_queued loaded_session)
    \<and> se_inflight s' = mdel 1 (se_inflight loaded_session) @ promoted (b_now loaded_broker) (se_queued loaded_session) ps
    \<and> mget (b_conns (snd (Acknowledge loaded_broker ''c'' 1))) 0 = map_option
        (\<lambda>cn. offer cn (map (publish_packet \<circ> entry_message) (promoted (b_now loaded_broker) (se_queued loaded_session) ps)))
        (mget (b_conns loaded_broker) 0)"
  by (rule Acknowledge_flow_control [OF loaded_broker_ok]) (simp_all add: loaded_broker_parts loaded_session_ok)


subsection \<open>Retained messages for a new subscription\<close>

text \<open>\<open>adds P c c'\<close>: the connection has got packets with the property \<open>P\<close>, and nothing else happened to it.\<close>

definition adds :: "(packet \<Rightarrow> bool) \<Rightarrow> conn \<Rightarrow> conn \<Rightarrow> bool" where
  "adds P c c' = (\<exists>ps. c' = c\<lparr>cn_outbound := cn_outbound c @ ps\<rparr> \<and> list_all P ps)"

lemma adds_refl [simp]: "adds P c c"
  unfolding adds_def by (rule exI [of _ "[]"]) simp

lemma adds_trans: "adds P c c' \<Longrightarrow> adds P c' c'' \<Longrightarrow> adds P c c''"
  by (auto simp: adds_def)

lemma adds_push: "(\<And>m. mo = Some m \<Longrightarrow> P (publish_packet m)) \<Longrightarrow> adds P c (push c mo)"
  unfolding adds_def push_def Send_def
  by (cases mo) (auto intro: exI [of _ "[]"] exI [of _ "[publish_packet (the mo)]"])

abbreviation retained_packet :: "qos \<Rightarrow> message \<Rightarrow> u16 \<Rightarrow> packet" where
  "retained_packet q m pid \<equiv> publish_packet (WithQoS (AsRetainedDelivery m) (Downgrade (m_qos m) q) pid)"

lemma deliverRetainedOne_conns:
  "\<exists>mo. (\<forall>x. mo = Some x \<longrightarrow> (\<exists>pid. x = WithQoS (AsRetainedDelivery m) (Downgrade (m_qos m) q) pid))
    \<and> (\<forall>k'. mget (b_conns (deliverRetainedOne k c q b m)) k' =
        (if k' = k then map_option (\<lambda>cn. push cn mo) (mget (b_conns b) k) else mget (b_conns b) k'))"
proof (cases "Downgrade (m_qos m) q = 0")
  case True
  show ?thesis
    by (rule exI [of _ "Some (WithQoS (AsRetainedDelivery m) 0 0)"])
      (auto simp: deliverRetainedOne_def Let_def True sendPublish_conns)
next
  case False
  let ?q = "Downgrade (m_qos m) q" and ?m = "AsRetainedDelivery m"
  have none: ?thesis if "b_conns (deliverRetainedOne k c q b m) = b_conns b"
    by (rule exI [of _ None]) (simp add: that)
  show ?thesis
  proof (cases "session_Get (b_sessions b) c")
    case None
    then show ?thesis by (intro none) (simp add: deliverRetainedOne_def Let_def False updateSession_None)
  next
    case (Some s)
    obtain e s' b' where d: "deliverRetainedTo k ?m ?q s b = (e, s', b')" by (metis prod_cases3)
    have conns: "b_conns (deliverRetainedOne k c q b m) = b_conns b'"
      using updateSession_Some [of "deliverRetainedTo k ?m ?q", OF d Some] False by (simp add: deliverRetainedOne_def Let_def)
    from d have "b' = b \<or> (\<exists>pid. b' = sendPublish b (Some k) (WithQoS ?m ?q pid))"
      by (auto simp: deliverRetainedTo_def Let_def split: prod.splits sum.splits option.splits)
    then show ?thesis
    proof
      assume "\<exists>pid. b' = sendPublish b (Some k) (WithQoS ?m ?q pid)"
      then obtain pid where "b' = sendPublish b (Some k) (WithQoS ?m ?q pid)" by blast
      then show ?thesis
        unfolding conns by (intro exI [of _ "Some (WithQoS ?m ?q pid)"]) (auto simp: sendPublish_conns)
    qed (rule none, simp add: conns)
  qed
qed

lemma retained_fold_conns:
  "rel_option (adds (\<lambda>p. \<exists>m \<in> set ms. \<exists>pid. p = retained_packet q m pid))
     (mget (b_conns b) k) (mget (b_conns (foldl (deliverRetainedOne k c q) b ms)) k)"
proof -
  let ?R = "adds (\<lambda>p. \<exists>m \<in> set ms. \<exists>pid. p = retained_packet q m pid)"
  have one: "rel_option ?R (mget (b_conns b) k) (mget (b_conns (deliverRetainedOne k c q b m)) k)" if m: "m \<in> set ms" for b m
  proof -
    obtain mo where mo: "\<forall>x. mo = Some x \<longrightarrow> (\<exists>pid. x = WithQoS (AsRetainedDelivery m) (Downgrade (m_qos m) q) pid)"
      "mget (b_conns (deliverRetainedOne k c q b m)) k = map_option (\<lambda>cn. push cn mo) (mget (b_conns b) k)"
      using deliverRetainedOne_conns [of m q k c b] by auto
    have "?R cn (push cn mo)" for cn by (rule adds_push) (use mo(1) m in blast)
    with mo(2) show ?thesis by (cases "mget (b_conns b) k") simp_all
  qed
  have "set xs \<subseteq> set ms \<Longrightarrow> rel_option ?R (mget (b_conns b) k) (mget (b_conns (foldl (deliverRetainedOne k c q) b xs)) k)" for xs
  proof (induction xs arbitrary: b)
    case (Cons x xs)
    then show ?case
      using rel_option_trans [OF adds_trans one [of x b] Cons.IH [of "deliverRetainedOne k c q b x"]] by simp
  qed (simp add: option.rel_refl)
  then show ?thesis by simp
qed

lemma retained_fold_zero:
  "foldl (deliverRetainedOne k c 0) b ms = transmit k b (map (\<lambda>m. WithQoS (AsRetainedDelivery m) 0 0) ms)"
proof (induction ms arbitrary: b)
  case (Cons m ms)
  have "Downgrade (m_qos m) 0 = 0" by (simp add: Downgrade_zero)
  with Cons show ?case by (simp add: transmit_def deliverRetainedOne_def Let_def)
qed (simp add: transmit_def)

text \<open>Claim C38. A new subscription is answered with retained messages of matching topics only: every
  packet that \<open>DeliverRetained\<close> queues on the connection is a stored message whose topic
  matches the filter, with the retain flag set and a level no higher than the granted one. At
  level 0 every matching message is queued, in the order of the store, as far as the outbound
  queue has room. The store itself is not changed.\<close>

theorem DeliverRetained_matching:
  assumes "broker_ok b" and "mget (b_conns b) k = Some cn"
  shows "\<exists>ps. mget (b_conns (DeliverRetained b k f q)) k = Some (cn\<lparr>cn_outbound := cn_outbound cn @ ps\<rparr>)
    \<and> (\<forall>p \<in> set ps. \<exists>m pid. mget (b_retained b) (m_topic m) = Some m \<and> Matches f (m_topic m)
        \<and> p = publish_packet (WithQoS (AsRetainedDelivery m) (Downgrade (m_qos m) q) pid))
    \<and> (q = 0 \<longrightarrow> mget (b_conns (DeliverRetained b k f q)) k =
        Some (offer cn (map (\<lambda>m. publish_packet (WithQoS (AsRetainedDelivery m) 0 0)) (Matching (b_retained b) f))))
    \<and> b_retained (DeliverRetained b k f q) = b_retained b"
proof -
  let ?ms = "Matching (b_retained b) f"
  have store: "map_ok (b_retained b)" "\<And>t m. mget (b_retained b) t = Some m \<Longrightarrow> m_topic m = t"
    using assms(1) by (auto simp: broker_ok_def state_ok_def)
  have "m \<in> set ?ms \<Longrightarrow> mget (b_retained b) (m_topic m) = Some m \<and> Matches f (m_topic m)" for m
    using retained.matching_iff [OF store(1), of m f] store(2) by fastforce
  moreover obtain cn' where cn': "mget (b_conns (DeliverRetained b k f q)) k = Some cn'"
      "adds (\<lambda>p. \<exists>m \<in> set ?ms. \<exists>pid. p = retained_packet q m pid) cn cn'"
    using retained_fold_conns [of ?ms q b k "sink_ClientID b k"] assms(2) by (auto simp: DeliverRetained_def Let_def option_rel_Some1)
  moreover have "q = 0 \<Longrightarrow> mget (b_conns (DeliverRetained b k f q)) k =
      Some (offer cn (map (\<lambda>m. publish_packet (WithQoS (AsRetainedDelivery m) 0 0)) ?ms))"
    using assms(2) by (simp add: DeliverRetained_def Let_def retained_fold_zero transmit_conns comp_def)
  moreover have "b_retained (DeliverRetained b k f q) = b_retained b"
    by (rule delivers_frame [OF DeliverRetained_delivers])
  ultimately show ?thesis unfolding adds_def list_all_iff by metis
qed

definition retaining_broker :: broker where
  "retaining_broker = sample_broker\<lparr>b_retained := [(''a/b'', sample_message)]\<rparr>"

lemma retaining_broker_ok: "broker_ok retaining_broker"
  using sample_broker_ok
  by (auto simp: retaining_broker_def broker_ok_def state_ok_def refs_ok_def subscribed_def sample_message_def IsEmpty_def
      split: if_splits)

lemma DeliverRetained_matching_witness:
  "\<exists>ps. mget (b_conns (DeliverRetained retaining_broker 0 ''a/#'' 0)) 0
      = Some ((NewConnection 4 ''addr'')\<lparr>cn_outbound := cn_outbound (NewConnection 4 ''addr'') @ ps\<rparr>)
    \<and> (\<forall>p \<in> set ps. \<exists>m pid. mget (b_retained retaining_broker) (m_topic m) = Some m \<and> Matches ''a/#'' (m_topic m)
        \<and> p = publish_packet (WithQoS (AsRetainedDelivery m) (Downgrade (m_qos m) 0) pid))
    \<and> ((0 :: qos) = 0 \<longrightarrow> mget (b_conns (DeliverRetained retaining_broker 0 ''a/#'' 0)) 0 =
        Some (offer (NewConnection 4 ''addr'')
          (map (\<lambda>m. publish_packet (WithQoS (AsRetainedDelivery m) 0 0)) (Matching (b_retained retaining_broker) ''a/#''))))
    \<and> b_retained (DeliverRetained retaining_broker 0 ''a/#'' 0) = b_retained retaining_broker"
  by (rule DeliverRetained_matching [OF retaining_broker_ok]) (simp add: retaining_broker_def sample_broker_conns)

subsection \<open>Periodic retransmission\<close>

definition resent :: "time \<Rightarrow> inflightMessage \<Rightarrow> inflightMessage" where
  "resent now im = im\<lparr>im_Attempts := im_Attempts im + 1, im_SentAt := now\<rparr>"

lemma MarkRetransmitted_get:
  "mget (se_inflight (MarkRetransmitted s p now)) p' =
     (if p' = p then map_option (resent now) (mget (se_inflight s) p) else mget (se_inflight s) p')"
  by (simp add: MarkRetransmitted_def resent_def split: option.split)

lemma retransmit_fold_get:
  "distinct (map im_PacketID ms) \<Longrightarrow>
   mget (se_inflight (fst (foldl (retransmit k now) sb ms))) p =
     (if p \<in> im_PacketID ` set ms then map_option (resent now) (mget (se_inflight (fst sb)) p)
      else mget (se_inflight (fst sb)) p)"
  by (induction ms arbitrary: sb) (auto simp: retransmit_parts MarkRetransmitted_get)

definition expired :: "time \<Rightarrow> duration \<Rightarrow> inflightMessage \<Rightarrow> bool" where
  "expired now timeout im = (time_sub now (im_SentAt im) > timeout)"

lemma ExpiredInflight_ids:
  assumes "session_ok s"
  shows "distinct (map im_PacketID (ExpiredInflight s now timeout))"
    and "p \<in> im_PacketID ` set (ExpiredInflight s now timeout) \<longleftrightarrow>
      (\<exists>im. mget (se_inflight s) p = Some im \<and> expired now timeout im)"
proof -
  have ok: "map_ok (se_inflight s)" "\<And>p im. (p, im) \<in> set (se_inflight s) \<Longrightarrow> im_PacketID im = p"
    using assms by (auto simp: session_ok_def list_all_iff inflight_ok_def)
  have ids: "map im_PacketID (map snd (se_inflight s)) = map fst (se_inflight s)" using ok(2) by auto
  have "distinct (map im_PacketID (map snd (se_inflight s)))" unfolding ids using ok(1) by (simp add: map_ok_def)
  then have "distinct (map im_PacketID (filter P (map snd (se_inflight s))))" for P by (rule distinct_map_filter)
  then show "distinct (map im_PacketID (ExpiredInflight s now timeout))"
    by (simp add: ExpiredInflight_def sortInflightBySentAt_sort_key distinct_map)
  have "set (ExpiredInflight s now timeout) = {im. expired now timeout im \<and> im \<in> snd ` set (se_inflight s)}"
    by (auto simp: ExpiredInflight_def sortInflightBySentAt_sort_key expired_def)
  then show "p \<in> im_PacketID ` set (ExpiredInflight s now timeout) \<longleftrightarrow>
      (\<exists>im. mget (se_inflight s) p = Some im \<and> expired now timeout im)"
    using ok by (fastforce simp: image_iff map_ok_in_set [symmetric])
qed

text \<open>The session after a round of retransmission to a connected client.\<close>

definition refreshed :: "time \<Rightarrow> duration \<Rightarrow> session \<Rightarrow> session" where
  "refreshed now timeout s = foldl (\<lambda>s m. MarkRetransmitted s (im_PacketID m) now) s (ExpiredInflight s now timeout)"

lemma fst_retransmit_fold:
  "fst (foldl (retransmit k now) sb ms) = foldl (\<lambda>s m. MarkRetransmitted s (im_PacketID m) now) (fst sb) ms"
  by (induction ms arbitrary: sb) (simp_all add: retransmit_parts)

lemma retransmitExpiredFor_session:
  assumes "session_Get (b_sessions b) (se_clientID s) = Some s"
  shows "session_Get (b_sessions (fst (retransmitExpiredFor timeout (b, n) s))) c =
      (if c = se_clientID s \<and> se_connected s \<and> sinkFor b c \<noteq> None then Some (refreshed (b_now b) timeout s)
       else session_Get (b_sessions b) c)"
proof (cases "se_connected s \<and> sinkFor b (se_clientID s) \<noteq> None")
  case True
  then obtain k where k: "sinkFor b (se_clientID s) = Some k" by blast
  obtain s' b' where f: "foldl (retransmit (Some k) (b_now b)) (s, b) (ExpiredInflight s (b_now b) timeout) = (s', b')" by force
  then have s': "s' = refreshed (b_now b) timeout s"
    using fst_retransmit_fold [of "Some k" "b_now b" "(s, b)" "ExpiredInflight s (b_now b) timeout"] by (simp add: refreshed_def)
  from assms have "mget (b_sessions b) (se_clientID s) = Some s" by (simp add: session_Get_def)
  with True k f show ?thesis
    by (auto simp: retransmitExpiredFor_def Let_def updateSession_def Update_def s')
qed (auto simp: retransmitExpiredFor_def Let_def)

definition swept :: "broker \<Rightarrow> time \<Rightarrow> client_id \<Rightarrow> session \<Rightarrow> session" where
  "swept b timeout c s = (if se_connected s \<and> sinkFor b c \<noteq> None then refreshed (b_now b) timeout s else s)"

lemma sweep_fold:
  assumes "distinct (map se_clientID ss)" and "\<forall>s \<in> set ss. session_Get (b_sessions b') (se_clientID s) = Some s"
    and "broker_core b' = broker_core b"
  shows "session_Get (b_sessions (fst (foldl (retransmitExpiredFor timeout) (b', n) ss))) c =
    (if c \<in> se_clientID ` set ss then map_option (swept b timeout c) (session_Get (b_sessions b') c)
     else session_Get (b_sessions b') c)"
  using assms
proof (induction ss arbitrary: b' n)
  case (Cons s ss)
  obtain b1 n1 where b1: "retransmitExpiredFor timeout (b', n) s = (b1, n1)" by force
  have core: "broker_core b1 = broker_core b'"
    using delivers_core [OF retransmitExpiredFor_delivers [of "(b', n)" timeout s]] b1 by simp
  have now: "b_now b' = b_now b" "sinkFor b' = sinkFor b"
    using broker_core_frame [OF Cons.prems(3)] by (simp_all add: sinkFor_def fun_eq_iff)
  have get: "session_Get (b_sessions b1) d = (if d = se_clientID s \<and> se_connected s \<and> sinkFor b d \<noteq> None
      then Some (refreshed (b_now b) timeout s) else session_Get (b_sessions b') d)" for d
    using retransmitExpiredFor_session [of b' s timeout n d] Cons.prems(2) unfolding b1 now fst_conv by simp
  have "\<forall>t \<in> set ss. session_Get (b_sessions b1) (se_clientID t) = Some t"
  proof
    fix t
    assume t: "t \<in> set ss"
    then have "se_clientID t \<noteq> se_clientID s" using Cons.prems(1) by (metis distinct.simps(2) image_eqI list.simps(9) set_map)
    then have "session_Get (b_sessions b1) (se_clientID t) = session_Get (b_sessions b') (se_clientID t)"
      unfolding get by simp
    with t Cons.prems(2) show "session_Get (b_sessions b1) (se_clientID t) = Some t" by simp
  qed
  from Cons.IH [OF _ this, of n1] Cons.prems(1,3) core
  have "session_Get (b_sessions (fst (foldl (retransmitExpiredFor timeout) (b1, n1) ss))) c =
    (if c \<in> se_clientID ` set ss then map_option (swept b timeout c) (session_Get (b_sessions b1) c) else session_Get (b_sessions b1) c)"
    by simp
  moreover have "se_clientID s \<notin> se_clientID ` set ss" using Cons.prems(1) by simp
  moreover have "session_Get (b_sessions b') (se_clientID s) = Some s" using Cons.prems(2) by simp
  ultimately show ?case
    by (cases "c = se_clientID s"; cases "sinkFor b c") (simp_all add: b1 get swept_def)
qed simp

lemma RetransmitExpired_session:
  assumes "store_ok (b_sessions b)"
  shows "session_Get (b_sessions (fst (RetransmitExpired b timeout))) c =
    map_option (swept b timeout c) (session_Get (b_sessions b) c)"
proof -
  have ok: "map_ok (b_sessions b)" "\<And>c s. (c, s) \<in> set (b_sessions b) \<Longrightarrow> se_clientID s = c"
    using assms by (auto simp: store_ok_def list_all_iff)
  then have ids: "map se_clientID (session_All (b_sessions b)) = map fst (b_sessions b)" by (auto simp: session_All_def)
  have "\<forall>s \<in> set (session_All (b_sessions b)). session_Get (b_sessions b) (se_clientID s) = Some s"
    using ok by (auto simp: session_All_def session_Get_def map_ok_in_set [symmetric])
  moreover have "distinct (map se_clientID (session_All (b_sessions b)))" using ok(1) ids by (simp add: map_ok_def)
  moreover have "c \<in> se_clientID ` set (session_All (b_sessions b)) \<longleftrightarrow> session_Get (b_sessions b) c \<noteq> None"
    using arg_cong [OF ids, of set] by (simp add: session_Get_def mget_None_iff [of _ c] del: not_None_eq)
  ultimately show ?thesis using sweep_fold [of "session_All (b_sessions b)" b b timeout 0 c] by (auto simp: RetransmitExpired_def)
qed

text \<open>Claim C37. A round of periodic retransmission neither loses nor adds a message: the window keeps
  its identifiers and messages and the queue is untouched. For a connected client exactly the
  entries that have been waiting longer than the timeout are marked as sent again now, with one
  more attempt counted; the entries of all other clients keep their times.\<close>

theorem RetransmitExpired_marks:
  assumes "broker_ok b" and "session_Get (b_sessions b) c = Some s"
  shows "\<exists>s'. session_Get (b_sessions (fst (RetransmitExpired b timeout))) c = Some s'
    \<and> window s' = window s \<and> se_queued s' = se_queued s
    \<and> (\<forall>p. mget (se_inflight s') p = map_option
        (\<lambda>im. if se_connected s \<and> sinkFor b c \<noteq> None \<and> time_sub (b_now b) (im_SentAt im) > timeout
              then im\<lparr>im_Attempts := im_Attempts im + 1, im_SentAt := b_now b\<rparr> else im)
        (mget (se_inflight s) p))"
proof -
  have ok: "store_ok (b_sessions b)" "session_ok s" using assms by (auto simp: broker_ok_def state_ok_def store_ok_iff)
  let ?s = "refreshed (b_now b) timeout s"
  have fold: "?s = fst (foldl (retransmit (Some 0) (b_now b)) (s, b) (ExpiredInflight s (b_now b) timeout))"
    by (simp add: fst_retransmit_fold refreshed_def)
  have "window ?s = window s" "se_queued ?s = se_queued s"
    unfolding fold using retransmit_fold [of 0 "b_now b" "(s, b)"] by simp_all
  moreover have "mget (se_inflight ?s) p = map_option
      (\<lambda>im. if time_sub (b_now b) (im_SentAt im) > timeout
              then im\<lparr>im_Attempts := im_Attempts im + 1, im_SentAt := b_now b\<rparr> else im) (mget (se_inflight s) p)" for p
    unfolding fold retransmit_fold_get [OF ExpiredInflight_ids(1) [OF ok(2)]] ExpiredInflight_ids(2) [OF ok(2)] fst_conv
    by (cases "mget (se_inflight s) p") (auto simp: expired_def resent_def)
  moreover have "mget (se_inflight s) p = map_option (\<lambda>im. im) (mget (se_inflight s) p)" for p by simp
  ultimately show ?thesis
    using RetransmitExpired_session [OF ok(1), of timeout c] assms(2)
    by (cases "se_connected s \<and> sinkFor b c \<noteq> None") (auto simp: swept_def)
qed

lemma RetransmitExpired_marks_witness:
  "\<exists>s'. session_Get (b_sessions (fst (RetransmitExpired loaded_broker 0))) ''c'' = Some s'
    \<and> window s' = window loaded_session \<and> se_queued s' = se_queued loaded_session
    \<and> (\<forall>p. mget (se_inflight s') p = map_option
        (\<lambda>im. if se_connected loaded_session \<and> sinkFor loaded_broker ''c'' \<noteq> None
                 \<and> time_sub (b_now loaded_broker) (im_SentAt im) > 0
              then im\<lparr>im_Attempts := im_Attempts im + 1, im_SentAt := b_now loaded_broker\<rparr> else im)
        (mget (se_inflight loaded_session) p))"
  by (rule RetransmitExpired_marks [OF loaded_broker_ok]) (simp add: loaded_broker_parts)

end
