(* ===== verification/Subscribing.thy ===== *)
theory Subscribing
  imports Delivery
begin

text \<open>
  The subscription service (\<open>pkg/application/subscribing/service.go\<close>): SUBSCRIBE and
  UNSUBSCRIBE. A subscription is recorded in the session and in the index; the record of the
  accepted filters is what retained messages are delivered for once the session lock is
  released.

  The lemmas show that the return codes answer the requests one by one, and that the session
  and the index always agree on who is subscribed to what and at which level.
\<close>

subsection \<open>SUBSCRIBE\<close>

type_synonym sub_state = "session \<times> broker \<times> bytes \<times> (topic_filter \<times> qos) list"

definition subscribeOne :: "client_id \<Rightarrow> time \<Rightarrow> sub_state \<Rightarrow> topicSubscription \<Rightarrow> sub_state" where
  "subscribeOne clientID now st requested =
     (case st of (session, b, returnCodes, registered) \<Rightarrow>
        (case NewTopicFilter (ts_Filter requested) of
           Inl err \<Rightarrow> (session, b, returnCodes @ [SubackFailure], registered)
         | Inr filt \<Rightarrow>
             (case NewQoS (ts_QoS requested) of
                Inl err \<Rightarrow> (session, b, returnCodes @ [SubackFailure], registered)
              | Inr qos \<Rightarrow>
                  (case session_Subscribe session filt qos now of
                     (Inl err, session) \<Rightarrow> (session, b, returnCodes @ [SubackFailure], registered)
                   | (Inr grantedQoS, session) \<Rightarrow>
                       (session, b\<lparr>b_index := index_Subscribe (b_index b) filt clientID grantedQoS\<rparr>,
                        returnCodes @ [grantedQoS], registered @ [(filt, grantedQoS)])))))"

text \<open>The callback of \<open>Update\<close> captures the broker, the return codes and the accepted filters.\<close>

definition Subscribe :: "broker \<Rightarrow> client \<Rightarrow> subscribe \<Rightarrow> conn_ref \<Rightarrow> (app_error + bytes) \<times> broker" where
  "Subscribe b client req sink =
     (let clientID = cl_id client; now = b_now b in
      case Update (b_sessions b) clientID
             (\<lambda>session x. (None, foldl (subscribeOne clientID now) (session, x) (s_Subscriptions req)))
             (b, [], []) of
        (err, sessions, b, returnCodes, registered) \<Rightarrow>
          let b = b\<lparr>b_sessions := sessions\<rparr> in
          (case err of
             Some e \<Rightarrow> (Inl e, b)
           | None \<Rightarrow>
               (Inr returnCodes,
                foldl (\<lambda>b (filt, grantedQoS). DeliverRetained b sink filt grantedQoS) b registered)))"

subsection \<open>UNSUBSCRIBE\<close>

definition unsubscribeOne :: "client_id \<Rightarrow> session \<times> broker \<Rightarrow> string \<Rightarrow> session \<times> broker" where
  "unsubscribeOne clientID st raw =
     (case st of (session, b) \<Rightarrow>
        (case NewTopicFilter raw of
           Inl err \<Rightarrow> (session, b)
         | Inr filt \<Rightarrow>
             (snd (session_Unsubscribe session filt),
              b\<lparr>b_index := index_Unsubscribe (b_index b) filt clientID\<rparr>)))"

definition Unsubscribe :: "broker \<Rightarrow> client \<Rightarrow> unsubscribe \<Rightarrow> app_error option \<times> broker" where
  "Unsubscribe b client req =
     (let clientID = cl_id client in
      updateSession b clientID (\<lambda>session b.
        case foldl (unsubscribeOne clientID) (session, b) (u_Filters req) of
          (session, b) \<Rightarrow> (None, session, b)))"

subsection \<open>The session and the index in step\<close>

text \<open>The level at which a session holds a filter.\<close>

definition held :: "session \<Rightarrow> topic_filter \<Rightarrow> qos option" where
  "held s f = map_option sub_grantedQoS (session_Subscription s f)"

lemma subscribed_held: "subscribed b c f = Option.bind (session_Get (b_sessions b) c) (\<lambda>s. held s f)"
  by (simp add: subscribed_def held_def split: option.split)

text \<open>While the callback of \<open>Update\<close> runs, the index of the broker already reflects the session it is working
  on, and nothing else of the broker has changed.\<close>

definition in_step :: "broker \<Rightarrow> client_id \<Rightarrow> session \<Rightarrow> broker \<Rightarrow> bool" where
  "in_step b c s b' =
     (b'\<lparr>b_index := b_index b\<rparr> = b \<and> index_ok (b_index b') \<and> session_ok s \<and> traffic_ok s \<and> se_clientID s = c
      \<and> (\<forall>c' f. granted (b_index b') f c' = (if c' = c then held s f else granted (b_index b) f c')))"

lemma in_step_start:
  assumes "broker_ok b" and "session_Get (b_sessions b) c = Some s"
  shows "in_step b c s b"
  using assms by (auto simp: in_step_def broker_ok_def state_ok_def store_ok_iff subscribed_held)

lemma in_step_finish:
  assumes "broker_ok b" and "in_step b c s b'"
  shows "broker_ok (b'\<lparr>b_sessions := mput c s (b_sessions b)\<rparr>)"
    and "subscribed (b'\<lparr>b_sessions := mput c s (b_sessions b)\<rparr>) c' f = (if c' = c then held s f else subscribed b c' f)"
proof -
  have b': "b' = b\<lparr>b_index := b_index b'\<rparr>" using assms(2) by (metis (no_types, lifting) broker.surjective broker.update_convs(1) in_step_def)
  obtain i where i: "b' = b\<lparr>b_index := i\<rparr>" using b' by blast
  show sub: "subscribed (b'\<lparr>b_sessions := mput c s (b_sessions b)\<rparr>) c' f = (if c' = c then held s f else subscribed b c' f)" for c' f
    by (simp add: subscribed_held i)
  show "broker_ok (b'\<lparr>b_sessions := mput c s (b_sessions b)\<rparr>)"
    using assms sub unfolding broker_ok_def
    by (auto simp: state_ok_def refs_ok_def in_step_def i store_ok_iff split: if_splits)
qed

lemma session_Subscribe_held:
  "session_Subscribe s f q now = (Inr g, s') \<Longrightarrow> g = min q MaxSupportedQoS \<and> held s' f' = (if f' = f then Some g else held s f')
    \<and> session_core s' = (session_core s)\<lparr>se_subscriptions := se_subscriptions s'\<rparr> \<and> traffic_ok s' = traffic_ok s
    \<and> se_queued s' = se_queued s \<and> se_inflight s' = se_inflight s \<and> se_clientID s' = se_clientID s"
  by (auto simp: session_Subscribe_def Let_def held_def session_Subscription_def session_core_def traffic_ok_def split: if_splits)

lemma subscribeOne_in_step:
  assumes "in_step b c s b'" and "subscribeOne c now (s, b', codes, reg) r = (s', b'', codes', reg')"
  shows "in_step b c s' b''"
proof (cases "\<exists>f q g t. NewTopicFilter (ts_Filter r) = Inr f \<and> NewQoS (ts_QoS r) = Inr q \<and> session_Subscribe s f q now = (Inr g, t)")
  case True
  then obtain f q g t where *: "NewTopicFilter (ts_Filter r) = Inr f" "NewQoS (ts_QoS r) = Inr q"
    "session_Subscribe s f q now = (Inr g, t)" by blast
  then have eq: "s' = t" "b'' = b'\<lparr>b_index := index_Subscribe (b_index b') f c g\<rparr>"
    using assms(2) by (auto simp: subscribeOne_def)
  have "session_ok t" using Subscribe_ok [of s f q now] assms(1) *(3) by (simp add: in_step_def)
  with assms(1) NewTopicFilter_filter_ok [OF *(1)] session_Subscribe_held [OF *(3)] show ?thesis
    unfolding in_step_def eq by (auto simp: trie.subscribe_ok granted_Subscribe)
next
  case False
  then have "s' = s" "b'' = b'"
    using assms(2) by (auto simp: subscribeOne_def session_Subscribe_def Let_def split: sum.splits prod.splits if_splits)
  with assms(1) show ?thesis by simp
qed

lemma subscribe_fold_in_step:
  assumes "in_step b c s b'" and "foldl (subscribeOne c now) (s, b', codes, reg) rs = (s', b'', codes', reg')"
  shows "in_step b c s' b''"
  using assms
proof (induction rs arbitrary: s b' codes reg)
  case (Cons r rs)
  obtain s1 b1 codes1 reg1 where one: "subscribeOne c now (s, b', codes, reg) r = (s1, b1, codes1, reg1)" by (metis prod_cases4)
  from subscribeOne_in_step [OF Cons.prems(1) one] Cons.prems(2) show ?case by (intro Cons.IH) (simp_all add: one)
qed simp

subsection \<open>SUBSCRIBE, request by request\<close>

definition valid_request :: "topicSubscription \<Rightarrow> bool" where
  "valid_request r = (NewTopicFilter (ts_Filter r) = Inr (ts_Filter r) \<and> ts_QoS r \<le> QoSExactlyOnce)"

definition answers :: "topicSubscription \<Rightarrow> byte \<Rightarrow> bool" where
  "answers r code = (code = SubackFailure \<or> valid_request r \<and> code = min (ts_QoS r) MaxSupportedQoS)"

text \<open>The filters that were accepted, with their levels.\<close>

definition accepted :: "topicSubscription list \<Rightarrow> bytes \<Rightarrow> (topic_filter \<times> qos) list" where
  "accepted rs codes = map (\<lambda>(r, code). (ts_Filter r, code)) (filter (\<lambda>(r, code). code \<noteq> SubackFailure) (zip rs codes))"

lemma accepted_snoc:
  "length codes = length rs \<Longrightarrow> accepted (rs @ [r]) (codes @ [code])
    = accepted rs codes @ (if code = SubackFailure then [] else [(ts_Filter r, code)])"
  by (simp add: accepted_def)

lemma subscribeOne_cases:
  obtains (granted) g t where "valid_request r" and "g = min (ts_QoS r) MaxSupportedQoS" and "g \<noteq> SubackFailure"
      and "session_Subscribe s (ts_Filter r) (ts_QoS r) now = (Inr g, t)"
      and "subscribeOne c now (s, b, codes, reg) r
        = (t, b\<lparr>b_index := index_Subscribe (b_index b) (ts_Filter r) c g\<rparr>, codes @ [g], reg @ [(ts_Filter r, g)])"
  | (failed) "subscribeOne c now (s, b, codes, reg) r = (s, b, codes @ [SubackFailure], reg)"
      and "valid_request r \<Longrightarrow> int (length (se_subscriptions s)) \<ge> se_maxSubscriptions s"
proof (cases "valid_request r")
  case True
  then have v: "NewTopicFilter (ts_Filter r) = Inr (ts_Filter r)" "NewQoS (ts_QoS r) = Inr (ts_QoS r)"
    by (auto simp: valid_request_def NewQoS_def)
  have "min (ts_QoS r) MaxSupportedQoS = 0 \<or> min (ts_QoS r) MaxSupportedQoS = 1"
    unfolding qos_le_1 [symmetric] by simp
  then have "min (ts_QoS r) MaxSupportedQoS \<noteq> SubackFailure" by (auto simp: SubackFailure_def)
  with True v show thesis
    by (cases "session_Subscribe s (ts_Filter r) (ts_QoS r) now")
      (auto simp: subscribeOne_def session_Subscribe_def Let_def split: if_splits intro: granted failed)
next
  case False
  then have "(\<exists>e. NewTopicFilter (ts_Filter r) = Inl e) \<or> (\<exists>f e. NewTopicFilter (ts_Filter r) = Inr f \<and> NewQoS (ts_QoS r) = Inl e)"
    by (cases "NewTopicFilter (ts_Filter r)") (auto simp: valid_request_def NewQoS_def NewTopicFilter_Inr)
  with False show thesis by (intro failed) (auto simp: subscribeOne_def)
qed

lemma subscribe_fold:
  assumes "foldl (subscribeOne c now) (s, b, [], []) rs = (s', b', codes, reg)"
  shows "list_all2 answers rs codes \<and> reg = accepted rs codes
    \<and> (\<forall>f. held s' f = (case map_of (rev reg) f of Some q \<Rightarrow> Some q | None \<Rightarrow> held s f))
    \<and> window s' = window s \<and> se_queued s' = se_queued s \<and> se_maxSubscriptions s' = se_maxSubscriptions s
    \<and> length (se_subscriptions s') \<le> length (se_subscriptions s) + length rs
    \<and> (int (length (se_subscriptions s) + length rs) \<le> se_maxSubscriptions s \<longrightarrow>
        list_all2 (\<lambda>r code. valid_request r \<longrightarrow> code \<noteq> SubackFailure) rs codes)"
  using assms
proof (induction rs arbitrary: s' b' codes reg rule: rev_induct)
  case (snoc r rs)
  obtain s1 b1 codes1 reg1 where f: "foldl (subscribeOne c now) (s, b, [], []) rs = (s1, b1, codes1, reg1)" by (metis prod_cases4)
  note IH = snoc.IH [OF f]
  then have len: "length codes1 = length rs" by (auto dest: list_all2_lengthD)
  show ?case
  proof (cases rule: subscribeOne_cases [where r = r and s = s1 and now = now and c = c and b = b1 and codes = codes1 and reg = reg1])
    case (granted g t)
    have eq: "s' = t" "codes = codes1 @ [g]" "reg = reg1 @ [(ts_Filter r, g)]"
      using snoc.prems f granted(5) by auto
    have "length (se_subscriptions t) \<le> Suc (length (se_subscriptions s1))" "se_maxSubscriptions t = se_maxSubscriptions s1"
      using granted(4) by (auto simp: session_Subscribe_def Let_def length_mput split: if_splits)
    moreover have "answers r g" using granted(1,2) by (simp add: answers_def)
    moreover note session_Subscribe_held [OF granted(4)]
    ultimately show ?thesis
      using IH granted(3) len
      by (auto simp: eq accepted_snoc window_def list_all2_appendI)
  next
    case failed
    have eq: "s' = s1" "codes = codes1 @ [SubackFailure]" "reg = reg1" using snoc.prems f failed(1) by auto
    have "answers r SubackFailure" by (simp add: answers_def)
    with IH failed(2) len show ?thesis
      by (auto simp: eq accepted_snoc list_all2_append)
  qed
qed (simp add: accepted_def)

subsection \<open>Properties\<close>

text \<open>What SUBSCRIBE does to an existing session: the run of the callback, then the retained messages.\<close>

lemma Subscribe_run:
  assumes "broker_ok b" and "session_Get (b_sessions b) (cl_id client) = Some s"
  obtains s' codes b1 where "list_all2 answers (s_Subscriptions req) codes"
    and "\<And>f. held s' f = (case map_of (rev (accepted (s_Subscriptions req) codes)) f of Some q \<Rightarrow> Some q | None \<Rightarrow> held s f)"
    and "window s' = window s" and "se_queued s' = se_queued s"
    and "int (length (se_subscriptions s) + length (s_Subscriptions req)) \<le> se_maxSubscriptions s \<longrightarrow>
        list_all2 (\<lambda>r code. valid_request r \<longrightarrow> code \<noteq> SubackFailure) (s_Subscriptions req) codes"
    and "broker_ok b1" and "session_Get (b_sessions b1) (cl_id client) = Some s'"
    and "\<And>c f. subscribed b1 c f = (if c = cl_id client then held s' f else subscribed b c f)"
    and "b_retained b1 = b_retained b" and "b_conns b1 = b_conns b"
    and "Subscribe b client req k = (Inr codes,
        foldl (\<lambda>b (filt, grantedQoS). DeliverRetained b k filt grantedQoS) b1 (accepted (s_Subscriptions req) codes))"
proof -
  let ?c = "cl_id client" and ?rs = "s_Subscriptions req"
  obtain s' b' codes reg where f: "foldl (subscribeOne ?c (b_now b)) (s, b, [], []) ?rs = (s', b', codes, reg)"
    by (metis prod_cases4)
  note spec = subscribe_fold [OF f]
  have st: "in_step b ?c s' b'" by (rule subscribe_fold_in_step [OF in_step_start [OF assms] f])
  let ?b = "b'\<lparr>b_sessions := mput ?c s' (b_sessions b)\<rparr>"
  have upd: "b'\<lparr>b_index := b_index b\<rparr> = b" using st by (simp add: in_step_def)
  have "b_retained (b'\<lparr>b_index := b_index b\<rparr>) = b_retained b'" "b_conns (b'\<lparr>b_index := b_index b\<rparr>) = b_conns b'" by simp_all
  with upd have frame: "b_retained ?b = b_retained b" "b_conns ?b = b_conns b" by auto
  have run: "Subscribe b client req k = (Inr codes,
        foldl (\<lambda>b (filt, grantedQoS). DeliverRetained b k filt grantedQoS) ?b reg)"
    using f assms(2) by (simp add: Subscribe_def Let_def Update_def session_Get_def)
  show thesis
    by (rule that [of codes s' ?b])
      (use spec in_step_finish [OF assms(1) st] frame run in \<open>simp_all\<close>)
qed

lemma deliver_accepted:
  "delivers b (foldl (\<lambda>b (filt, grantedQoS). DeliverRetained b k filt grantedQoS) b fs)"
  by (rule delivers_fold) (auto intro: DeliverRetained_delivers)

text \<open>The case of one request, as the client library makes it.\<close>

lemma Subscribe_one:
  assumes "broker_ok b" and "session_Get (b_sessions b) (cl_id client) = Some s" and "s_Subscriptions req = [\<lparr>ts_Filter = filt, ts_QoS = qos\<rparr>]"
  obtains code b1 where "Subscribe b client req k = (Inr [code], b1)"
    and "code = SubackFailure \<or> code = min qos MaxSupportedQoS"
    and "\<And>f. subscribed b1 (cl_id client) f
      = (if code \<noteq> SubackFailure \<and> f = filt then Some code else subscribed b (cl_id client) f)"
    and "b_retained b = [] \<Longrightarrow> b_conns b1 = b_conns b"
proof -
  obtain s' codes b1 where run: "list_all2 answers (s_Subscriptions req) codes"
    "\<And>f. held s' f = (case map_of (rev (accepted (s_Subscriptions req) codes)) f of Some q \<Rightarrow> Some q | None \<Rightarrow> held s f)"
    "\<And>c f. subscribed b1 c f = (if c = cl_id client then held s' f else subscribed b c f)"
    "b_retained b1 = b_retained b" "b_conns b1 = b_conns b"
    "Subscribe b client req k = (Inr codes,
        foldl (\<lambda>b (filt, grantedQoS). DeliverRetained b k filt grantedQoS) b1 (accepted (s_Subscriptions req) codes))"
    using Subscribe_run [OF assms(1,2)] by metis
  from run(1) obtain code where code: "codes = [code]" "answers \<lparr>ts_Filter = filt, ts_QoS = qos\<rparr> code"
    unfolding assms(3) by (auto simp: list_all2_Cons1)
  have "held s f = subscribed b (cl_id client) f" for f using assms(2) by (simp add: subscribed_held)
  moreover have "DeliverRetained b' k f q = b'" if "b_retained b' = []" for b' f q using that by (simp add: DeliverRetained_def Matching_def Let_def)
  ultimately show ?thesis using code run(2-5) delivers_subscribed [OF deliver_accepted] assms(3)
    by (intro that [OF run(6) [unfolded code(1)]]) (auto simp: answers_def accepted_def)
qed

text \<open>Claim C12. SUBSCRIBE answers every request in order with one code: 0x80 for a malformed filter, an
  illegal level or a full session, and otherwise the requested level, lowered to 1. A session
  that has room for all requests refuses none that is well-formed. Afterwards the client holds
  exactly the accepted filters at the levels it was told, the last request winning where a
  filter is repeated, beside those it held before; no other client is affected, and the
  invariant of the broker is kept, so the index agrees.\<close>

theorem Subscribe_answers:
  assumes "broker_ok b" and "session_Get (b_sessions b) (cl_id client) = Some s"
  shows "\<exists>codes. fst (Subscribe b client req k) = Inr codes \<and> list_all2 answers (s_Subscriptions req) codes
    \<and> (int (length (se_subscriptions s) + length (s_Subscriptions req)) \<le> se_maxSubscriptions s \<longrightarrow>
        list_all2 (\<lambda>r code. valid_request r \<longrightarrow> code \<noteq> SubackFailure) (s_Subscriptions req) codes)
    \<and> (\<forall>c f. subscribed (snd (Subscribe b client req k)) c f =
        (if c = cl_id client then
           (case map_of (rev (accepted (s_Subscriptions req) codes)) f of Some q \<Rightarrow> Some q | None \<Rightarrow> subscribed b c f)
         else subscribed b c f))
    \<and> broker_ok (snd (Subscribe b client req k))"
proof -
  obtain s' codes b1 where run: "list_all2 answers (s_Subscriptions req) codes"
    "\<And>f. held s' f = (case map_of (rev (accepted (s_Subscriptions req) codes)) f of Some q \<Rightarrow> Some q | None \<Rightarrow> held s f)"
    "int (length (se_subscriptions s) + length (s_Subscriptions req)) \<le> se_maxSubscriptions s \<longrightarrow>
        list_all2 (\<lambda>r code. valid_request r \<longrightarrow> code \<noteq> SubackFailure) (s_Subscriptions req) codes"
    "broker_ok b1" "\<And>c f. subscribed b1 c f = (if c = cl_id client then held s' f else subscribed b c f)"
    "Subscribe b client req k = (Inr codes,
        foldl (\<lambda>b (filt, grantedQoS). DeliverRetained b k filt grantedQoS) b1 (accepted (s_Subscriptions req) codes))"
    using Subscribe_run [OF assms] by metis
  have "held s f = subscribed b (cl_id client) f" for f using assms(2) by (simp add: subscribed_held)
  with run delivers_ok [OF deliver_accepted] delivers_subscribed [OF deliver_accepted] show ?thesis
    by (intro exI [of _ codes]) (simp split: option.split)
qed

lemma Subscribe_broker_ok: "broker_ok b \<Longrightarrow> broker_ok (snd (Subscribe b client req k))"
proof (cases "session_Get (b_sessions b) (cl_id client)")
  case None
  assume "broker_ok b"
  with None show ?thesis
    by (simp add: Subscribe_def Let_def Update_def session_Get_def)
next
  case (Some s)
  assume ok: "broker_ok b"
  obtain codes b1 where "broker_ok b1" "Subscribe b client req k = (Inr codes,
        foldl (\<lambda>b (filt, grantedQoS). DeliverRetained b k filt grantedQoS) b1 (accepted (s_Subscriptions req) codes))"
    using Subscribe_run [OF ok Some] by metis
  then show ?thesis using delivers_ok [OF deliver_accepted] by simp
qed

definition sample_request :: subscribe where
  "sample_request = \<lparr>s_PacketID = 1, s_Subscriptions =
     [\<lparr>ts_Filter = ''a/+'', ts_QoS = 2\<rparr>, \<lparr>ts_Filter = ''#/a'', ts_QoS = 1\<rparr>]\<rparr>"

lemma Subscribe_answers_witness:
  "\<exists>codes. fst (Subscribe sample_broker sample_client sample_request 0) = Inr codes
    \<and> list_all2 answers (s_Subscriptions sample_request) codes
    \<and> (int (length (se_subscriptions (snd (session_Subscribe sample_session ''a/#'' 1 3))) + length (s_Subscriptions sample_request))
          \<le> se_maxSubscriptions (snd (session_Subscribe sample_session ''a/#'' 1 3)) \<longrightarrow>
        list_all2 (\<lambda>r code. valid_request r \<longrightarrow> code \<noteq> SubackFailure) (s_Subscriptions sample_request) codes)
    \<and> (\<forall>c f. subscribed (snd (Subscribe sample_broker sample_client sample_request 0)) c f =
        (if c = cl_id sample_client then
           (case map_of (rev (accepted (s_Subscriptions sample_request) codes)) f of
              Some q \<Rightarrow> Some q | None \<Rightarrow> subscribed sample_broker c f)
         else subscribed sample_broker c f))
    \<and> broker_ok (snd (Subscribe sample_broker sample_client sample_request 0))"
  by (rule Subscribe_answers [OF sample_broker_ok]) (simp add: sample_broker_session sample_client_def)

subsection \<open>UNSUBSCRIBE\<close>

lemma session_Unsubscribe_held:
  "held (snd (session_Unsubscribe s f)) f' = (if f' = f then None else held s f')"
  "traffic_ok (snd (session_Unsubscribe s f)) = traffic_ok s" "se_clientID (snd (session_Unsubscribe s f)) = se_clientID s"
  "se_inflight (snd (session_Unsubscribe s f)) = se_inflight s" "se_queued (snd (session_Unsubscribe s f)) = se_queued s"
  by (auto simp: session_Unsubscribe_def held_def session_Subscription_def traffic_ok_def)

lemma unsubscribe_fold:
  assumes "in_step b c s b'" and "foldl (unsubscribeOne c) (s, b') raws = (s', b'')"
  shows "in_step b c s' b'' \<and> se_inflight s' = se_inflight s \<and> se_queued s' = se_queued s
    \<and> (\<forall>f. held s' f = (if f \<in> set raws \<and> NewTopicFilter f = Inr f then None else held s f))"
  using assms
proof (induction raws arbitrary: s b')
  case (Cons r raws)
  show ?case
  proof (cases "NewTopicFilter r")
    case (Inl e)
    with Cons.IH [OF Cons.prems(1)] Cons.prems(2) show ?thesis by (auto simp: unsubscribeOne_def)
  next
    case (Inr f)
    then have f: "f = r" by (simp add: NewTopicFilter_Inr)
    let ?s = "snd (session_Unsubscribe s r)" and ?b = "b'\<lparr>b_index := index_Unsubscribe (b_index b') r c\<rparr>"
    have "in_step b c ?s ?b"
      using Cons.prems(1) Unsubscribe_ok [of s r]
      by (auto simp: in_step_def session_Unsubscribe_held trie.unsubscribe_ok granted_Unsubscribe)
    from Cons.IH [OF this] Cons.prems(2) Inr f show ?thesis
      by (auto simp: unsubscribeOne_def session_Unsubscribe_held)
  qed
qed simp

lemma Unsubscribe_run:
  assumes "broker_ok b" and "session_Get (b_sessions b) (cl_id client) = Some s"
  obtains s' b' where "in_step b (cl_id client) s' b'" and "se_inflight s' = se_inflight s" and "se_queued s' = se_queued s"
    and "\<And>f. held s' f = (if f \<in> set (u_Filters req) \<and> NewTopicFilter f = Inr f then None else held s f)"
    and "Unsubscribe b client req = (None, b'\<lparr>b_sessions := mput (cl_id client) s' (b_sessions b)\<rparr>)"
proof -
  obtain s' b' where f: "foldl (unsubscribeOne (cl_id client)) (s, b) (u_Filters req) = (s', b')" by force
  have "Unsubscribe b client req = (None, b'\<lparr>b_sessions := mput (cl_id client) s' (b_sessions b)\<rparr>)"
    using f assms(2) by (simp add: Unsubscribe_def Let_def updateSession_def Update_def session_Get_def)
  with unsubscribe_fold [OF in_step_start [OF assms] f] show thesis by (intro that) auto
qed

text \<open>UNSUBSCRIBE removes exactly the filters it names, in the session and in the index, and
  ignores those that are malformed or not held. The traffic of the session stays: messages in
  flight and waiting are still delivered. No other client is affected.\<close>

theorem Unsubscribe_removes:
  assumes "broker_ok b" and "session_Get (b_sessions b) (cl_id client) = Some s"
  shows "fst (Unsubscribe b client req) = None \<and> broker_ok (snd (Unsubscribe b client req))
    \<and> (\<forall>c f. subscribed (snd (Unsubscribe b client req)) c f =
        (if c = cl_id client \<and> f \<in> set (u_Filters req) \<and> NewTopicFilter f = Inr f then None else subscribed b c f))
    \<and> (\<exists>s'. session_Get (b_sessions (snd (Unsubscribe b client req))) (cl_id client) = Some s'
        \<and> se_inflight s' = se_inflight s \<and> se_queued s' = se_queued s)"
proof -
  obtain s' b' where run: "in_step b (cl_id client) s' b'" "se_inflight s' = se_inflight s" "se_queued s' = se_queued s"
    "\<And>f. held s' f = (if f \<in> set (u_Filters req) \<and> NewTopicFilter f = Inr f then None else held s f)"
    "Unsubscribe b client req = (None, b'\<lparr>b_sessions := mput (cl_id client) s' (b_sessions b)\<rparr>)"
    using Unsubscribe_run [OF assms, of req] by blast
  moreover have "held s f = subscribed b (cl_id client) f" for f using assms(2) by (simp add: subscribed_held)
  ultimately show ?thesis using in_step_finish [OF assms(1) run(1)] by simp
qed

lemma Unsubscribe_broker_ok:
  assumes "broker_ok b"
  shows "broker_ok (snd (Unsubscribe b client req))"
proof (cases "session_Get (b_sessions b) (cl_id client)")
  case None
  with assms show ?thesis by (simp add: Unsubscribe_def Let_def updateSession_None)
next
  case (Some s)
  then show ?thesis using Unsubscribe_run [OF assms Some] in_step_finish(1) [OF assms] by (metis snd_conv)
qed

lemma Unsubscribe_removes_witness:
  "fst (Unsubscribe sample_broker sample_client \<lparr>u_PacketID = 3, u_Filters = [''a/#'']\<rparr>) = None
    \<and> broker_ok (snd (Unsubscribe sample_broker sample_client \<lparr>u_PacketID = 3, u_Filters = [''a/#'']\<rparr>))
    \<and> (\<forall>c f. subscribed (snd (Unsubscribe sample_broker sample_client \<lparr>u_PacketID = 3, u_Filters = [''a/#'']\<rparr>)) c f =
        (if c = cl_id sample_client \<and> f \<in> set (u_Filters \<lparr>u_PacketID = 3, u_Filters = [''a/#'']\<rparr>) \<and> NewTopicFilter f = Inr f
         then None else subscribed sample_broker c f))
    \<and> (\<exists>s'. session_Get (b_sessions (snd (Unsubscribe sample_broker sample_client \<lparr>u_PacketID = 3, u_Filters = [''a/#'']\<rparr>)))
          (cl_id sample_client) = Some s'
        \<and> se_inflight s' = se_inflight (snd (session_Subscribe sample_session ''a/#'' 1 3))
        \<and> se_queued s' = se_queued (snd (session_Subscribe sample_session ''a/#'' 1 3)))"
  by (rule Unsubscribe_removes [OF sample_broker_ok]) (simp add: sample_broker_session sample_client_def)

end
