(* ===== verification/Connecting.thy ===== *)
theory Connecting
  imports Subscribing
begin

text \<open>
  The connection service (\<open>pkg/application/connection\<close>): accepting a CONNECT, resolving the
  session it refers to, and tearing a client down. The authenticator is an argument; its two
  implementations of the repository are \<open>AllowAll_Authenticate\<close> and \<open>Static_Authenticate\<close>. The
  identifier that \<open>uid.Generator\<close> would produce next is an argument as well.

  The lemmas show what each refusal answers, what becomes of the stored session and the
  subscriptions of the client, and that the teardown of a superseded connection leaves the
  state of its successor alone.
\<close>

subsection \<open>Authenticators\<close>

type_synonym authenticator = "client_id \<Rightarrow> string \<Rightarrow> bytes \<Rightarrow> bool \<times> byte"

definition AllowAll_Authenticate :: authenticator where
  "AllowAll_Authenticate clientID username password = (True, ConnectAccepted)"

record staticAuthenticator =
  sta_users :: "(string, string) gomap"
  sta_allowAnonymous :: bool

definition Static_Authenticate :: "staticAuthenticator \<Rightarrow> authenticator" where
  "Static_Authenticate a clientID username password =
     (if username = '''' then
        (if sta_allowAnonymous a then (True, ConnectAccepted) else (False, ConnectNotAuthorized))
      else case mget (sta_users a) username of
        None \<Rightarrow> (False, ConnectBadCredentials)
      | Some expected \<Rightarrow>
          if bytes_of expected \<noteq> password then (False, ConnectBadCredentials) else (True, ConnectAccepted))"

subsection \<open>Connect\<close>

record connectResult =
  cr_Client :: "client_ref option"
  cr_ReturnCode :: byte
  cr_SessionPresent :: bool
  cr_Displaced :: "conn_ref option"

definition Accepted :: "connectResult \<Rightarrow> bool" where
  "Accepted r = (cr_ReturnCode r = ConnectAccepted \<and> cr_Client r \<noteq> None)"

definition refused :: "byte \<Rightarrow> connectResult" where
  "refused code = \<lparr>cr_Client = None, cr_ReturnCode = code, cr_SessionPresent = False, cr_Displaced = None\<rparr>"

definition resolveClientID :: "string \<Rightarrow> connect \<Rightarrow> app_error + (client_id \<times> bool)" where
  "resolveClientID newID req =
     (if c_ClientID req \<noteq> '''' then mapInr (\<lambda>i. (i, False)) (NewClientID (c_ClientID req))
      else if \<not> c_CleanSession req
        then Inl (Invalid ''identifier_rejected'' ''an empty client id requires clean session 1'')
      else mapInr (\<lambda>i. (i, True)) (NewClientID (''auto-'' @ newID)))"

definition resolveSession :: "broker \<Rightarrow> client_id \<Rightarrow> bool \<Rightarrow> time \<Rightarrow> bool \<times> broker" where
  "resolveSession b clientID cleanSession now =
     (let existing = session_Get (b_sessions b) clientID;
          discard = (\<lambda>b. b\<lparr>b_index := UnsubscribeAll (b_index b) clientID,
                           b_sessions := snd (session_Delete (b_sessions b) clientID)\<rparr>);
          fresh = (\<lambda>clean b. b\<lparr>b_sessions := session_Put (b_sessions b)
                           (NewSession clientID clean (cf_SessionLimits (b_cfg b)) now)\<rparr>)
      in if cleanSession then (False, fresh True (if existing \<noteq> None then discard b else b))
         else case existing of
           None \<Rightarrow> (False, fresh False b)
         | Some s \<Rightarrow>
             if se_clean s then (False, fresh False (discard b))
             else (True, snd (updateSession b clientID (\<lambda>session b. (None, Resume session now, b)))))"

definition capKeepAlive :: "broker \<Rightarrow> u16 \<Rightarrow> u16" where
  "capKeepAlive b requested =
     (let m = cf_MaxKeepAlive (b_cfg b) in
      if m = 0 \<or> requested = 0 then requested else if requested > m then m else requested)"

definition buildWill :: "broker \<Rightarrow> connect \<Rightarrow> app_error + message option" where
  "buildWill b req =
     (case c_Will req of
        None \<Rightarrow> Inr None
      | Some w \<Rightarrow>
          andThen (NewTopicName (will_Topic w)) (\<lambda>topic.
          andThen (NewQoS (will_QoS w)) (\<lambda>qos.
          mapInr Some (NewMessage (b_wall b)
            \<lparr>mp_Topic = topic, mp_Payload = will_Payload w, mp_QoS = Downgrade qos MaxSupportedQoS,
             mp_Retain = will_Retain w, mp_DUP = False, mp_PacketID = 0, mp_Now = b_now b,
             mp_MaxPayloadBytes = cf_MaxPayloadBytes (b_cfg b)\<rparr>))))"

text \<open>The reference of a new allocation.\<close>

definition fresh_ref :: "(nat, 'v) gomap \<Rightarrow> nat" where
  "fresh_ref m = foldr (\<lambda>x n. max (Suc (fst x)) n) m 0"

definition Connect ::
  "authenticator \<Rightarrow> string \<Rightarrow> broker \<Rightarrow> connect \<Rightarrow> string \<Rightarrow> conn_ref \<Rightarrow> connectResult \<times> broker" where
  "Connect auth newID b req remoteAddr sink =
     (case NewProtocolVersion (c_ProtocolName req) (c_ProtocolLevel req) of
        Inl err \<Rightarrow> (refused ConnectUnacceptableProtocolVer, b)
      | Inr protocol \<Rightarrow>
        (case resolveClientID newID req of
           Inl err \<Rightarrow> (refused ConnectIdentifierRejected, b)
         | Inr (clientID, assigned) \<Rightarrow>
           if \<not> cf_AllowAnonymous (b_cfg b) \<and> \<not> c_HasUsername req then (refused ConnectNotAuthorized, b)
           else
             let (authorised, returnCode) = auth clientID (c_Username req) (c_Password req) in
             if \<not> authorised then (refused returnCode, b)
             else
               (case buildWill b req of
                  Inl err \<Rightarrow> (refused ConnectIdentifierRejected, b)
                | Inr w \<Rightarrow>
                  let keepAlive = NewKeepAlive (capKeepAlive b (c_KeepAlive req)); now = b_now b in
                  (case NewClient (b_wall b)
                      \<lparr>cp_ID = clientID, cp_Protocol = protocol, cp_KeepAlive = keepAlive,
                       cp_CleanSession = c_CleanSession req, cp_Will = w, cp_Username = c_Username req,
                       cp_RemoteAddr = remoteAddr, cp_AssignedID = assigned, cp_Now = now\<rparr> of
                     Inl err \<Rightarrow> (refused ConnectIdentifierRejected, b)
                   | Inr client \<Rightarrow>
                     let ref = fresh_ref (b_clients b);
                         b = b\<lparr>b_clients := mput ref client (b_clients b)\<rparr>;
                         (sessionPresent, b) = resolveSession b clientID (c_CleanSession req) now;
                         (displaced, registry) = Register (b_registry b) clientID ref;
                         b = b\<lparr>b_registry := registry\<rparr>;
                         (displacedSink, b) = RegisterSink b clientID sink
                     in (\<lparr>cr_Client = Some ref, cr_ReturnCode = ConnectAccepted,
                          cr_SessionPresent = sessionPresent, cr_Displaced = displacedSink\<rparr>, b)))))"

subsection \<open>Disconnect\<close>

definition publishWill :: "broker \<Rightarrow> client \<Rightarrow> broker" where
  "publishWill b client = (case cl_will client of None \<Rightarrow> b | Some w \<Rightarrow> Publish b w)"

definition Disconnect :: "broker \<Rightarrow> client_ref \<Rightarrow> disconnect_reason \<Rightarrow> broker" where
  "Disconnect b ref reason =
     (case mget (b_clients b) ref of
        None \<Rightarrow> b
      | Some client \<Rightarrow>
          let (publish, client) = client_Disconnect client reason;
              b = b\<lparr>b_clients := mput ref client (b_clients b)\<rparr>;
              clientID = cl_id client;
              (stillCurrent, registry) = Unregister (b_registry b) clientID ref;
              b = b\<lparr>b_registry := registry\<rparr>;
              b = (if publish then publishWill b client else b)
          in if \<not> stillCurrent then b
             else if cl_cleanSession client then
               b\<lparr>b_index := UnsubscribeAll (b_index b) clientID,
                 b_sessions := snd (session_Delete (b_sessions b) clientID)\<rparr>
             else snd (updateSession b clientID (\<lambda>session b. (None, session_Disconnect session (b_now b), b))))"

subsection \<open>Sessions coming and going\<close>

text \<open>Changing what the store holds for one client, together with the index.\<close>

lemma replace_session_ok:
  assumes "broker_ok b" and "index_ok i" and "map_ok ss"
    and "\<And>c'. c' \<noteq> c \<Longrightarrow> session_Get ss c' = session_Get (b_sessions b) c'"
    and "\<And>s. session_Get ss c = Some s \<Longrightarrow> se_clientID s = c \<and> session_ok s \<and> traffic_ok s"
    and "\<And>f c'. granted i f c' = (if c' = c then Option.bind (session_Get ss c) (\<lambda>s. held s f) else granted (b_index b) f c')"
  shows "broker_ok (b\<lparr>b_index := i, b_sessions := ss\<rparr>)"
proof -
  have get: "se_clientID s = c' \<and> session_ok s \<and> traffic_ok s" if "session_Get ss c' = Some s" for c' s
    using that assms(1) assms(4,5) by (cases "c' = c") (auto simp: broker_ok_def state_ok_def store_ok_iff)
  have "granted i f c' = Option.bind (session_Get ss c') (\<lambda>s. held s f)" for f c'
    using assms(1,4,6) by (cases "c' = c") (auto simp: broker_ok_def state_ok_def subscribed_held)
  with get assms(1-3) show ?thesis
    by (auto simp: broker_ok_def state_ok_def refs_ok_def store_ok_iff subscribed_held)
qed

definition discard :: "broker \<Rightarrow> client_id \<Rightarrow> broker" where
  "discard b c = b\<lparr>b_index := UnsubscribeAll (b_index b) c, b_sessions := snd (session_Delete (b_sessions b) c)\<rparr>"

lemma discard_ok:
  assumes "broker_ok b"
  shows "broker_ok (discard b c)"
    and "session_Get (b_sessions (discard b c)) c' = (if c' = c then None else session_Get (b_sessions b) c')"
    and "subscribed (discard b c) c' f = (if c' = c then None else subscribed b c' f)"
proof -
  have ok: "index_ok (b_index b)" "store_ok (b_sessions b)" using assms by (auto simp: broker_ok_def state_ok_def)
  note get = sessions.get_delete [OF ok(2)]
  show "session_Get (b_sessions (discard b c)) c' = (if c' = c then None else session_Get (b_sessions b) c')" for c'
    by (simp add: discard_def get)
  then show "subscribed (discard b c) c' f = (if c' = c then None else subscribed b c' f)"
    by (simp add: subscribed_held)
  show "broker_ok (discard b c)"
    unfolding discard_def using session_Delete_ok [OF ok(2), of c]
    by (intro replace_session_ok [where c = c])
      (simp_all add: assms ok UnsubscribeAll_index_ok granted_UnsubscribeAll get store_ok_def)
qed

lemma NewSession_empty:
  "traffic_ok (NewSession c clean l now)" "held (NewSession c clean l now) f = None"
  "se_clientID (NewSession c clean l now) = c" "se_clean (NewSession c clean l now) = clean"
  "se_inflight (NewSession c clean l now) = []" "se_queued (NewSession c clean l now) = []"
  "se_maxInflight (NewSession c clean l now) = li_MaxInflight (withDefaults l)"
  by (simp_all add: NewSession_def Let_def traffic_ok_def held_def session_Subscription_def)

lemma put_fresh_ok:
  assumes "broker_ok b" and "session_Get (b_sessions b) c = None"
  shows "broker_ok (b\<lparr>b_sessions := session_Put (b_sessions b) (NewSession c clean l now)\<rparr>)"
proof -
  have ok: "index_ok (b_index b)" "store_ok (b_sessions b)" using assms by (auto simp: broker_ok_def state_ok_def)
  note get = sessions.get_put [OF ok(2)]
  have "granted (b_index b) f c = None" for f
    using assms by (simp add: broker_ok_def state_ok_def subscribed_held)
  then have "broker_ok (b\<lparr>b_index := b_index b, b_sessions := session_Put (b_sessions b) (NewSession c clean l now)\<rparr>)"
    using session_Put_ok [OF ok(2) NewSession_ok]
    by (intro replace_session_ok [where c = c]) (auto simp: assms ok get NewSession_empty NewSession_ok store_ok_def)
  then show ?thesis by simp
qed

lemma Resume_held: "se_clientID (Resume s now) = se_clientID s" "se_clientID (session_Disconnect s now) = se_clientID s"
  "held (Resume s now) f = held s f" "traffic_ok (Resume s now) = traffic_ok s"
  "held (session_Disconnect s now) f = held s f" "traffic_ok (session_Disconnect s now) = traffic_ok s"
  by (simp_all add: Resume_def session_Disconnect_def held_def session_Subscription_def traffic_ok_def)

lemma touch_session_ok:
  assumes "broker_ok b" and "session_Get (b_sessions b) c = Some s"
    and "session_ok s'" and "traffic_ok s'" and "se_clientID s' = c" and "\<And>f. held s' f = held s f"
  shows "broker_ok (b\<lparr>b_sessions := mput c s' (b_sessions b)\<rparr>)"
proof -
  have ok: "index_ok (b_index b)" "store_ok (b_sessions b)" using assms by (auto simp: broker_ok_def state_ok_def)
  have "granted (b_index b) f c = held s f" for f
    using assms(1,2) by (simp add: broker_ok_def state_ok_def subscribed_held)
  then have "broker_ok (b\<lparr>b_index := b_index b, b_sessions := mput c s' (b_sessions b)\<rparr>)"
    using ok(2) by (intro replace_session_ok [where c = c]) (auto simp: assms ok store_ok_def)
  then show ?thesis by simp
qed

text \<open>What becomes of the session of a connecting client.\<close>

lemma resolveSession_cases [consumes 1, case_names resumed fresh]:
  assumes "broker_ok b"
  obtains (resumed) s where "session_Get (b_sessions b) c = Some s" and "\<not> clean" and "\<not> se_clean s"
      and "resolveSession b c clean now = (True, b\<lparr>b_sessions := mput c (Resume s now) (b_sessions b)\<rparr>)"
  | (fresh) b1 where "clean \<or> session_Get (b_sessions b) c = None \<or> (\<exists>s. session_Get (b_sessions b) c = Some s \<and> se_clean s)"
      and "b1 = b \<and> session_Get (b_sessions b) c = None \<or> b1 = discard b c"
      and "resolveSession b c clean now = (False, b1\<lparr>b_sessions := session_Put (b_sessions b1)
            (NewSession c clean (cf_SessionLimits (b_cfg b)) now)\<rparr>)"
proof (cases "session_Get (b_sessions b) c")
  case None
  then show thesis
    by (intro fresh [of b]) (auto simp: resolveSession_def Let_def)
next
  case (Some s)
  show thesis
  proof (cases "clean \<or> se_clean s")
    case True
    with Some show thesis
      by (intro fresh [of "discard b c"]) (auto simp: resolveSession_def Let_def discard_def)
  next
    case False
    with Some show thesis
      by (intro resumed [of s]) (auto simp: resolveSession_def Let_def updateSession_def Update_def session_Get_def)
  qed
qed

lemma resolveSession_ok:
  assumes "broker_ok b"
  shows "broker_ok (snd (resolveSession b c clean now))"
  using assms
proof (cases rule: resolveSession_cases [where c = c and clean = clean and now = now])
  case (resumed s)
  have "session_ok s" "traffic_ok s" "se_clientID s = c"
    using assms resumed(1) by (auto simp: broker_ok_def state_ok_def store_ok_iff)
  with resumed assms show ?thesis
    by (simp add: touch_session_ok [OF assms resumed(1)] Resume_ok Resume_held)
next
  case (fresh b1)
  then have "broker_ok b1" "session_Get (b_sessions b1) c = None" using discard_ok [OF assms] assms by auto
  with fresh(3) show ?thesis by (simp add: put_fresh_ok)
qed

lemma resolveSession_frame:
  assumes "broker_ok b"
  shows "b_conns (snd (resolveSession b c clean now)) = b_conns b" "b_clients (snd (resolveSession b c clean now)) = b_clients b"
    "b_registry (snd (resolveSession b c clean now)) = b_registry b" "b_sinks (snd (resolveSession b c clean now)) = b_sinks b"
    "b_retained (snd (resolveSession b c clean now)) = b_retained b" "b_now (snd (resolveSession b c clean now)) = b_now b"
    "b_cfg (snd (resolveSession b c clean now)) = b_cfg b"
  by (cases rule: resolveSession_cases [OF assms, where c = c and clean = clean and now = now]; auto simp: discard_def)+

subsection \<open>Connect\<close>

lemma fresh_ref_new: "mget m (fresh_ref m) = None"
proof -
  have "(k, v) \<in> set m \<Longrightarrow> k < fresh_ref m" for k v
    by (induction m) (auto simp: fresh_ref_def less_max_iff_disj)
  then show ?thesis by (metis less_irrefl map_of_SomeD not_Some_eq)
qed

lemma clients_ok:
  assumes "broker_ok b" and "map_ok cls"
    and "\<And>r x. mget (b_clients b) r = Some x \<Longrightarrow> \<exists>y. mget cls r = Some y \<and> cl_id y = cl_id x"
  shows "broker_ok (b\<lparr>b_clients := cls\<rparr>)"
proof -
  have old: "mget (b_registry b) c = Some r \<Longrightarrow> \<exists>cl. mget (b_clients b) r = Some cl \<and> cl_id cl = c"
    "mget (b_conns b) k = Some cn \<Longrightarrow> cn_client cn = Some r \<Longrightarrow>
      \<exists>cl. mget (b_clients b) r = Some cl \<and> cl_id cl = cn_clientID cn" for c r k cn
    using assms(1) by (auto simp: broker_ok_def refs_ok_def)
  have "mget (b_registry b) c = Some r \<Longrightarrow> \<exists>cl. mget cls r = Some cl \<and> cl_id cl = c"
    "mget (b_conns b) k = Some cn \<Longrightarrow> cn_client cn = Some r \<Longrightarrow> \<exists>cl. mget cls r = Some cl \<and> cl_id cl = cn_clientID cn"
    for c r k cn
    using old(1) [of c r] old(2) [of k cn r] assms(3) [of r] by auto
  with assms(1,2) have "refs_ok (b\<lparr>b_clients := cls\<rparr>)" unfolding broker_ok_def refs_ok_def by simp
  with assms(1) show ?thesis by (simp add: broker_ok_def state_ok_def subscribed_def)
qed

lemma add_client_ok:
  assumes "broker_ok b" and "mget (b_clients b) ref = None"
  shows "broker_ok (b\<lparr>b_clients := mput ref cl (b_clients b)\<rparr>)"
  using assms by (intro clients_ok) (auto simp: broker_ok_def refs_ok_def)

lemma register_ok:
  assumes "broker_ok b" and "mget (b_clients b) ref = Some cl" and "mget (b_conns b) k \<noteq> None"
  shows "broker_ok (b\<lparr>b_registry := mput (cl_id cl) ref (b_registry b), b_sinks := mput c k (b_sinks b)\<rparr>)"
  using assms by (auto simp: broker_ok_def state_ok_def refs_ok_def subscribed_def)

lemma resolveClientID_Inr: "resolveClientID newID req = Inr (c, assigned) \<Longrightarrow> c \<noteq> ''''"
  by (auto simp: resolveClientID_def mapInr_def NewClientID_def split: if_splits)

text \<open>The admission checks of \<open>Connect\<close>, in their order, and what an admitted client is entered with.\<close>

definition enter :: "broker \<Rightarrow> connect \<Rightarrow> client_id \<Rightarrow> client \<Rightarrow> conn_ref \<Rightarrow> connectResult \<times> broker" where
  "enter b req c cl k =
     (let ref = fresh_ref (b_clients b);
          (present, b) = resolveSession (b\<lparr>b_clients := mput ref cl (b_clients b)\<rparr>) c (c_CleanSession req) (b_now b)
      in (\<lparr>cr_Client = Some ref, cr_ReturnCode = ConnectAccepted, cr_SessionPresent = present,
           cr_Displaced = (if mget (b_sinks b) c = Some k then None else mget (b_sinks b) c)\<rparr>,
          b\<lparr>b_registry := mput c ref (b_registry b), b_sinks := mput c k (b_sinks b)\<rparr>))"

definition admitted :: "broker \<Rightarrow> connect \<Rightarrow> client_id \<Rightarrow> bool \<Rightarrow> message option \<Rightarrow> string \<Rightarrow> client" where
  "admitted b req c assigned w addr =
     projr (NewClient (b_wall b)
       \<lparr>cp_ID = c, cp_Protocol = \<lparr>pv_name = c_ProtocolName req, pv_level = c_ProtocolLevel req\<rparr>,
        cp_KeepAlive = NewKeepAlive (capKeepAlive b (c_KeepAlive req)), cp_CleanSession = c_CleanSession req,
        cp_Will = w, cp_Username = c_Username req, cp_RemoteAddr = addr, cp_AssignedID = assigned, cp_Now = b_now b\<rparr>)"

lemma admitted_fields:
  "c \<noteq> '''' \<Longrightarrow> cl_id (admitted b req c assigned w addr) = c
     \<and> cl_cleanSession (admitted b req c assigned w addr) = c_CleanSession req
     \<and> cl_will (admitted b req c assigned w addr) = w \<and> cl_state (admitted b req c assigned w addr) = StateConnected"
  by (simp add: admitted_def NewClient_def Let_def)

lemma Connect_checks:
  "Connect auth newID b req addr k =
     (if c_ProtocolName req \<noteq> ''MQTT'' \<or> c_ProtocolLevel req \<noteq> 4 then (refused ConnectUnacceptableProtocolVer, b)
      else case resolveClientID newID req of
        Inl e \<Rightarrow> (refused ConnectIdentifierRejected, b)
      | Inr (c, assigned) \<Rightarrow>
          if \<not> cf_AllowAnonymous (b_cfg b) \<and> \<not> c_HasUsername req then (refused ConnectNotAuthorized, b)
          else if \<not> fst (auth c (c_Username req) (c_Password req))
          then (refused (snd (auth c (c_Username req) (c_Password req))), b)
          else case buildWill b req of
            Inl e \<Rightarrow> (refused ConnectIdentifierRejected, b)
          | Inr w \<Rightarrow> enter b req c (admitted b req c assigned w addr) k)"
  using resolveClientID_Inr [of newID req]
  by (auto simp: Connect_def NewProtocolVersion_def enter_def admitted_def NewClient_def Let_def Register_def
      RegisterSink_def split: sum.split prod.split)

lemma enter_accepted: "Accepted (fst (enter b req c cl k))"
  by (simp add: enter_def Accepted_def Let_def split_beta)

lemma refused_fields:
  "\<not> Accepted (refused code)" "cr_Client (refused code) = None" "\<not> cr_SessionPresent (refused code)"
  "cr_Displaced (refused code) = None"
  by (simp_all add: refused_def Accepted_def)

text \<open>
  The port of the authenticators: a refusal never carries the accepting code. Then the code of the CONNACK tells a client whether
  it was accepted.
\<close>

locale authenticator_port =
  fixes Authenticate :: authenticator
  assumes refusal_code: "\<not> fst (Authenticate c u p) \<Longrightarrow> snd (Authenticate c u p) \<noteq> ConnectAccepted"
begin

lemma Connect_refusal_code:
  assumes "Connect Authenticate newID b req addr k = (r, b1)" and "\<not> Accepted r"
  shows "b1 = b \<and> cr_ReturnCode r \<noteq> ConnectAccepted \<and> \<not> cr_SessionPresent r"
proof -
  have "enter b req c cl k \<noteq> (r, b1)" for c cl using enter_accepted [of b req c cl k] assms(2) by auto
  with assms(1) refusal_code show ?thesis
    by (auto simp: Connect_checks refused_def split: if_splits sum.splits)
qed

end

interpretation allow_all: authenticator_port AllowAll_Authenticate
  by unfold_locales (simp add: AllowAll_Authenticate_def)

interpretation static: authenticator_port "Static_Authenticate a" for a
  by unfold_locales (auto simp: Static_Authenticate_def split: option.splits if_splits)

text \<open>The two ways \<open>Connect\<close> can end.\<close>

lemma Connect_cases [case_names refused accepted]:
  obtains (refused) code where "Connect auth newID b req addr k = (refused code, b)"
  | (accepted) c cl ref present b1 where "c \<noteq> ''''" and "cl_id cl = c" and "cl_cleanSession cl = c_CleanSession req"
      and "cl_state cl = StateConnected" and "buildWill b req = Inr (cl_will cl)" and "ref = fresh_ref (b_clients b)"
      and "resolveSession (b\<lparr>b_clients := mput ref cl (b_clients b)\<rparr>) c (c_CleanSession req) (b_now b) = (present, b1)"
      and "Connect auth newID b req addr k =
        (\<lparr>cr_Client = Some ref, cr_ReturnCode = ConnectAccepted, cr_SessionPresent = present,
          cr_Displaced = (if mget (b_sinks b1) c = Some k then None else mget (b_sinks b1) c)\<rparr>,
         b1\<lparr>b_registry := mput c ref (b_registry b1), b_sinks := mput c k (b_sinks b1)\<rparr>)"
proof (cases "\<exists>code. Connect auth newID b req addr k = (refused code, b)")
  case True
  then show thesis using refused by blast
next
  case False
  then obtain c assigned w where i: "resolveClientID newID req = Inr (c, assigned)" and w: "buildWill b req = Inr w"
      and eq: "Connect auth newID b req addr k = enter b req c (admitted b req c assigned w addr) k"
    by (auto simp: Connect_checks split: if_splits sum.splits)
  let ?cl = "admitted b req c assigned w addr" and ?ref = "fresh_ref (b_clients b)"
  obtain present b1 where r: "resolveSession (b\<lparr>b_clients := mput ?ref ?cl (b_clients b)\<rparr>) c (c_CleanSession req) (b_now b)
      = (present, b1)" by force
  have c: "c \<noteq> ''''" using resolveClientID_Inr [OF i] .
  show thesis
    by (rule accepted [OF c _ _ _ _ refl r])
      (use w eq r admitted_fields [OF c, of b req assigned w addr] in \<open>simp_all add: enter_def Let_def\<close>)
qed

lemma Connect_ok:
  assumes "broker_ok b" and "mget (b_conns b) k \<noteq> None"
  shows "broker_ok (snd (Connect auth newID b req addr k))"
proof (cases rule: Connect_cases [where auth = auth and newID = newID and b = b and req = req and addr = addr and k = k])
  case (accepted c cl ref present b1)
  let ?b = "b\<lparr>b_clients := mput ref cl (b_clients b)\<rparr>"
  have "mget (b_clients b) ref = None" using accepted(6) by (simp add: fresh_ref_new)
  then have ok: "broker_ok ?b" by (rule add_client_ok [OF assms(1)])
  note frame = resolveSession_frame [OF ok, of c "c_CleanSession req" "b_now b", unfolded accepted(7) snd_conv]
  have "broker_ok b1" using resolveSession_ok [OF ok, of c "c_CleanSession req" "b_now b"] accepted(7) by simp
  then have "broker_ok (b1\<lparr>b_registry := mput (cl_id cl) ref (b_registry b1), b_sinks := mput c k (b_sinks b1)\<rparr>)"
    by (rule register_ok) (use frame assms(2) in simp_all)
  then show ?thesis by (simp add: accepted)
qed (use assms in simp)


lemma resolveSession_core:
  assumes "broker_ok b" and "resolveSession b c clean now = (present, b1)"
  shows "present = (\<not> clean \<and> (\<exists>s. session_Get (b_sessions b) c = Some s \<and> \<not> se_clean s))
    \<and> (\<exists>s'. session_Get (b_sessions b1) c = Some s' \<and> se_clean s' = clean \<and> se_connected s'
        \<and> (if present
           then \<exists>s. session_Get (b_sessions b) c = Some s \<and> held s' = held s
             \<and> se_inflight s' = se_inflight s \<and> se_queued s' = se_queued s
           else se_subscriptions s' = [] \<and> se_inflight s' = [] \<and> se_queued s' = []))
    \<and> (\<forall>c'. c' \<noteq> c \<longrightarrow> session_Get (b_sessions b1) c' = session_Get (b_sessions b) c')"
  using assms(1)
proof (cases rule: resolveSession_cases [where c = c and clean = clean and now = now])
  case (resumed s)
  with assms(2) show ?thesis by (auto simp: Resume_def held_def session_Subscription_def fun_eq_iff)
next
  case (fresh b2)
  have "store_ok (b_sessions b2)" "\<forall>c'. c' \<noteq> c \<longrightarrow> session_Get (b_sessions b2) c' = session_Get (b_sessions b) c'"
    using fresh(2) discard_ok [OF assms(1)] assms(1) by (auto simp: broker_ok_def state_ok_def)
  with fresh(1,3) assms(2) show ?thesis
    by (auto simp: sessions.get_put NewSession_def Let_def)
qed

text \<open>The identifier and the session-present flag of an accepted client.\<close>

lemma Connect_entered:
  assumes "broker_ok b" and "Connect auth newID b req addr k = (r, b1)" and "cr_Client r = Some ref" and "mget (b_clients b1) ref = Some cl"
  shows "\<exists>assigned. resolveClientID newID req = Inr (cl_id cl, assigned)"
    and "cr_SessionPresent r = (\<not> c_CleanSession req \<and> (\<exists>s. session_Get (b_sessions b) (cl_id cl) = Some s \<and> \<not> se_clean s))"
proof -
  obtain c assigned w where i: "resolveClientID newID req = Inr (c, assigned)"
      and e: "enter b req c (admitted b req c assigned w addr) k = (r, b1)"
    using assms(2,3) by (auto simp: Connect_checks refused_fields split: if_splits sum.splits)
  let ?cl = "admitted b req c assigned w addr" and ?ref = "fresh_ref (b_clients b)"
  let ?b = "b\<lparr>b_clients := mput ?ref ?cl (b_clients b)\<rparr>"
  have ok: "broker_ok ?b" by (rule add_client_ok [OF assms(1)]) (simp add: fresh_ref_new)
  from resolveSession_frame(2) [OF ok] e assms(3,4) have "cl = ?cl" by (auto simp: enter_def Let_def split_beta)
  with admitted_fields [OF resolveClientID_Inr [OF i]] have c: "cl_id cl = c" by simp
  with i show "\<exists>assigned. resolveClientID newID req = Inr (cl_id cl, assigned)" by simp
  obtain present b2 where rs: "resolveSession ?b c (c_CleanSession req) (b_now b) = (present, b2)" by force
  with e have "cr_SessionPresent r = present" by (auto simp: enter_def Let_def)
  with resolveSession_core [OF ok rs] c
  show "cr_SessionPresent r = (\<not> c_CleanSession req \<and> (\<exists>s. session_Get (b_sessions b) (cl_id cl) = Some s \<and> \<not> se_clean s))"
    by simp
qed

lemma resolveClientID_own:
  "resolveClientID newID req = Inr (c, assigned) \<Longrightarrow> c_ClientID req \<noteq> '''' \<Longrightarrow> c = c_ClientID req"
  by (auto simp: resolveClientID_def mapInr_def NewClientID_def split: if_splits sum.splits)

text \<open>Claim C16. What an accepted CONNECT establishes. The client gets a new reference, which the registry and
  the sink table now map its identifier to. Session present is reported exactly when a clean
  session was not asked for and a persistent one was stored; then the session is taken up with
  its subscriptions, its in-flight window and its queue as they were. In every other case the
  session is new and empty, and nothing of an old one survives in the index. All other clients
  keep their sessions, subscriptions, registrations and sinks.\<close>

theorem Connect_establishes:
  assumes "broker_ok b" and "mget (b_conns b) k \<noteq> None" and "Connect auth newID b req addr k = (r, b')" and "Accepted r"
  shows "\<exists>ref cl. cr_Client r = Some ref \<and> mget (b_clients b) ref = None \<and> mget (b_clients b') ref = Some cl
    \<and> registry_Get (b_registry b') (cl_id cl) = Some ref \<and> sinkFor b' (cl_id cl) = Some k
    \<and> cr_SessionPresent r = (\<not> c_CleanSession req \<and> (\<exists>s. session_Get (b_sessions b) (cl_id cl) = Some s \<and> \<not> se_clean s))
    \<and> (\<exists>s'. session_Get (b_sessions b') (cl_id cl) = Some s' \<and> se_clean s' = c_CleanSession req \<and> se_connected s'
        \<and> (if cr_SessionPresent r
           then \<exists>s. session_Get (b_sessions b) (cl_id cl) = Some s \<and> held s' = held s
             \<and> se_inflight s' = se_inflight s \<and> se_queued s' = se_queued s
           else se_subscriptions s' = [] \<and> se_inflight s' = [] \<and> se_queued s' = []))
    \<and> (\<forall>c. c \<noteq> cl_id cl \<longrightarrow> session_Get (b_sessions b') c = session_Get (b_sessions b) c
        \<and> subscribed b' c = subscribed b c \<and> registry_Get (b_registry b') c = registry_Get (b_registry b) c
        \<and> sinkFor b' c = sinkFor b c)
    \<and> broker_ok b'"
proof (cases rule: Connect_cases [where auth = auth and newID = newID and b = b and req = req and addr = addr and k = k])
  case (refused code)
  with assms(3,4) have False by (auto simp: refused_def Accepted_def)
  then show ?thesis ..
next
  case (accepted c cl ref present b1)
  let ?b = "b\<lparr>b_clients := mput ref cl (b_clients b)\<rparr>"
  have new: "mget (b_clients b) ref = None" using accepted(6) by (simp add: fresh_ref_new)
  then have ok: "broker_ok ?b" by (rule add_client_ok [OF assms(1)])
  note frame = resolveSession_frame [OF ok, of c "c_CleanSession req" "b_now b", unfolded accepted(7) snd_conv]
  have r: "r = \<lparr>cr_Client = Some ref, cr_ReturnCode = ConnectAccepted, cr_SessionPresent = present,
      cr_Displaced = (if mget (b_sinks b1) c = Some k then None else mget (b_sinks b1) c)\<rparr>"
    and b': "b' = b1\<lparr>b_registry := mput c ref (b_registry b1), b_sinks := mput c k (b_sinks b1)\<rparr>"
    using accepted(8) assms(3) by simp_all
  have ok': "broker_ok b'" using Connect_ok [OF assms(1,2)] assms(3) by (metis snd_conv)
  have same: "b_sessions ?b = b_sessions b" by simp
  note core = resolveSession_core [OF ok accepted(7), unfolded same]
  have fields: "cr_Client r = Some ref" "mget (b_clients b') ref = Some cl" "registry_Get (b_registry b') c = Some ref"
    "sinkFor b' c = Some k" "cr_SessionPresent r = present" "b_sessions b' = b_sessions b1"
    using frame by (simp_all add: r b' registry_Get_def sinkFor_def)
  have others: "\<forall>c'. c' \<noteq> c \<longrightarrow> session_Get (b_sessions b1) c' = session_Get (b_sessions b) c'
      \<and> subscribed b' c' = subscribed b c' \<and> registry_Get (b_registry b') c' = registry_Get (b_registry b) c'
      \<and> sinkFor b' c' = sinkFor b c'"
    using core frame by (simp add: b' registry_Get_def sinkFor_def subscribed_held fun_eq_iff)
  show ?thesis
    by (intro exI [of _ ref] exI [of _ cl] conjI)
      (unfold accepted(2) fields, insert core new others ok', (rule refl | assumption | elim conjE)+)
qed

definition sample_connect :: connect where
  "sample_connect = \<lparr>c_ProtocolName = ''MQTT'', c_ProtocolLevel = 4, c_CleanSession = False, c_KeepAlive = 30,
     c_ClientID = ''c'', c_Will = None, c_Username = '''', c_Password = [], c_HasUsername = False, c_HasPassword = False\<rparr>"

lemma utf8_Valid_c: "utf8_Valid (bytes_of ''c'')"
  by code_simp

lemma sample_connect_accepted: "Accepted (fst (Connect AllowAll_Authenticate ''x'' sample_broker sample_connect ''addr'' 0))"
proof -
  have "resolveClientID ''x'' sample_connect = Inr (''c'', False)"
    using utf8_Valid_c
    by (simp add: resolveClientID_def sample_connect_def NewClientID_def mapInr_def MaxClientIDLength_def ContainsNull_def)
  moreover have "cf_AllowAnonymous (b_cfg sample_broker)"
    by (simp add: sample_broker_def NewBroker_def publishing_withDefaults_def sample_config_def)
  moreover have "buildWill sample_broker sample_connect = Inr None" by (simp add: buildWill_def sample_connect_def)
  ultimately show ?thesis
    by (simp add: Connect_def NewProtocolVersion_def sample_connect_def NewClient_def Let_def AllowAll_Authenticate_def
        Accepted_def split: prod.split)
qed

lemma Connect_establishes_witness:
  "\<exists>ref cl. cr_Client (fst (Connect AllowAll_Authenticate ''x'' sample_broker sample_connect ''addr'' 0)) = Some ref
    \<and> mget (b_clients (snd (Connect AllowAll_Authenticate ''x'' sample_broker sample_connect ''addr'' 0))) ref = Some cl
    \<and> sinkFor (snd (Connect AllowAll_Authenticate ''x'' sample_broker sample_connect ''addr'' 0)) (cl_id cl) = Some 0
    \<and> broker_ok (snd (Connect AllowAll_Authenticate ''x'' sample_broker sample_connect ''addr'' 0))"
  using Connect_establishes [OF sample_broker_ok _ prod.collapse [symmetric] sample_connect_accepted]
  by (auto simp: sample_broker_conns)

text \<open>A CONNECT with a will of level 1 or 2 is never accepted: \<open>buildWill\<close> asks \<open>NewMessage\<close> for a
  message of that level without a packet identifier, which \<open>NewMessage\<close> refuses, and the
  client is told that its identifier is rejected. Wills work at level 0 only.\<close>

theorem Connect_rejects_acknowledged_will:
  assumes "c_Will req = Some w" and "will_QoS w \<noteq> 0"
  shows "\<not> Accepted (fst (Connect auth newID b req addr k)) \<and> snd (Connect auth newID b req addr k) = b"
proof -
  have "\<exists>e. buildWill b req = Inl e"
  proof (cases "NewTopicName (will_Topic w)")
    case (Inr t)
    show ?thesis
    proof (cases "NewQoS (will_QoS w)")
      case (Inr q)
      then have q: "q = will_QoS w" by (auto simp: NewQoS_def split: if_splits)
      have "\<exists>e. NewMessage wall p = Inl e" if "mp_PacketID p = 0" "mp_QoS p = Downgrade (will_QoS w) MaxSupportedQoS" for wall p
        using that assms(2) by (cases "NewMessage wall p") (auto simp: NewMessage_Inr Downgrade_zero)
      then have "\<exists>e. NewMessage (b_wall b)
            \<lparr>mp_Topic = t, mp_Payload = will_Payload w, mp_QoS = Downgrade q MaxSupportedQoS,
             mp_Retain = will_Retain w, mp_DUP = False, mp_PacketID = 0, mp_Now = b_now b,
             mp_MaxPayloadBytes = cf_MaxPayloadBytes (b_cfg b)\<rparr> = Inl e" by (simp add: q)
      with \<open>NewTopicName _ = _\<close> Inr q assms(1) show ?thesis
        by (auto simp: buildWill_def mapInr_def split: sum.split)
    qed (use Inr assms(1) in \<open>simp add: buildWill_def\<close>)
  qed (use assms(1) in \<open>simp add: buildWill_def\<close>)
  then show ?thesis
    by (cases rule: Connect_cases [where auth = auth and newID = newID and b = b and req = req and addr = addr and k = k])
      (auto simp: refused_def Accepted_def)
qed

lemma Connect_rejects_acknowledged_will_witness:
  "\<not> Accepted (fst (Connect AllowAll_Authenticate ''x'' sample_broker
      (sample_connect\<lparr>c_Will := Some \<lparr>will_Topic = ''a'', will_Payload = [1], will_QoS = 1, will_Retain = False\<rparr>\<rparr>) ''addr'' 0))
    \<and> snd (Connect AllowAll_Authenticate ''x'' sample_broker
      (sample_connect\<lparr>c_Will := Some \<lparr>will_Topic = ''a'', will_Payload = [1], will_QoS = 1, will_Retain = False\<rparr>\<rparr>) ''addr'' 0)
      = sample_broker"
  by (rule Connect_rejects_acknowledged_will [of _ "\<lparr>will_Topic = ''a'', will_Payload = [1], will_QoS = 1, will_Retain = False\<rparr>"])
    simp_all

subsection \<open>Disconnect\<close>

text \<open>The part of \<open>Disconnect\<close> before the session is touched: the client is marked, its registration removed
  if it is its own, and the will published.\<close>

definition leave :: "broker \<Rightarrow> client_ref \<Rightarrow> client \<Rightarrow> disconnect_reason \<Rightarrow> broker" where
  "leave b ref client reason =
     (let b = b\<lparr>b_clients := mput ref (snd (client_Disconnect client reason)) (b_clients b),
               b_registry := snd (Unregister (b_registry b) (cl_id client) ref)\<rparr>
      in if fst (client_Disconnect client reason) then publishWill b client else b)"

lemma client_Disconnect_fields [simp]:
  "cl_id (snd (client_Disconnect cl reason)) = cl_id cl" "cl_will (snd (client_Disconnect cl reason)) = cl_will cl"
  "cl_cleanSession (snd (client_Disconnect cl reason)) = cl_cleanSession cl"
  by (simp_all add: client_Disconnect_def)

lemma Disconnect_leave:
  assumes "mget (b_clients b) ref = Some cl"
  shows "Disconnect b ref reason =
    (if registry_Get (b_registry b) (cl_id cl) \<noteq> Some ref then leave b ref cl reason
     else if cl_cleanSession cl then discard (leave b ref cl reason) (cl_id cl)
     else snd (updateSession (leave b ref cl reason) (cl_id cl)
       (\<lambda>session b. (None, session_Disconnect session (b_now b), b))))"
proof -
  have "publishWill b (snd (client_Disconnect cl reason)) = publishWill b cl" for b by (simp add: publishWill_def)
  moreover have "fst (Unregister (b_registry b) (cl_id cl) ref) = (registry_Get (b_registry b) (cl_id cl) = Some ref)"
    by (simp add: registry.unregister_current)
  ultimately show ?thesis
    using assms by (simp add: Disconnect_def leave_def discard_def Let_def split_beta)
qed

lemma unregister_ok:
  assumes "broker_ok b"
  shows "broker_ok (b\<lparr>b_registry := snd (Unregister (b_registry b) c ref)\<rparr>)"
  using assms by (auto simp: broker_ok_def state_ok_def refs_ok_def subscribed_def Unregister_def split: if_splits)

lemma leave_start:
  assumes "broker_ok b" and "mget (b_clients b) ref = Some cl"
  shows "broker_ok (b\<lparr>b_clients := mput ref (snd (client_Disconnect cl reason)) (b_clients b),
    b_registry := snd (Unregister (b_registry b) (cl_id cl) ref)\<rparr>)"
proof -
  have "broker_ok (b\<lparr>b_clients := mput ref (snd (client_Disconnect cl reason)) (b_clients b)\<rparr>)"
    by (rule clients_ok [OF assms(1)]) (use assms in \<open>auto simp: broker_ok_def refs_ok_def\<close>)
  from unregister_ok [OF this] show ?thesis by simp
qed

lemma client_Disconnect_will:
  "fst (client_Disconnect cl reason) \<longleftrightarrow> cl_state cl \<noteq> StateDisconnected \<and> cl_will cl \<noteq> None \<and> \<not> IsGraceful reason"
  by (simp add: client_Disconnect_def)

lemma leave_effect:
  assumes "broker_ok b" and "mget (b_clients b) ref = Some cl"
  shows "broker_ok (leave b ref cl reason) \<and> subscribed (leave b ref cl reason) c f = subscribed b c f
      \<and> rel_option session_step (session_Get (b_sessions b) c) (session_Get (b_sessions (leave b ref cl reason)) c)
      \<and> b_registry (leave b ref cl reason) = snd (Unregister (b_registry b) (cl_id cl) ref)
      \<and> b_sinks (leave b ref cl reason) = b_sinks b
      \<and> b_published (leave b ref cl reason) = b_published b +
        (if cl_state cl \<noteq> StateDisconnected \<and> cl_will cl \<noteq> None \<and> \<not> IsGraceful reason then 1 else 0)"
proof (cases "fst (client_Disconnect cl reason)")
  case True
  let ?b = "b\<lparr>b_clients := mput ref (snd (client_Disconnect cl reason)) (b_clients b),
               b_registry := snd (Unregister (b_registry b) (cl_id cl) ref)\<rparr>"
  obtain m where m: "cl_will cl = Some m" using True client_Disconnect_will [of cl reason] by blast
  have eq: "leave b ref cl reason = Publish ?b m" using True m by (simp add: leave_def publishWill_def)
  note d = Publish_delivers [of ?b m]
  then have "rel_option session_step (session_Get (b_sessions b) c) (session_Get (b_sessions (Publish ?b m)) c)"
    by (simp add: delivers_def)
  moreover have "subscribed (Publish ?b m) c f = subscribed b c f"
    using delivers_subscribed [OF d] by (simp add: subscribed_def)
  ultimately show ?thesis
    using True client_Disconnect_will [of cl reason]
    by (simp add: eq Publish_ok [OF leave_start [OF assms]] delivers_frame [OF d] Publish_published)
next
  case False
  then have "leave b ref cl reason = b\<lparr>b_clients := mput ref (snd (client_Disconnect cl reason)) (b_clients b),
      b_registry := snd (Unregister (b_registry b) (cl_id cl) ref)\<rparr>" by (simp add: leave_def)
  with False client_Disconnect_will [of cl reason] leave_start [OF assms, of reason]
  show ?thesis by (simp add: option.rel_refl subscribed_def del: not_None_eq)
qed

lemma leave_ok:
  assumes "broker_ok b" and "mget (b_clients b) ref = Some cl"
  shows "broker_ok (leave b ref cl reason)"
    and "subscribed (leave b ref cl reason) c f = subscribed b c f"
    and "rel_option session_step (session_Get (b_sessions b) c) (session_Get (b_sessions (leave b ref cl reason)) c)"
    and "b_registry (leave b ref cl reason) = snd (Unregister (b_registry b) (cl_id cl) ref)"
    and "b_sinks (leave b ref cl reason) = b_sinks b"
    and "b_published (leave b ref cl reason) = b_published b +
      (if cl_state cl \<noteq> StateDisconnected \<and> cl_will cl \<noteq> None \<and> \<not> IsGraceful reason then 1 else 0)"
  using leave_effect [OF assms] by blast+

lemma session_Disconnect_keeps:
  "se_inflight (session_Disconnect s now) = se_inflight s" "se_queued (session_Disconnect s now) = se_queued s"
  "\<not> se_connected (session_Disconnect s now)"
  by (simp_all add: session_Disconnect_def)

lemma part_session:
  assumes "broker_ok b"
  shows "broker_ok (snd (updateSession b c (\<lambda>session b. (None, session_Disconnect session (b_now b), b))))"
    and "session_Get (b_sessions (snd (updateSession b c (\<lambda>session b. (None, session_Disconnect session (b_now b), b))))) c' =
      (if c' = c then map_option (\<lambda>s. session_Disconnect s (b_now b)) (session_Get (b_sessions b) c)
       else session_Get (b_sessions b) c')"
    and "broker_core (snd (updateSession b c (\<lambda>session b. (None, session_Disconnect session (b_now b), b)))) = broker_core b"
    and "b_published (snd (updateSession b c (\<lambda>session b. (None, session_Disconnect session (b_now b), b)))) = b_published b"
proof -
  let ?fn = "\<lambda>session b. (None, session_Disconnect session (b_now b), b)"
  let ?b = "snd (updateSession b c ?fn)"
  have "broker_ok ?b \<and> session_Get (b_sessions ?b) c' =
      (if c' = c then map_option (\<lambda>s. session_Disconnect s (b_now b)) (session_Get (b_sessions b) c)
       else session_Get (b_sessions b) c') \<and> broker_core ?b = broker_core b \<and> b_published ?b = b_published b" for c'
  proof (cases "session_Get (b_sessions b) c")
    case None
    then show ?thesis using assms by (simp add: updateSession_None)
  next
    case (Some s)
    have "updateSession b c ?fn = (None, b\<lparr>b_sessions := mput c (session_Disconnect s (b_now b)) (b_sessions b)\<rparr>)"
      by (rule updateSession_Some [of ?fn, OF refl Some])
    moreover have "session_ok s" "traffic_ok s" "se_clientID s = c"
      using assms Some by (auto simp: broker_ok_def state_ok_def store_ok_iff)
    ultimately show ?thesis
      using Some by (simp add: touch_session_ok [OF assms Some] Disconnect_ok Resume_held)
  qed
  then show "broker_ok ?b" "session_Get (b_sessions ?b) c' =
      (if c' = c then map_option (\<lambda>s. session_Disconnect s (b_now b)) (session_Get (b_sessions b) c)
       else session_Get (b_sessions b) c')" "broker_core ?b = broker_core b" "b_published ?b = b_published b" by blast+
qed

lemma Disconnect_broker_ok:
  assumes "broker_ok b"
  shows "broker_ok (Disconnect b ref reason)"
proof (cases "mget (b_clients b) ref")
  case None
  with assms show ?thesis by (simp add: Disconnect_def)
next
  case (Some cl)
  note ok = leave_ok(1) [OF assms Some]
  show ?thesis using discard_ok(1) [OF ok] part_session(1) [OF ok] ok by (simp add: Disconnect_leave [OF Some])
qed




end
