(* ===== verification/Transport.thy ===== *)
theory Transport
  imports Connecting
begin

text \<open>
  The protocol side of \<open>transport.Connection\<close> (\<open>pkg/infrastructure/transport/connection.go\<close>):
  the handlers of inbound packets, the handshake, the classification of read errors, the
  keep-alive check and the teardown, each as a function on the broker and the reference of
  the connection. \<open>Serve\<close> runs them in a fixed order per connection and concurrently across
  connections; the relation \<open>step\<close> is one action of one goroutine, and every interleaving of
  the connections is a sequence of steps.

  The lemmas show that every reachable state satisfies the invariant of the broker and what
  the handlers answer.
\<close>

subsection \<open>Handlers\<close>

datatype handler_error = HErr string | HApp app_error | HSend send_error

definition conn_of :: "broker \<Rightarrow> conn_ref \<Rightarrow> conn option" where
  "conn_of b k = mget (b_conns b) k"

definition setConn :: "broker \<Rightarrow> conn_ref \<Rightarrow> conn \<Rightarrow> broker" where
  "setConn b k c = b\<lparr>b_conns := mput k c (b_conns b)\<rparr>"

definition closeConn :: "broker \<Rightarrow> conn_ref \<Rightarrow> disconnect_reason \<Rightarrow> broker" where
  "closeConn b k reason = (case conn_of b k of None \<Rightarrow> b | Some c \<Rightarrow> setConn b k (Close c reason))"

definition currentClient :: "broker \<Rightarrow> conn_ref \<Rightarrow> client_ref option" where
  "currentClient b k = (case conn_of b k of None \<Rightarrow> None | Some c \<Rightarrow> cn_client c)"

definition send :: "broker \<Rightarrow> conn_ref \<Rightarrow> packet \<Rightarrow> handler_error option \<times> broker" where
  "send b k p = (case sink_Send b k p of (Some e, b) \<Rightarrow> (Some (HSend e), b) | (None, b) \<Rightarrow> (None, b))"

definition handlePublish :: "broker \<Rightarrow> conn_ref \<Rightarrow> publish \<Rightarrow> handler_error option \<times> broker" where
  "handlePublish b k p =
     (case NewQoS (p_QoS p) of
        Inl err \<Rightarrow> (Some (HApp err), b)
      | Inr qos \<Rightarrow>
          if \<not> IsSupported qos then (Some (HErr ''QoS 2 publish is not supported by this broker''), b)
          else
            (case NewTopicName (p_Topic p) of
               Inl err \<Rightarrow> (Some (HApp err), b)
             | Inr topic \<Rightarrow>
                 (case NewMessage (b_wall b)
                     \<lparr>mp_Topic = topic, mp_Payload = p_Payload p, mp_QoS = qos, mp_Retain = p_Retain p,
                      mp_DUP = p_DUP p, mp_PacketID = p_PacketID p, mp_Now = b_now b,
                      mp_MaxPayloadBytes = cf_TransportMaxPayloadBytes (b_cfg b)\<rparr> of
                    Inl err \<Rightarrow> (Some (HApp err), b)
                  | Inr message \<Rightarrow>
                      let b = Publish b message in
                      if qos = QoSAtLeastOnce then send b k (PAck (NewPuback (p_PacketID p))) else (None, b))))"

definition handleSubscribe :: "broker \<Rightarrow> conn_ref \<Rightarrow> client \<Rightarrow> subscribe \<Rightarrow> handler_error option \<times> broker" where
  "handleSubscribe b k client p =
     (case Subscribe b client p k of
        (Inl err, b) \<Rightarrow> (Some (HApp err), b)
      | (Inr returnCodes, b) \<Rightarrow>
          send b k (PSuback \<lparr>sa_PacketID = s_PacketID p, sa_ReturnCodes = returnCodes\<rparr>))"

definition handleUnsubscribe :: "broker \<Rightarrow> conn_ref \<Rightarrow> client \<Rightarrow> unsubscribe \<Rightarrow> handler_error option \<times> broker" where
  "handleUnsubscribe b k client p =
     (case Unsubscribe b client p of
        (Some err, b) \<Rightarrow> (Some (HApp err), b)
      | (None, b) \<Rightarrow> send b k (PAck (NewUnsuback (u_PacketID p))))"

definition handleAck :: "broker \<Rightarrow> client \<Rightarrow> ack \<Rightarrow> handler_error option \<times> broker" where
  "handleAck b client p =
     (if ack_packetType p = PUBACK then (None, snd (Acknowledge b (cl_id client) (ack_PacketID p)))
      else if ack_packetType p = PUBREC \<or> ack_packetType p = PUBREL \<or> ack_packetType p = PUBCOMP
        then (Some (HErr ''QoS 2 is not supported by this broker''), b)
      else (Some (HErr (''unexpected acknowledgement type: '' @ ptype_String (ack_packetType p))), b))"

definition handleSimple :: "broker \<Rightarrow> conn_ref \<Rightarrow> simple \<Rightarrow> handler_error option \<times> broker" where
  "handleSimple b k p =
     (if sm_packetType p = PINGREQ then send b k (PSimple NewPingresp)
      else if sm_packetType p = DISCONNECT then (None, closeConn b k ReasonClientDisconnect)
      else (Some (HErr (''unexpected packet type: '' @ ptype_String (sm_packetType p))), b))"

definition dispatch :: "broker \<Rightarrow> conn_ref \<Rightarrow> packet \<Rightarrow> handler_error option \<times> broker" where
  "dispatch b k p =
     (case Option.bind (currentClient b k) (mget (b_clients b)) of
        None \<Rightarrow> (Some (HErr ''packet received before CONNECT''), b)
      | Some client \<Rightarrow>
          (case p of
             PConnect req \<Rightarrow> (Some (HErr ''a second CONNECT is a protocol violation''), b)
           | PPublish pkt \<Rightarrow> handlePublish b k pkt
           | PSubscribe pkt \<Rightarrow> handleSubscribe b k client pkt
           | PUnsubscribe pkt \<Rightarrow> handleUnsubscribe b k client pkt
           | PAck pkt \<Rightarrow> handleAck b client pkt
           | PSimple pkt \<Rightarrow> handleSimple b k pkt
           | _ \<Rightarrow> (Some (HErr (''unexpected packet type from client: '' @ ptype_String (packet_Type p))), b)))"

subsection \<open>The handshake\<close>

text \<open>The boolean says whether \<open>handleConnect\<close> and \<open>awaitConnect\<close> returned without an error.\<close>

definition handleConnect :: "authenticator \<Rightarrow> string \<Rightarrow> broker \<Rightarrow> conn_ref \<Rightarrow> connect \<Rightarrow> bool \<times> broker" where
  "handleConnect auth newID b k req =
     (case conn_of b k of
        None \<Rightarrow> (False, b)
      | Some c0 \<Rightarrow>
          let (result, b) = Connect auth newID b req (cn_remoteAddr c0) k;
              connack = \<lparr>ca_SessionPresent = cr_SessionPresent result, ca_ReturnCode = cr_ReturnCode result\<rparr>
          in (case conn_of b k of
                None \<Rightarrow> (False, b)
              | Some c \<Rightarrow>
                  let (ok, c) = writePacketNow c (PConnack connack) in
                  if \<not> ok then (False, setConn b k (Close c ReasonNetworkError))
                  else if \<not> Accepted result then (False, setConn b k (Close c ReasonProtocolViolation))
                  else
                    let client = Option.bind (cr_Client result) (mget (b_clients b));
                        c = c\<lparr>cn_client := cr_Client result,
                              cn_clientID := (case client of None \<Rightarrow> '''' | Some cl \<Rightarrow> cl_id cl)\<rparr>;
                        b = setConn b k c;
                        b = (case cr_Displaced result of
                               None \<Rightarrow> b | Some d \<Rightarrow> closeConn b d ReasonSessionTakenOver);
                        b = (if cr_SessionPresent result then snd (ResumeSession b k) else b)
                    in (True, b)))"

definition awaitConnect ::
  "authenticator \<Rightarrow> string \<Rightarrow> broker \<Rightarrow> conn_ref \<Rightarrow> codec_error + packet \<Rightarrow> bool \<times> broker" where
  "awaitConnect auth newID b k r =
     (case r of
        Inl err \<Rightarrow> (False, closeConn b k ReasonNetworkError)
      | Inr (PConnect req) \<Rightarrow> handleConnect auth newID b k req
      | Inr p \<Rightarrow> (False, closeConn b k ReasonProtocolViolation))"

subsection \<open>The read loop, the keep-alive check and the teardown\<close>

definition recordActivity :: "broker \<Rightarrow> conn_ref \<Rightarrow> broker" where
  "recordActivity b k =
     (case currentClient b k of
        None \<Rightarrow> b
      | Some ref \<Rightarrow>
          (case mget (b_clients b) ref of
             None \<Rightarrow> b
           | Some client \<Rightarrow> b\<lparr>b_clients := mput ref (RecordActivity client (b_now b)) (b_clients b)\<rparr>))"

definition onPacket :: "broker \<Rightarrow> conn_ref \<Rightarrow> packet \<Rightarrow> bool \<times> broker" where
  "onPacket b k p =
     (let b = recordActivity b k in
      case dispatch b k p of
        (Some err, b) \<Rightarrow> (False, closeConn b k ReasonProtocolViolation)
      | (None, b) \<Rightarrow> (True, b))"

text \<open>\<open>timeout\<close> is \<open>netErr.Timeout()\<close> of an error that is none of the codec's.\<close>

definition readErrorReason :: "codec_error \<Rightarrow> bool \<Rightarrow> disconnect_reason" where
  "readErrorReason err timeout =
     (if codec_error_Is err (ReadErr ''EOF'') then ReasonNetworkError
      else if codec_error_Is err ErrMalformedPacket \<or> codec_error_Is err ErrInvalidQoS
        \<or> codec_error_Is err ErrInvalidUTF8 \<or> codec_error_Is err ErrInvalidPacketID
        \<or> codec_error_Is err ErrPacketTooLarge \<or> codec_error_Is err ErrRemainingLengthOverflow
        then ReasonProtocolViolation
      else if timeout then ReasonKeepAliveTimeout
      else ReasonNetworkError)"

definition handleReadError :: "broker \<Rightarrow> conn_ref \<Rightarrow> codec_error \<Rightarrow> bool \<Rightarrow> broker" where
  "handleReadError b k err timeout = closeConn b k (readErrorReason err timeout)"

definition keepAliveTick :: "broker \<Rightarrow> conn_ref \<Rightarrow> broker" where
  "keepAliveTick b k =
     (case Option.bind (currentClient b k) (mget (b_clients b)) of
        None \<Rightarrow> b
      | Some client \<Rightarrow>
          if IsDisabled (cl_keepAlive client) then b
          else if IsKeepAliveExpired client (b_now b) then closeConn b k ReasonKeepAliveTimeout else b)"

text \<open>The deadline of a blocking read, \<open>None\<close> for none.\<close>

definition applyReadDeadline :: "broker \<Rightarrow> conn_ref \<Rightarrow> time option \<Rightarrow> time option" where
  "applyReadDeadline b k deadline =
     (case Option.bind (currentClient b k) (mget (b_clients b)) of
        None \<Rightarrow> deadline
      | Some client \<Rightarrow>
          let timeout = Timeout (cl_keepAlive client) in if timeout \<le> 0 then None else Some (b_now b + timeout))"

definition teardown :: "broker \<Rightarrow> conn_ref \<Rightarrow> broker" where
  "teardown b k =
     (case conn_of b k of
        None \<Rightarrow> b
      | Some c \<Rightarrow>
          (case cn_client c of
             None \<Rightarrow> b
           | Some ref \<Rightarrow>
               (case mget (b_clients b) ref of
                  None \<Rightarrow> b
                | Some client \<Rightarrow>
                    let b = UnregisterSink b (cl_id client) k in Disconnect b ref (conn_reason c))))"

subsection \<open>Interleavings\<close>

text \<open>
  A packet may still be handled after another goroutine has closed the connection, since
  \<open>readLoop\<close> looks at \<open>done\<close> before it reads and not after; \<open>packet\<close> has no such guard.
\<close>

datatype phase = Awaiting | Reading | Stopped | TornDown

record world =
  w_broker :: broker
  w_phase :: "(conn_ref, phase) gomap"

definition writeConn :: "broker \<Rightarrow> conn_ref \<Rightarrow> broker" where
  "writeConn b k = (case conn_of b k of None \<Rightarrow> b | Some c \<Rightarrow> setConn b k (snd (writeStep c)))"

definition breakSocket :: "broker \<Rightarrow> conn_ref \<Rightarrow> broker" where
  "breakSocket b k = (case conn_of b k of None \<Rightarrow> b | Some c \<Rightarrow> setConn b k (c\<lparr>cn_socketOpen := False\<rparr>))"

definition acceptConn :: "world \<Rightarrow> nat \<Rightarrow> string \<Rightarrow> world" where
  "acceptConn w qsize addr =
     (let k = fresh_ref (b_conns (w_broker w)) in
      w\<lparr>w_broker := setConn (w_broker w) k (NewConnection qsize addr), w_phase := mput k Awaiting (w_phase w)\<rparr>)"

definition runPhase :: "world \<Rightarrow> conn_ref \<Rightarrow> bool \<times> broker \<Rightarrow> world" where
  "runPhase w k r = w\<lparr>w_broker := snd r, w_phase := mput k (if fst r then Reading else Stopped) (w_phase w)\<rparr>"

text \<open>What the goroutines of one connection do, and the clock.\<close>

inductive conn_step :: "authenticator \<Rightarrow> world \<Rightarrow> world \<Rightarrow> bool" for auth where
  first: "mget (w_phase w) k = Some Awaiting \<Longrightarrow>
    conn_step auth w (runPhase w k (awaitConnect auth newID (w_broker w) k r))"
| packet: "mget (w_phase w) k = Some Reading \<Longrightarrow>
    conn_step auth w (runPhase w k (onPacket (w_broker w) k p))"
| read_error: "mget (w_phase w) k = Some Reading \<Longrightarrow>
    conn_step auth w (runPhase w k (False, handleReadError (w_broker w) k err timeout))"
| read_done: "mget (w_phase w) k = Some Reading \<Longrightarrow> conn_of (w_broker w) k = Some c \<Longrightarrow> cn_done c \<Longrightarrow>
    conn_step auth w (runPhase w k (False, w_broker w))"
| keep_alive: "mget (w_phase w) k = Some Reading \<Longrightarrow>
    conn_step auth w (w\<lparr>w_broker := keepAliveTick (w_broker w) k\<rparr>)"
| write_packet: "conn_step auth w (w\<lparr>w_broker := writeConn (w_broker w) k\<rparr>)"
| break_socket: "conn_step auth w (w\<lparr>w_broker := breakSocket (w_broker w) k\<rparr>)"
| tear_down: "mget (w_phase w) k = Some Stopped \<Longrightarrow> conn_of (w_broker w) k = Some c \<Longrightarrow>
    conn_step auth w (w\<lparr>w_broker := teardown (closeConn (w_broker w) k (conn_reason c)) k,
                        w_phase := mput k TornDown (w_phase w)\<rparr>)"
| tick: "d \<ge> 0 \<Longrightarrow> conn_step auth w (w\<lparr>w_broker := (w_broker w)\<lparr>b_now := b_now (w_broker w) + d\<rparr>\<rparr>)"

text \<open>With the listener and the retransmission loop around them.\<close>

inductive step :: "authenticator \<Rightarrow> world \<Rightarrow> world \<Rightarrow> bool" for auth where
  accept: "step auth w (acceptConn w qsize addr)"
| connection: "conn_step auth w w' \<Longrightarrow> step auth w w'"
| close_all: "step auth w (w\<lparr>w_broker := closeConn (w_broker w) k ReasonServerShutdown\<rparr>)"
| resend: "step auth w (w\<lparr>w_broker := fst (RetransmitExpired (w_broker w) timeout)\<rparr>)"

inductive reachable :: "authenticator \<Rightarrow> config \<Rightarrow> world \<Rightarrow> bool" for auth cfg where
  init: "reachable auth cfg \<lparr>w_broker = NewBroker cfg now wall, w_phase = []\<rparr>"
| move: "reachable auth cfg w \<Longrightarrow> step auth w w' \<Longrightarrow> reachable auth cfg w'"

inductive_cases step_cases: "step auth w w'"

subsection \<open>Quiet steps\<close>

text \<open>
  Everything but an accepted CONNECT is quiet: it keeps the invariant, registers no sink,
  opens no connection, gives no connection a client and creates no session.
\<close>

definition quiet :: "broker \<Rightarrow> broker \<Rightarrow> bool" where
  "quiet b b' =
     (broker_ok b \<longrightarrow>
        broker_ok b' \<and> b_cfg b' = b_cfg b
        \<and> (\<forall>c k. sinkFor b' c = Some k \<longrightarrow> sinkFor b c = Some k)
        \<and> (\<forall>k. rel_option (\<lambda>c c'. cn_client c' = cn_client c) (mget (b_conns b) k) (mget (b_conns b') k))
        \<and> (\<forall>c s'. session_Get (b_sessions b') c = Some s' \<longrightarrow>
             (\<exists>s. session_Get (b_sessions b) c = Some s \<and> se_maxInflight s' = se_maxInflight s)))"

lemma quiet_refl [simp]: "quiet b b"
  by (simp add: quiet_def option.rel_refl)

lemma quiet_trans [trans]:
  assumes "quiet b b'" and "quiet b' b''"
  shows "quiet b b''"
proof -
  have conns: "rel_option (\<lambda>c c'. cn_client c' = cn_client c) x y \<Longrightarrow> rel_option (\<lambda>c c'. cn_client c' = cn_client c) y z
      \<Longrightarrow> rel_option (\<lambda>c c'. cn_client c' = cn_client c) x z" for x y z :: "conn option"
    by (rule rel_option_trans [where R = "\<lambda>c c'. cn_client c' = cn_client c"]) auto
  show ?thesis
    unfolding quiet_def
  proof (intro impI)
    assume "broker_ok b"
    with assms(1) have 1: "broker_ok b'" "b_cfg b' = b_cfg b" "\<forall>c k. sinkFor b' c = Some k \<longrightarrow> sinkFor b c = Some k"
      "\<forall>k. rel_option (\<lambda>c c'. cn_client c' = cn_client c) (mget (b_conns b) k) (mget (b_conns b') k)"
      "\<forall>c s'. session_Get (b_sessions b') c = Some s' \<longrightarrow>
             (\<exists>s. session_Get (b_sessions b) c = Some s \<and> se_maxInflight s' = se_maxInflight s)"
      unfolding quiet_def by blast+
    with assms(2) have 2: "broker_ok b''" "b_cfg b'' = b_cfg b'" "\<forall>c k. sinkFor b'' c = Some k \<longrightarrow> sinkFor b' c = Some k"
      "\<forall>k. rel_option (\<lambda>c c'. cn_client c' = cn_client c) (mget (b_conns b') k) (mget (b_conns b'') k)"
      "\<forall>c s'. session_Get (b_sessions b'') c = Some s' \<longrightarrow>
             (\<exists>s. session_Get (b_sessions b') c = Some s \<and> se_maxInflight s' = se_maxInflight s)"
      unfolding quiet_def by blast+
    show "broker_ok b'' \<and> b_cfg b'' = b_cfg b
        \<and> (\<forall>c k. sinkFor b'' c = Some k \<longrightarrow> sinkFor b c = Some k)
        \<and> (\<forall>k. rel_option (\<lambda>c c'. cn_client c' = cn_client c) (mget (b_conns b) k) (mget (b_conns b'') k))
        \<and> (\<forall>c s'. session_Get (b_sessions b'') c = Some s' \<longrightarrow>
             (\<exists>s. session_Get (b_sessions b) c = Some s \<and> se_maxInflight s' = se_maxInflight s))"
    proof (intro conjI)
      show "broker_ok b''" "b_cfg b'' = b_cfg b" "\<forall>c k. sinkFor b'' c = Some k \<longrightarrow> sinkFor b c = Some k"
        using 1(2,3) 2(1,2,3) by simp_all
      show "\<forall>k. rel_option (\<lambda>c c'. cn_client c' = cn_client c) (mget (b_conns b) k) (mget (b_conns b'') k)"
        using 1(4) 2(4) conns by blast
      show "\<forall>c s'. session_Get (b_sessions b'') c = Some s' \<longrightarrow>
             (\<exists>s. session_Get (b_sessions b) c = Some s \<and> se_maxInflight s' = se_maxInflight s)"
        using 1(5) 2(5) by (metis (no_types))
    qed
  qed
qed

lemma conn_client_grows: "conn_grows c c' \<Longrightarrow> cn_client c' = cn_client c"
  by (auto simp: conn_grows_def)

lemma delivers_quiet:
  assumes "delivers b b'"
  shows "quiet b b'"
proof -
  note frame = delivers_frame [OF assms]
  have "rel_option (\<lambda>c c'. cn_client c' = cn_client c) (mget (b_conns b) k) (mget (b_conns b') k)" for k
  proof -
    have "rel_option conn_grows (mget (b_conns b) k) (mget (b_conns b') k)" using assms by (simp add: delivers_def sends_def)
    then show ?thesis by (cases rule: option.rel_cases) (simp_all add: conn_client_grows)
  qed
  moreover have "\<exists>s. session_Get (b_sessions b) c = Some s \<and> se_maxInflight s' = se_maxInflight s"
    if s': "session_Get (b_sessions b') c = Some s'" for c s'
  proof -
    obtain s where "session_Get (b_sessions b) c = Some s" "session_step s s'" using delivers_session [OF assms s'] .
    then show ?thesis using session_core_frame(5) [of s' s] by (auto simp: session_step_def)
  qed
  ultimately show ?thesis
    unfolding quiet_def using delivers_ok [OF assms] frame by (simp add: sinkFor_def)
qed

lemma applyRetention_quiet: "quiet b (applyRetention b m)"
  by (simp add: quiet_def applyRetention_ok sinkFor_def option.rel_refl)

lemma Publish_quiet: "quiet b (Publish b m)"
  by (rule quiet_trans [OF applyRetention_quiet delivers_quiet [OF Publish_delivers]])

lemma in_step_quiet:
  assumes "session_Get (b_sessions b) c = Some s" and "broker_ok b \<Longrightarrow> in_step b c s' b'" and "se_maxInflight s' = se_maxInflight s"
  shows "quiet b (b'\<lparr>b_sessions := mput c s' (b_sessions b)\<rparr>)"
  unfolding quiet_def
proof
  assume ok: "broker_ok b"
  note st = assms(2) [OF ok]
  have upd: "b'\<lparr>b_index := b_index b\<rparr> = b" using st by (simp add: in_step_def)
  have "b_sinks b' = b_sinks b" "b_cfg b' = b_cfg b" "b_conns b' = b_conns b"
    using arg_cong [OF upd, of b_sinks] arg_cong [OF upd, of b_cfg] arg_cong [OF upd, of b_conns] by simp_all
  then show "broker_ok (b'\<lparr>b_sessions := mput c s' (b_sessions b)\<rparr>) \<and> b_cfg (b'\<lparr>b_sessions := mput c s' (b_sessions b)\<rparr>) = b_cfg b
        \<and> (\<forall>d k. sinkFor (b'\<lparr>b_sessions := mput c s' (b_sessions b)\<rparr>) d = Some k \<longrightarrow> sinkFor b d = Some k)
        \<and> (\<forall>k. rel_option (\<lambda>c c'. cn_client c' = cn_client c) (mget (b_conns b) k)
             (mget (b_conns (b'\<lparr>b_sessions := mput c s' (b_sessions b)\<rparr>)) k))
        \<and> (\<forall>d t. session_Get (b_sessions (b'\<lparr>b_sessions := mput c s' (b_sessions b)\<rparr>)) d = Some t \<longrightarrow>
             (\<exists>s. session_Get (b_sessions b) d = Some s \<and> se_maxInflight t = se_maxInflight s))"
    using in_step_finish(1) [OF ok st] assms(1,3) by (simp add: sinkFor_def option.rel_refl)
qed

lemma subscribe_fold_max:
  "se_maxInflight (fst (foldl (subscribeOne c now) st rs)) = se_maxInflight (fst st)"
proof (induction rs arbitrary: st)
  case (Cons r rs)
  have "se_maxInflight (fst (subscribeOne c now st r)) = se_maxInflight (fst st)"
    by (auto simp: subscribeOne_def session_Subscribe_def Let_def split: prod.split sum.split if_splits)
  with Cons [of "subscribeOne c now st r"] show ?case by simp
qed simp

lemma Subscribe_quiet: "quiet b (snd (Subscribe b client req k))"
proof (cases "session_Get (b_sessions b) (cl_id client)")
  case None
  then show ?thesis by (simp add: Subscribe_def Let_def Update_def session_Get_def)
next
  case (Some s)
  obtain s' b' codes reg where f: "foldl (subscribeOne (cl_id client) (b_now b)) (s, b, [], []) (s_Subscriptions req)
      = (s', b', codes, reg)" by (metis prod_cases4)
  have "quiet b (b'\<lparr>b_sessions := mput (cl_id client) s' (b_sessions b)\<rparr>)"
  proof (rule in_step_quiet [OF Some])
    show "broker_ok b \<Longrightarrow> in_step b (cl_id client) s' b'"
      by (rule subscribe_fold_in_step [OF in_step_start [OF _ Some] f])
    show "se_maxInflight s' = se_maxInflight s"
      using subscribe_fold_max [of "cl_id client" "b_now b" "(s, b, [], [])" "s_Subscriptions req"] f by simp
  qed
  then have "quiet b (foldl (\<lambda>b (filt, grantedQoS). DeliverRetained b k filt grantedQoS)
      (b'\<lparr>b_sessions := mput (cl_id client) s' (b_sessions b)\<rparr>) reg)"
    by (rule quiet_trans) (rule delivers_quiet [OF deliver_accepted])
  with f Some show ?thesis by (simp add: Subscribe_def Let_def Update_def session_Get_def)
qed

lemma unsubscribe_fold_max:
  "se_maxInflight (fst (foldl (unsubscribeOne c) st rs)) = se_maxInflight (fst st)"
proof (induction rs arbitrary: st)
  case (Cons r rs)
  have "se_maxInflight (fst (unsubscribeOne c st r)) = se_maxInflight (fst st)"
    by (auto simp: unsubscribeOne_def session_Unsubscribe_def split: prod.split sum.split)
  with Cons [of "unsubscribeOne c st r"] show ?case by simp
qed simp

lemma Unsubscribe_quiet: "quiet b (snd (Unsubscribe b client req))"
proof (cases "session_Get (b_sessions b) (cl_id client)")
  case None
  then show ?thesis by (simp add: Unsubscribe_def Let_def updateSession_None)
next
  case (Some s)
  obtain s' b' where f: "foldl (unsubscribeOne (cl_id client)) (s, b) (u_Filters req) = (s', b')" by force
  have "quiet b (b'\<lparr>b_sessions := mput (cl_id client) s' (b_sessions b)\<rparr>)"
  proof (rule in_step_quiet [OF Some])
    show "broker_ok b \<Longrightarrow> in_step b (cl_id client) s' b'"
      using unsubscribe_fold [OF in_step_start [OF _ Some] f] by blast
    show "se_maxInflight s' = se_maxInflight s"
      using unsubscribe_fold_max [of "cl_id client" "(s, b)" "u_Filters req"] f by simp
  qed
  with f Some show ?thesis by (simp add: Unsubscribe_def Let_def updateSession_def Update_def session_Get_def)
qed

subsection \<open>The handlers are quiet\<close>

lemma conn_update_quiet:
  assumes "\<And>cn. mget (b_conns b) k = Some cn \<Longrightarrow> cn_client c = cn_client cn \<and> cn_clientID c = cn_clientID cn
      \<and> (length (cn_outbound cn) \<le> cn_queueSize cn \<longrightarrow> length (cn_outbound c) \<le> cn_queueSize c)"
    and "mget (b_conns b) k \<noteq> None"
  shows "quiet b (setConn b k c)"
proof -
  obtain cn where cn: "mget (b_conns b) k = Some cn" using assms(2) by blast
  have "refs_ok (setConn b k c)" if "refs_ok b"
    using that assms(1) [OF cn] cn by (auto simp: refs_ok_def setConn_def split: if_splits)
  then show ?thesis
    using assms(1) [OF cn] cn
    by (auto simp: quiet_def broker_ok_def state_ok_def setConn_def subscribed_def sinkFor_def option.rel_refl)
qed

lemma Close_fields [simp]:
  "cn_client (Close c r) = cn_client c" "cn_clientID (Close c r) = cn_clientID c" "cn_outbound (Close c r) = cn_outbound c"
  "cn_queueSize (Close c r) = cn_queueSize c"
  by (simp_all add: Close_def)

lemma closeConn_quiet: "quiet b (closeConn b k r)"
  by (auto simp: closeConn_def conn_of_def split: option.split intro!: conn_update_quiet)

lemma sink_Send_quiet: "quiet b (snd (sink_Send b k p))"
  by (rule delivers_quiet, rule sends_delivers) (simp_all add: sink_Send_sends)

lemma send_quiet: "quiet b (snd (send b k p))"
  using sink_Send_quiet [of b k p] by (auto simp: send_def split: prod.split option.split)

lemma clients_quiet:
  assumes "map_ok (b_clients b) \<Longrightarrow> map_ok cls"
    and "\<And>r x. mget (b_clients b) r = Some x \<Longrightarrow> \<exists>y. mget cls r = Some y \<and> cl_id y = cl_id x"
  shows "quiet b (b\<lparr>b_clients := cls\<rparr>)"
proof -
  have "broker_ok (b\<lparr>b_clients := cls\<rparr>)" if "broker_ok b"
    by (rule clients_ok [OF that]) (use that assms in \<open>auto simp: broker_ok_def refs_ok_def\<close>)
  then show ?thesis by (simp add: quiet_def sinkFor_def option.rel_refl)
qed

lemma recordActivity_quiet: "quiet b (recordActivity b k)"
  by (auto simp: recordActivity_def split: option.split intro!: clients_quiet) (simp add: RecordActivity_def)

lemma handlePublish_quiet: "quiet b (snd (handlePublish b k p))"
  using quiet_trans [OF Publish_quiet send_quiet]
  by (auto simp: handlePublish_def Let_def Publish_quiet split: sum.split)

lemma handleSubscribe_quiet: "quiet b (snd (handleSubscribe b k cl p))"
  using Subscribe_quiet [of b cl p k]
  by (auto simp: handleSubscribe_def split: prod.split sum.split intro: quiet_trans send_quiet)

lemma handleUnsubscribe_quiet: "quiet b (snd (handleUnsubscribe b k cl p))"
  using Unsubscribe_quiet [of b cl p]
  by (auto simp: handleUnsubscribe_def split: prod.split option.split intro: quiet_trans send_quiet)

lemma handleAck_quiet: "quiet b (snd (handleAck b cl p))"
  by (simp add: handleAck_def delivers_quiet [OF Acknowledge_delivers])

lemma handleSimple_quiet: "quiet b (snd (handleSimple b k p))"
  by (simp add: handleSimple_def send_quiet closeConn_quiet)

lemmas handlers_quiet = handlePublish_quiet handleSubscribe_quiet handleUnsubscribe_quiet handleAck_quiet handleSimple_quiet

lemma dispatch_quiet: "quiet b (snd (dispatch b k p))"
  by (auto simp: dispatch_def handlers_quiet split: option.split packet.split)

lemma onPacket_quiet: "quiet b (snd (onPacket b k p))"
  using quiet_trans [OF recordActivity_quiet dispatch_quiet, of b k k p]
  by (auto simp: onPacket_def Let_def split: prod.split option.split intro: quiet_trans closeConn_quiet)

lemma handleReadError_quiet: "quiet b (handleReadError b k e t)"
  by (simp add: handleReadError_def closeConn_quiet)

lemma keepAliveTick_quiet: "quiet b (keepAliveTick b k)"
  by (simp add: keepAliveTick_def closeConn_quiet split: option.split)

lemma drainLoop_fields: "cn_client (drainLoop ps c) = cn_client c \<and> cn_clientID (drainLoop ps c) = cn_clientID c
    \<and> cn_queueSize (drainLoop ps c) = cn_queueSize c \<and> length (cn_outbound (drainLoop ps c)) \<le> length ps"
proof (induction ps arbitrary: c)
  case (Cons p ps)
  show ?case
    using Cons.IH [of "c\<lparr>cn_written := cn_written c @ [p]\<rparr>"]
    by (auto simp: writePacket_def Let_def intro: le_SucI split: sum.split)
qed simp

lemma writeStep_fields: "cn_client (snd (writeStep c)) = cn_client c \<and> cn_clientID (snd (writeStep c)) = cn_clientID c
    \<and> cn_queueSize (snd (writeStep c)) = cn_queueSize c \<and> length (cn_outbound (snd (writeStep c))) \<le> length (cn_outbound c)"
  using drainLoop_fields [of "cn_outbound c" c]
  by (auto simp: writeStep_def drainOutbound_def writePacket_def split: list.split sum.splits if_splits prod.splits)

lemma writeConn_quiet: "quiet b (writeConn b k)"
proof (cases "conn_of b k")
  case (Some c)
  with writeStep_fields [of c] show ?thesis
    by (simp add: writeConn_def) (rule conn_update_quiet; auto simp: conn_of_def)
qed (simp add: writeConn_def)

lemma breakSocket_quiet: "quiet b (breakSocket b k)"
  by (auto simp: breakSocket_def conn_of_def split: option.split intro!: conn_update_quiet)

lemma Disconnect_quiet: "quiet b (Disconnect b ref reason)"
proof (cases "mget (b_clients b) ref")
  case None
  then show ?thesis by (simp add: Disconnect_def)
next
  case (Some cl)
  let ?l = "leave b ref cl reason"
  let ?b = "b\<lparr>b_clients := mput ref (snd (client_Disconnect cl reason)) (b_clients b)\<rparr>"
  have 1: "quiet b ?b" by (rule clients_quiet) (use Some in auto)
  have "quiet ?b (?b\<lparr>b_registry := snd (Unregister (b_registry b) (cl_id cl) ref)\<rparr>)"
    using unregister_ok [of ?b "cl_id cl" ref] by (simp add: quiet_def sinkFor_def option.rel_refl)
  from quiet_trans [OF 1 this] have 2: "quiet b ?l"
    by (auto simp: leave_def publishWill_def Let_def split: option.split intro: quiet_trans [OF _ Publish_quiet])
  have 3: "quiet b' (discard b' c)" for b' c
    using discard_ok [of b' c] by (simp add: quiet_def) (simp add: discard_def sinkFor_def option.rel_refl)
  have 4: "quiet b' (snd (updateSession b' c (\<lambda>session b. (None, session_Disconnect session (b_now b), b))))" for b' c
  proof -
    let ?u = "snd (updateSession b' c (\<lambda>session b. (None, session_Disconnect session (b_now b), b)))"
    have "b_conns ?u = b_conns b'" by (simp add: updateSession_def Update_def split: option.split)
    moreover have "se_maxInflight (session_Disconnect s t) = se_maxInflight s" for s t by (simp add: session_Disconnect_def)
    ultimately show ?thesis
      using part_session [of b' c] broker_core_frame [OF part_session(3) [of b' c]]
      by (auto simp: quiet_def sinkFor_def option.rel_refl split: if_splits)
  qed
  show ?thesis using 2 quiet_trans [OF 2 3] quiet_trans [OF 2 4] by (simp add: Disconnect_leave [OF Some])
qed

lemma UnregisterSink_quiet: "quiet b (UnregisterSink b c k)"
proof -
  have "broker_ok (UnregisterSink b c k)" if "broker_ok b"
    using that by (auto simp: UnregisterSink_def broker_ok_def state_ok_def refs_ok_def subscribed_def split: if_splits)
  then show ?thesis by (auto simp: quiet_def UnregisterSink_def sinkFor_def option.rel_refl split: if_splits)
qed

lemma teardown_quiet: "quiet b (teardown b k)"
  using quiet_trans [OF UnregisterSink_quiet Disconnect_quiet]
  by (auto simp: teardown_def Let_def split: option.split)

subsection \<open>The handshake and the invariant of all connections\<close>

text \<open>\<open>A\<close> is the set of connections that are still waiting for their CONNECT.\<close>

definition links_ok :: "broker \<Rightarrow> conn_ref set \<Rightarrow> bool" where
  "links_ok b A =
     ((\<forall>c k. sinkFor b c = Some k \<longrightarrow> k \<notin> A)
      \<and> (\<forall>c c' k. sinkFor b c = Some k \<and> sinkFor b c' = Some k \<longrightarrow> c = c')
      \<and> (\<forall>k cn. k \<in> A \<and> mget (b_conns b) k = Some cn \<longrightarrow> cn_client cn = None))"

definition limits_ok :: "config \<Rightarrow> broker \<Rightarrow> bool" where
  "limits_ok cfg b = (b_cfg b = publishing_withDefaults cfg
     \<and> (\<forall>c s. session_Get (b_sessions b) c = Some s \<longrightarrow>
          se_maxInflight s = li_MaxInflight (withDefaults (cf_SessionLimits cfg))))"

lemma publishing_withDefaults_limits [simp]:
  "cf_SessionLimits (publishing_withDefaults cfg) = cf_SessionLimits cfg"
  by (simp add: publishing_withDefaults_def)

lemma quiet_links:
  assumes "quiet b b'" and "broker_ok b"
  shows "broker_ok b'" and "links_ok b A \<Longrightarrow> links_ok b' A" and "limits_ok cfg b \<Longrightarrow> limits_ok cfg b'"
    and "(mget (b_conns b') k = None) = (mget (b_conns b) k = None)"
    and "mget (b_conns b') k = Some cn' \<Longrightarrow> \<exists>cn. mget (b_conns b) k = Some cn \<and> cn_client cn' = cn_client cn"
proof -
  from assms have q: "broker_ok b'" "b_cfg b' = b_cfg b" "\<And>c k. sinkFor b' c = Some k \<Longrightarrow> sinkFor b c = Some k"
    "\<And>k. rel_option (\<lambda>c c'. cn_client c' = cn_client c) (mget (b_conns b) k) (mget (b_conns b') k)"
    "\<And>c s'. session_Get (b_sessions b') c = Some s' \<Longrightarrow>
       \<exists>s. session_Get (b_sessions b) c = Some s \<and> se_maxInflight s' = se_maxInflight s"
    unfolding quiet_def by blast+
  show "broker_ok b'" by (rule q)
  show none: "(mget (b_conns b') k = None) = (mget (b_conns b) k = None)" for k
    using q(4) [of k] by (cases rule: option.rel_cases) auto
  show conn: "mget (b_conns b') k = Some cn' \<Longrightarrow> \<exists>cn. mget (b_conns b) k = Some cn \<and> cn_client cn' = cn_client cn" for k cn'
    using q(4) [of k] by (cases rule: option.rel_cases) auto
  show "links_ok b A \<Longrightarrow> links_ok b' A"
    using q(3) conn unfolding links_ok_def by (metis (no_types, lifting))
  show "limits_ok cfg b \<Longrightarrow> limits_ok cfg b'"
    using q(2,5) unfolding limits_ok_def by (metis (no_types, lifting))
qed

lemma resolveSession_limits:
  assumes "broker_ok b" and "limits_ok cfg b" and "resolveSession b c clean now = (present, b1)"
  shows "limits_ok cfg b1"
  using assms(1)
proof (cases rule: resolveSession_cases [where c = c and clean = clean and now = now])
  case (resumed t)
  with assms(2,3) show ?thesis by (auto simp: limits_ok_def Resume_def split: if_splits)
next
  case (fresh b2)
  have "store_ok (b_sessions b2)" "b_cfg b2 = b_cfg b"
    "\<And>d. d \<noteq> c \<Longrightarrow> session_Get (b_sessions b2) d = session_Get (b_sessions b) d"
    using fresh(2) discard_ok [OF assms(1)] assms(1) by (auto simp: broker_ok_def state_ok_def discard_def)
  with fresh(3) assms(2,3) show ?thesis
    by (auto simp: limits_ok_def sessions.get_put NewSession_empty split: if_splits)
qed

lemma Connect_links:
  assumes "broker_ok b" and "links_ok b A" and "limits_ok cfg b" and "k \<in> A" and "mget (b_conns b) k \<noteq> None"
    and "Connect auth newID b req addr k = (r, b')"
  shows "broker_ok b'" and "links_ok b' (A - {k})" and "limits_ok cfg b'" and "b_conns b' = b_conns b"
    and "Accepted r \<Longrightarrow> \<exists>ref cl. cr_Client r = Some ref \<and> mget (b_clients b') ref = Some cl"
    and "\<not> Accepted r \<Longrightarrow> b' = b"
proof -
  show ok': "broker_ok b'" using Connect_ok [OF assms(1,5)] assms(6) by (metis snd_conv)
  have all: "links_ok b' (A - {k}) \<and> limits_ok cfg b' \<and> b_conns b' = b_conns b
      \<and> (Accepted r \<longrightarrow> (\<exists>ref cl. cr_Client r = Some ref \<and> mget (b_clients b') ref = Some cl)) \<and> (\<not> Accepted r \<longrightarrow> b' = b)"
  proof (cases rule: Connect_cases [where auth = auth and newID = newID and b = b and req = req and addr = addr and k = k])
    case (refused code)
    with assms(6) have eq: "b' = b" "\<not> Accepted r" by (auto simp: refused_def Accepted_def)
    moreover have "links_ok b (A - {k})" using assms(2) by (auto simp: links_ok_def)
    ultimately show ?thesis using assms(3) by simp
  next
    case (accepted c cl ref present b1)
    let ?b = "b\<lparr>b_clients := mput ref cl (b_clients b)\<rparr>"
    have "mget (b_clients b) ref = None" using accepted(6) by (simp add: fresh_ref_new)
    then have ok: "broker_ok ?b" by (rule add_client_ok [OF assms(1)])
    note frame = resolveSession_frame [OF ok, of c "c_CleanSession req" "b_now b", unfolded accepted(7) snd_conv]
    have b': "b' = b1\<lparr>b_registry := mput c ref (b_registry b1), b_sinks := mput c k (b_sinks b1)\<rparr>"
      and r: "cr_Client r = Some ref" "Accepted r"
      using accepted(8) assms(6) by (auto simp: Accepted_def)
    have sinks: "sinkFor b' d = (if d = c then Some k else sinkFor b d)" for d
      using frame by (simp add: b' sinkFor_def)
    have fresh: "sinkFor b d \<noteq> Some k" for d using assms(2,4) unfolding links_ok_def by blast
    have "links_ok b' (A - {k})"
      using assms(2) fresh frame(1) unfolding links_ok_def sinks
      by (auto simp: b' split: if_splits)
    moreover have "limits_ok cfg b1"
      by (rule resolveSession_limits [OF ok _ accepted(7)]) (use assms(3) in \<open>simp add: limits_ok_def\<close>)
    ultimately show ?thesis
      using r frame assms(3) by (simp add: b' limits_ok_def)
  qed
  from all show "links_ok b' (A - {k})" "limits_ok cfg b'" "b_conns b' = b_conns b"
    "Accepted r \<Longrightarrow> \<exists>ref cl. cr_Client r = Some ref \<and> mget (b_clients b') ref = Some cl" "\<not> Accepted r \<Longrightarrow> b' = b"
    by blast+
qed

text \<open>What \<open>handleConnect\<close> does once \<open>Connect\<close> has returned.\<close>

lemma writePacketNow_fields:
  "writePacketNow c p = (ok, c') \<Longrightarrow> cn_client c' = cn_client c \<and> cn_clientID c' = cn_clientID c
    \<and> cn_outbound c' = cn_outbound c \<and> cn_queueSize c' = cn_queueSize c \<and> cn_done c' = cn_done c"
  by (auto simp: writePacketNow_def writePacket_def split: sum.splits if_splits)

lemma attach_client:
  assumes "broker_ok b" and "links_ok b A" and "limits_ok cfg b" and "k \<notin> A" and "mget (b_conns b) k = Some c0"
    and "mget (b_clients b) ref = Some cl" and "cn_client c = Some ref" and "cn_clientID c = cl_id cl"
    and "cn_outbound c = cn_outbound c0" and "cn_queueSize c = cn_queueSize c0"
  shows "broker_ok (setConn b k c)" and "links_ok (setConn b k c) A" and "limits_ok cfg (setConn b k c)"
proof -
  have "refs_ok (setConn b k c)"
    using assms(1) unfolding broker_ok_def refs_ok_def setConn_def
    using assms(5-10) by (auto split: if_splits)
  then show "broker_ok (setConn b k c)"
    using assms(1) by (simp add: broker_ok_def state_ok_def setConn_def subscribed_def)
  show "links_ok (setConn b k c) A" using assms(2,4) by (auto simp: links_ok_def setConn_def sinkFor_def split: if_splits)
  show "limits_ok cfg (setConn b k c)" using assms(3) by (simp add: limits_ok_def setConn_def)
qed

lemma handleConnect_accepted:
  assumes "conn_of b k = Some c0" and "Connect auth newID b req (cn_remoteAddr c0) k = (r, b1)" and "conn_of b1 k = Some c0"
    and "writePacketNow c0 (PConnack \<lparr>ca_SessionPresent = cr_SessionPresent r, ca_ReturnCode = cr_ReturnCode r\<rparr>) = (True, c)"
    and "Accepted r" and "cr_Client r = Some ref" and "mget (b_clients b1) ref = Some cl"
  shows "handleConnect auth newID b k req =
    (True, let b2 = setConn b1 k (c\<lparr>cn_client := Some ref, cn_clientID := cl_id cl\<rparr>);
               b3 = (case cr_Displaced r of None \<Rightarrow> b2 | Some d \<Rightarrow> closeConn b2 d ReasonSessionTakenOver)
           in if cr_SessionPresent r then snd (ResumeSession b3 k) else b3)"
  using assms by (simp add: handleConnect_def Let_def cong: option.case_cong)

lemma handleConnect_stops:
  assumes "conn_of b k = Some c0" and "Connect auth newID b req (cn_remoteAddr c0) k = (r, b1)" and "conn_of b1 k = Some c0"
    and "writePacketNow c0 (PConnack \<lparr>ca_SessionPresent = cr_SessionPresent r, ca_ReturnCode = cr_ReturnCode r\<rparr>) = (wrote, c)"
    and "\<not> (wrote \<and> Accepted r)"
  shows "handleConnect auth newID b k req =
    (False, setConn b1 k (Close c (if wrote then ReasonProtocolViolation else ReasonNetworkError)))"
  using assms by (cases wrote) (simp_all add: handleConnect_def Let_def)

lemma attach_quiet:
  assumes "broker_ok b" and "links_ok b A" and "limits_ok cfg b" and "k \<notin> A" and "mget (b_conns b) k = Some c0"
    and "mget (b_clients b) ref = Some cl" and "cn_client c = Some ref" and "cn_clientID c = cl_id cl"
    and "cn_outbound c = cn_outbound c0" and "cn_queueSize c = cn_queueSize c0" and "quiet (setConn b k c) b'"
  shows "broker_ok b' \<and> links_ok b' A \<and> limits_ok cfg b'
    \<and> (\<forall>k'. (mget (b_conns b') k' = None) = (mget (b_conns b) k' = None))
    \<and> (\<forall>k' cn'. k' \<noteq> k \<and> mget (b_conns b') k' = Some cn' \<longrightarrow>
          (\<exists>cn. mget (b_conns b) k' = Some cn \<and> cn_client cn' = cn_client cn))
    \<and> (\<exists>cn. mget (b_conns b') k = Some cn \<and> cn_client cn \<noteq> None)"
proof -
  note att = attach_client [OF assms(1-10)]
  note q = quiet_links [OF assms(11) att(1)]
  have conns: "mget (b_conns (setConn b k c)) k' = (if k' = k then Some c else mget (b_conns b) k')" for k'
    by (simp add: setConn_def)
  have none: "(mget (b_conns b') k' = None) = (mget (b_conns b) k' = None)" for k'
    using q(4) [of k'] conns [of k'] assms(5) by auto
  have other: "\<exists>cn. mget (b_conns b) k' = Some cn \<and> cn_client cn' = cn_client cn"
    if "k' \<noteq> k \<and> mget (b_conns b') k' = Some cn'" for k' cn'
    using q(5) [OF conjunct2 [OF that]] conns [of k'] that by simp
  have "\<exists>cn. mget (b_conns b') k = Some cn" using q(4) [of k] conns [of k] by auto
  then have "\<exists>cn. mget (b_conns b') k = Some cn \<and> cn_client cn \<noteq> None"
    using q(5) [of k] conns [of k] assms(7) by auto
  with none other show ?thesis using q(1) q(2) [OF att(2)] q(3) [OF att(3)] by blast
qed

lemma handleConnect_links:
  assumes "broker_ok b" and "links_ok b A" and "limits_ok cfg b" and "k \<in> A" and "mget (b_conns b) k \<noteq> None"
    and "handleConnect auth newID b k req = (ok, b')"
  shows "broker_ok b' \<and> links_ok b' (A - {k}) \<and> limits_ok cfg b'
    \<and> (\<forall>k'. (mget (b_conns b') k' = None) = (mget (b_conns b) k' = None))
    \<and> (\<forall>k' cn'. k' \<noteq> k \<and> mget (b_conns b') k' = Some cn' \<longrightarrow>
          (\<exists>cn. mget (b_conns b) k' = Some cn \<and> cn_client cn' = cn_client cn))
    \<and> (ok \<longrightarrow> (\<exists>cn. mget (b_conns b') k = Some cn \<and> cn_client cn \<noteq> None))"
proof -
  obtain c0 where c0: "mget (b_conns b) k = Some c0" using assms(5) by blast
  obtain r b1 where con: "Connect auth newID b req (cn_remoteAddr c0) k = (r, b1)" by force
  note links = Connect_links [OF assms(1-5) con]
  let ?connack = "PConnack \<lparr>ca_SessionPresent = cr_SessionPresent r, ca_ReturnCode = cr_ReturnCode r\<rparr>"
  obtain wrote c where w: "writePacketNow c0 ?connack = (wrote, c)" by force
  note wf = writePacketNow_fields [OF w]
  show ?thesis
  proof (cases "wrote \<and> Accepted r")
    case False
    define reason where "reason = (if wrote then ReasonProtocolViolation else ReasonNetworkError)"
    have h: "handleConnect auth newID b k req = (False, setConn b1 k (Close c reason))"
      using False c0 con links(4) w by (cases wrote) (simp_all add: handleConnect_def conn_of_def Let_def reason_def)
    have "quiet b1 (setConn b1 k (Close c reason))"
      by (rule conn_update_quiet) (use links(4) c0 wf in auto)
    note q = quiet_links [OF this links(1)]
    have eq: "b' = setConn b1 k (Close c reason)" "\<not> ok" using h assms(6) by auto
    show ?thesis using q links(2,3,4) eq(2) unfolding eq(1) by simp
  next
    case True
    then obtain ref cl where cl: "cr_Client r = Some ref" "mget (b_clients b1) ref = Some cl" using links(5) by blast
    let ?b2 = "setConn b1 k (c\<lparr>cn_client := Some ref, cn_clientID := cl_id cl\<rparr>)"
    let ?b3 = "case cr_Displaced r of None \<Rightarrow> ?b2 | Some d \<Rightarrow> closeConn ?b2 d ReasonSessionTakenOver"
    have eq: "b' = (if cr_SessionPresent r then snd (ResumeSession ?b3 k) else ?b3)"
      using handleConnect_accepted [OF _ con _ w [unfolded eqTrueI [OF conjunct1 [OF True]]] _ cl] True c0 links(4) assms(6)
      by (simp add: conn_of_def Let_def)
    have "quiet ?b2 ?b3" by (simp add: closeConn_quiet split: option.split)
    then have "quiet ?b2 b'"
      unfolding eq using delivers_quiet [OF ResumeSession_delivers] by (auto intro: quiet_trans)
    from attach_quiet [OF links(1-3) _ _ cl(2) _ _ _ _ this, of c0] show ?thesis
      using links(4) c0 wf by simp
  qed
qed

definition awaiting :: "world \<Rightarrow> conn_ref set" where
  "awaiting w = {k. mget (w_phase w) k = Some Awaiting}"

definition world_ok :: "config \<Rightarrow> world \<Rightarrow> bool" where
  "world_ok cfg w =
     (broker_ok (w_broker w) \<and> limits_ok cfg (w_broker w) \<and> links_ok (w_broker w) (awaiting w)
      \<and> (\<forall>k. (mget (w_phase w) k = None) = (mget (b_conns (w_broker w)) k = None))
      \<and> (\<forall>k cn. mget (w_phase w) k = Some Reading \<and> mget (b_conns (w_broker w)) k = Some cn \<longrightarrow> cn_client cn \<noteq> None))"

lemma world_conn: "world_ok cfg w \<Longrightarrow> mget (w_phase w) k = Some p \<Longrightarrow> \<exists>cn. mget (b_conns (w_broker w)) k = Some cn"
  unfolding world_ok_def by (metis not_Some_eq)

lemma quiet_world:
  assumes "world_ok cfg w" and "quiet (w_broker w) b'"
  shows "world_ok cfg (w\<lparr>w_broker := b'\<rparr>)"
proof -
  have ok: "broker_ok (w_broker w)" using assms(1) by (simp add: world_ok_def)
  note q = quiet_links [OF assms(2) ok]
  have "cn_client cn \<noteq> None" if "mget (w_phase w) k = Some Reading" "mget (b_conns b') k = Some cn" for k cn
    using q(5) [OF that(2)] assms(1) that(1) by (auto simp: world_ok_def)
  with assms(1) q(1-4) show ?thesis by (simp add: world_ok_def awaiting_def, blast)
qed

lemma phase_world:
  assumes "world_ok cfg w" and "mget (w_phase w) k = Some p0" and "p0 \<noteq> Awaiting" and "p \<noteq> Awaiting"
    and "p = Reading \<Longrightarrow> p0 = Reading"
  shows "world_ok cfg (w\<lparr>w_phase := mput k p (w_phase w)\<rparr>)"
proof -
  have "awaiting (w\<lparr>w_phase := mput k p (w_phase w)\<rparr>) = awaiting w" using assms(2-4) by (auto simp: awaiting_def)
  with assms world_conn [OF assms(1,2)] show ?thesis by (auto simp: world_ok_def)
qed

lemma runPhase_quiet:
  assumes "world_ok cfg w" and "mget (w_phase w) k = Some Reading" and "quiet (w_broker w) (snd r)"
  shows "world_ok cfg (runPhase w k r)"
proof -
  have "world_ok cfg (w\<lparr>w_broker := snd r\<rparr>)" by (rule quiet_world [OF assms(1,3)])
  from phase_world [OF this, of k Reading "if fst r then Reading else Stopped"] assms(2) show ?thesis
    by (simp add: runPhase_def)
qed

lemma stop_awaiting:
  assumes "world_ok cfg w" and "mget (w_phase w) k = Some Awaiting" and "quiet (w_broker w) b'"
  shows "world_ok cfg (w\<lparr>w_broker := b', w_phase := mput k Stopped (w_phase w)\<rparr>)"
proof -
  have "world_ok cfg (w\<lparr>w_broker := b'\<rparr>)" by (rule quiet_world [OF assms(1,3)])
  moreover have "awaiting (w\<lparr>w_broker := b', w_phase := mput k Stopped (w_phase w)\<rparr>) \<subseteq> awaiting (w\<lparr>w_broker := b'\<rparr>)"
    by (auto simp: awaiting_def)
  ultimately show ?thesis
    using assms(2) world_conn [of cfg "w\<lparr>w_broker := b'\<rparr>" k] by (auto simp: world_ok_def links_ok_def subset_iff)
qed

lemma first_world:
  assumes "world_ok cfg w" and "mget (w_phase w) k = Some Awaiting"
  shows "world_ok cfg (runPhase w k (awaitConnect auth newID (w_broker w) k r))"
proof (cases "\<exists>req. r = Inr (PConnect req)")
  case True
  then obtain req where r: "r = Inr (PConnect req)" by blast
  obtain ok b' where h: "handleConnect auth newID (w_broker w) k req = (ok, b')" by force
  have pre: "broker_ok (w_broker w)" "links_ok (w_broker w) (awaiting w)" "limits_ok cfg (w_broker w)" "k \<in> awaiting w"
    "mget (b_conns (w_broker w)) k \<noteq> None"
    using assms world_conn [OF assms] by (auto simp: world_ok_def awaiting_def)
  note l = handleConnect_links [OF pre h]
  have aw: "awaiting (runPhase w k (ok, b')) = awaiting w - {k}" by (auto simp: awaiting_def runPhase_def)
  have dom: "(mget (w_phase (runPhase w k (ok, b'))) k' = None) = (mget (b_conns b') k' = None)" for k'
    using l assms pre(5) by (auto simp: world_ok_def runPhase_def)
  have reading: "cn_client cn \<noteq> None"
    if "mget (w_phase (runPhase w k (ok, b'))) k' = Some Reading" "mget (b_conns b') k' = Some cn" for k' cn
  proof (cases "k' = k")
    case True
    with that(1) have ok by (simp add: runPhase_def split: if_splits)
    with l True that(2) show ?thesis by auto
  next
    case False
    with that l obtain cn0 where "mget (b_conns (w_broker w)) k' = Some cn0" "cn_client cn = cn_client cn0" by blast
    with False that(1) assms(1) show ?thesis by (auto simp: world_ok_def runPhase_def)
  qed
  have "w_broker (runPhase w k (ok, b')) = b'" by (simp add: runPhase_def)
  with l aw dom reading have "world_ok cfg (runPhase w k (ok, b'))" unfolding world_ok_def by metis
  then show ?thesis by (simp add: r awaitConnect_def h)
next
  case False
  then have "awaitConnect auth newID (w_broker w) k r = (False, closeConn (w_broker w) k ReasonNetworkError)
      \<or> awaitConnect auth newID (w_broker w) k r = (False, closeConn (w_broker w) k ReasonProtocolViolation)"
    by (cases r; cases "projr r") (auto simp: awaitConnect_def)
  then show ?thesis using stop_awaiting [OF assms closeConn_quiet] by (auto simp: runPhase_def)
qed

lemma accept_world:
  assumes "world_ok cfg w"
  shows "world_ok cfg (acceptConn w qsize addr)"
proof -
  let ?k = "fresh_ref (b_conns (w_broker w))"
  have new: "mget (b_conns (w_broker w)) ?k = None" by (rule fresh_ref_new)
  have sinks: "sinkFor (w_broker w) c \<noteq> Some ?k" for c
    using assms new unfolding world_ok_def broker_ok_def refs_ok_def sinkFor_def by metis
  have ok: "broker_ok (setConn (w_broker w) ?k (NewConnection qsize addr))"
    using assms new
    by (auto simp: world_ok_def broker_ok_def state_ok_def refs_ok_def setConn_def subscribed_def NewConnection_def split: if_splits)
  show ?thesis
    using assms new sinks ok
    by (auto simp: world_ok_def acceptConn_def Let_def awaiting_def links_ok_def limits_ok_def setConn_def sinkFor_def
        NewConnection_def split: if_splits)
qed

lemma conn_step_world:
  assumes "conn_step auth w w'" and "world_ok cfg w"
  shows "world_ok cfg w'"
  using assms
proof (induction rule: conn_step.induct)
  case (first w k newID r)
  then show ?case by (intro first_world)
next
  case (packet w k p)
  then show ?case by (intro runPhase_quiet) (auto simp: onPacket_quiet)
next
  case (tear_down w k c)
  have q: "quiet (w_broker w) (teardown (closeConn (w_broker w) k (conn_reason c)) k)"
    by (rule quiet_trans [OF closeConn_quiet teardown_quiet])
  from phase_world [OF quiet_world [OF tear_down(3) q], of k Stopped TornDown] tear_down(1) show ?case by simp
next
  case (tick d w)
  have "quiet (w_broker w) ((w_broker w)\<lparr>b_now := b_now (w_broker w) + d\<rparr>)"
    by (simp add: quiet_def broker_ok_def state_ok_def refs_ok_def subscribed_def sinkFor_def option.rel_refl)
  then show ?case using tick(2) by (intro quiet_world)
qed (simp_all add: runPhase_quiet handleReadError_quiet quiet_world keepAliveTick_quiet writeConn_quiet breakSocket_quiet)

lemma step_world:
  assumes "step auth w w'" and "world_ok cfg w"
  shows "world_ok cfg w'"
  using assms
  by (induction rule: step.induct)
    (simp_all add: accept_world conn_step_world quiet_world closeConn_quiet delivers_quiet [OF RetransmitExpired_delivers])

lemma reachable_world: "reachable auth cfg w \<Longrightarrow> world_ok cfg w"
proof (induction rule: reachable.induct)
  case (init now wall)
  show ?case
    using NewBroker_ok [of cfg now wall]
    by (simp add: world_ok_def limits_ok_def links_ok_def) (simp add: NewBroker_def NewSessionStore_def session_Get_def sinkFor_def)
next
  case (move w w')
  then show ?case using step_world by blast
qed

lemma onPacket_puback:
  assumes "currentClient b k = Some ref" and "mget (b_clients b) ref = Some cl"
  shows "onPacket b k (PAck (NewPuback p)) = (True, snd (Acknowledge (recordActivity b k) (cl_id cl) p))"
  using assms
  by (simp add: onPacket_def dispatch_def recordActivity_def handleAck_def NewPuback_def currentClient_def conn_of_def
      RecordActivity_def Let_def)

lemma recordActivity_frame [simp]:
  "b_sessions (recordActivity b k) = b_sessions b" "sinkFor (recordActivity b k) = sinkFor b" "b_now (recordActivity b k) = b_now b"
  by (simp_all add: recordActivity_def sinkFor_def fun_eq_iff split: option.split)

text \<open>The deadline of a read and the keep-alive check agree: there is a deadline exactly when keep-alive is enabled, and a read that
  runs into it has outlasted a client that the check would close as well.\<close>

lemma read_deadline_agrees:
  assumes "currentClient b k = Some ref" and "mget (b_clients b) ref = Some c" and "cl_lastActivityAt c \<le> b_now b"
  shows "applyReadDeadline b k d = None \<longleftrightarrow> IsDisabled (cl_keepAlive c)"
    and "applyReadDeadline b k d = Some t \<Longrightarrow> now > t \<Longrightarrow> IsKeepAliveExpired c now"
proof -
  have t: "Timeout (cl_keepAlive c) \<le> 0 \<longleftrightarrow> IsDisabled (cl_keepAlive c)"
    using unsigned_greater_eq [of "ka_seconds (cl_keepAlive c)"]
    by (auto simp: Timeout_def Duration_def IsDisabled_def second_def not_less order_antisym_conv unsigned_eq_0_iff)
  show "applyReadDeadline b k d = None \<longleftrightarrow> IsDisabled (cl_keepAlive c)"
    using assms t by (simp add: applyReadDeadline_def Let_def)
  show "applyReadDeadline b k d = Some t \<Longrightarrow> now > t \<Longrightarrow> IsKeepAliveExpired c now"
    using assms t by (auto simp: applyReadDeadline_def Let_def IsKeepAliveExpired_gap IsDisabled_def split: if_splits)
qed

end
