(* ===== verification/Serving.thy ===== *)
theory Serving
  imports Transport
begin

text \<open>
  What the transport promises (\<open>pkg/infrastructure/transport/connection.go\<close>): the invariant of every
  reachable state of the broker with its connections, the end of a connection that breaks the
  protocol, the acknowledgement of inbound messages, the take-over of a client by a new connection,
  and two cases in which the code does less than it means to: an acknowledgement of a CONNECT that cannot
  be written, and the duplicate flag on deliveries of level 0.
\<close>

subsection \<open>What every reachable state satisfies\<close>


definition sample_world :: world where
  "sample_world = \<lparr>w_broker = NewBroker sample_config 5 5, w_phase = []\<rparr>"

definition sample_run :: world where
  "sample_run =
     (let w = acceptConn sample_world 4 ''addr'' in
      runPhase w 0 (awaitConnect AllowAll_Authenticate ''x'' (w_broker w) 0 (Inr (PConnect sample_connect))))"

lemma fresh_ref_empty: "fresh_ref (b_conns (w_broker sample_world)) = 0"
  by (simp add: sample_world_def NewBroker_def fresh_ref_def)

lemma sample_accepted_phase: "mget (w_phase (acceptConn sample_world 4 ''addr'')) 0 = Some Awaiting"
  by (simp add: acceptConn_def fresh_ref_empty Let_def)

lemma sample_accept_reachable: "reachable AllowAll_Authenticate sample_config (acceptConn sample_world 4 ''addr'')"
  using reachable.move [OF reachable.init step.accept] by (simp add: sample_world_def)

lemma sample_run_reachable: "reachable AllowAll_Authenticate sample_config sample_run"
  unfolding sample_run_def Let_def
  by (rule reachable.move [OF sample_accept_reachable step.connection [OF conn_step.first [OF sample_accepted_phase]]])

lemma sample_run_session: "session_Get (b_sessions (w_broker sample_run)) ''c'' \<noteq> None"
  by code_simp


subsection \<open>Protocol errors\<close>

text \<open>Packets that a client of this broker must not send once it is connected.\<close>

fun forbidden :: "packet \<Rightarrow> bool" where
  "forbidden (PConnect c) = True"
| "forbidden (PPublish p) = (p_QoS p \<ge> 2)"
| "forbidden (PSubscribe s) = False"
| "forbidden (PUnsubscribe u) = False"
| "forbidden (PAck a) = (ack_packetType a \<noteq> PUBACK)"
| "forbidden (PSimple s) = (sm_packetType s \<noteq> PINGREQ \<and> sm_packetType s \<noteq> DISCONNECT)"
| "forbidden _ = True"

lemma dispatch_forbidden:
  assumes "forbidden p"
  shows "\<exists>e. dispatch b k p = (Some e, b)"
proof -
  have "\<exists>e. handlePublish b k q = (Some e, b)" if "p_QoS q \<ge> 2" for q
    using that by (cases "NewQoS (p_QoS q)")
      (auto simp: handlePublish_def NewQoS_def IsSupported_def word_le_nat_alt word_less_nat_alt
        split: if_splits)
  moreover have "\<exists>e. handleAck b cl a = (Some e, b)" if "ack_packetType a \<noteq> PUBACK" for cl a
    using that by (simp add: handleAck_def)
  moreover have "\<exists>e. handleSimple b k s = (Some e, b)" if "sm_packetType s \<noteq> PINGREQ" "sm_packetType s \<noteq> DISCONNECT" for s
    using that by (simp add: handleSimple_def)
  ultimately show ?thesis
    using assms by (cases p) (simp_all add: dispatch_def split: option.split)
qed

lemma recordActivity_fields [simp]:
  "b_index (recordActivity b k) = b_index b" "b_sessions (recordActivity b k) = b_sessions b"
  "b_retained (recordActivity b k) = b_retained b" "b_sinks (recordActivity b k) = b_sinks b"
  "b_registry (recordActivity b k) = b_registry b" "b_conns (recordActivity b k) = b_conns b"
  by (simp_all add: recordActivity_def split: option.split)

lemma closeConn_fields [simp]:
  "b_index (closeConn b k r) = b_index b" "b_sessions (closeConn b k r) = b_sessions b"
  "b_retained (closeConn b k r) = b_retained b" "b_sinks (closeConn b k r) = b_sinks b"
  "b_registry (closeConn b k r) = b_registry b" "b_clients (closeConn b k r) = b_clients b"
  by (simp_all add: closeConn_def setConn_def split: option.split)

lemma conn_of_closeConn:
  "conn_of (closeConn b k r) k' = (if k' = k then map_option (\<lambda>c. Close c r) (conn_of b k) else conn_of b k')"
  by (simp add: closeConn_def setConn_def conn_of_def split: option.split)

text \<open>Claim C15. A connected client that sends a second CONNECT, a PUBLISH of level 2, an acknowledgement of the
  exactly-once flow or a packet only a server may send is cut off: the read loop ends and the
  connection is closed with the reason protocol violation, which is not graceful, so that the will is
  due. Nothing is answered, published, stored, subscribed or sent to anybody else.\<close>

theorem forbidden_packet_closes:
  assumes "forbidden p" and "conn_of b k = Some c" and "onPacket b k p = (continues, b')"
  shows "\<not> continues \<and> conn_of b' k = Some (Close c ReasonProtocolViolation) \<and> \<not> IsGraceful ReasonProtocolViolation
    \<and> (\<forall>k'. k' \<noteq> k \<longrightarrow> conn_of b' k' = conn_of b k')
    \<and> b_index b' = b_index b \<and> b_sessions b' = b_sessions b \<and> b_retained b' = b_retained b
    \<and> b_sinks b' = b_sinks b \<and> b_registry b' = b_registry b"
proof -
  obtain e where "dispatch (recordActivity b k) k p = (Some e, recordActivity b k)"
    using dispatch_forbidden [OF assms(1)] by blast
  then have "onPacket b k p = (False, closeConn (recordActivity b k) k ReasonProtocolViolation)"
    by (simp add: onPacket_def Let_def)
  with assms show ?thesis by (auto simp: conn_of_closeConn IsGraceful_def) (simp_all add: conn_of_def)
qed

lemma forbidden_packet_closes_witness:
  "\<exists>c b'. onPacket sample_broker 0 (PConnect sample_connect) = (False, b') \<and> conn_of b' 0 = Some c
    \<and> conn_reason c = ReasonProtocolViolation"
proof -
  have "conn_of sample_broker 0 = Some (NewConnection 4 ''addr'')"
    by (simp add: conn_of_def sample_broker_def)
  from forbidden_packet_closes [OF _ this prod.collapse [symmetric], of "PConnect sample_connect"] show ?thesis
    by (auto simp: Close_def NewConnection_def conn_reason_def intro!: exI prod_eqI)
qed

subsection \<open>Answers\<close>

definition inbound :: "broker \<Rightarrow> publish \<Rightarrow> message" where
  "inbound b p = \<lparr>m_topic = p_Topic p, m_payload = p_Payload p, m_qos = p_QoS p, m_retain = p_Retain p, m_dup = p_DUP p,
     m_packetID = p_PacketID p, m_createdAt = (if b_now b = 0 then b_wall b else b_now b)\<rparr>"

definition admissible :: "broker \<Rightarrow> publish \<Rightarrow> bool" where
  "admissible b p =
     (p_QoS p \<le> 1 \<and> (p_QoS p = 1 \<longrightarrow> p_PacketID p \<noteq> 0) \<and> NewTopicName (p_Topic p) = Inr (p_Topic p)
      \<and> int (length (p_Payload p)) \<le> (if cf_TransportMaxPayloadBytes (b_cfg b) \<le> 0 then DefaultMaxPayloadBytes
           else cf_TransportMaxPayloadBytes (b_cfg b)))"

lemma qos_one_cases: "(q :: qos) \<le> 1 \<longleftrightarrow> q = 0 \<or> q = 1"
proof -
  have "unat q \<le> 1 \<longleftrightarrow> unat q = unat (0 :: qos) \<or> unat q = unat (1 :: qos)" by auto
  then show ?thesis by (simp add: word_le_nat_alt word_unat_eq_iff)
qed

lemma handlePublish_refused:
  assumes "\<not> admissible b p"
  shows "\<exists>e. handlePublish b k p = (Some e, b)"
  using assms
  by (auto simp: handlePublish_def admissible_def NewQoS_def IsSupported_def NewMessage_Inr split: sum.split
      dest: NewTopicName_Inr [THEN iffD1])

lemma handlePublish_accepted:
  assumes "admissible b p"
  shows "handlePublish b k p =
    (let b = Publish b (inbound b p) in if p_QoS p = 1 then send b k (PAck (NewPuback (p_PacketID p))) else (None, b))"
proof -
  have q: "p_QoS p = 0 \<or> p_QoS p = 1" using assms by (simp add: admissible_def qos_one_cases)
  then have "NewMessage (b_wall b)
      \<lparr>mp_Topic = p_Topic p, mp_Payload = p_Payload p, mp_QoS = p_QoS p, mp_Retain = p_Retain p,
       mp_DUP = p_DUP p, mp_PacketID = p_PacketID p, mp_Now = b_now b,
       mp_MaxPayloadBytes = cf_TransportMaxPayloadBytes (b_cfg b)\<rparr> = Inr (inbound b p)"
    using assms by (auto simp: NewMessage_Inr admissible_def inbound_def NewTopicName_Inr)
  with assms q show ?thesis
    by (auto simp: handlePublish_def admissible_def NewQoS_def IsSupported_def)
qed

text \<open>Claim C14. An inbound PUBLISH is handed to the publishing service exactly when its level is 0 or 1, its
  topic is a topic name, its payload is within the limit and, at level 1, it has an identifier; any other one
  is an error without effect. At level 1 the PUBACK with the identifier of the packet is queued after the
  message was routed and is the last packet of the connection; if it cannot be queued, that is an error.
  At level 0 nothing is answered.\<close>

theorem handlePublish_acknowledges:
  assumes "broker_ok b" and "conn_of b k \<noteq> None" and "handlePublish b k p = (err, b')"
  shows "if \<not> admissible b p then err \<noteq> None \<and> b' = b
    else if p_QoS p = 0 then err = None \<and> b' = Publish b (inbound b p)
    else \<exists>c. conn_of (Publish b (inbound b p)) k = Some c
      \<and> (if cn_done c \<or> length (cn_outbound c) \<ge> cn_queueSize c then err \<noteq> None \<and> b' = Publish b (inbound b p)
         else err = None \<and> b' = setConn (Publish b (inbound b p)) k
           (c\<lparr>cn_outbound := cn_outbound c @ [PAck (NewPuback (p_PacketID p))]\<rparr>))"
proof (cases "admissible b p")
  case False
  with handlePublish_refused [OF this, of k] assms(3) show ?thesis by auto
next
  case True
  then have q: "p_QoS p = 0 \<or> p_QoS p = 1" by (simp add: admissible_def qos_one_cases)
  let ?b = "Publish b (inbound b p)"
  obtain c where c: "mget (b_conns ?b) k = Some c"
    using quiet_links(4) [OF Publish_quiet assms(1), of "inbound b p" k] assms(2) by (auto simp: conn_of_def)
  have same: "?b\<lparr>b_conns := mput k c (b_conns ?b)\<rparr> = ?b" using mput_same [OF c] by simp
  show ?thesis
    using q True assms(3) c handlePublish_accepted [OF True, of k]
    by (auto simp: Let_def send_def sink_Send_def Send_def conn_of_def setConn_def same split: if_splits)
qed

definition valid_publish :: publish where
  "valid_publish = \<lparr>p_DUP = False, p_QoS = 1, p_Retain = False, p_Topic = ''q/r'', p_PacketID = 9, p_Payload = [7]\<rparr>"

lemma NewTopicName_sample: "NewTopicName ''q/r'' = Inr ''q/r''"
  by (simp add: NewTopicName_Inr MaxTopicLength_def MaxTopicLevels_def)

lemma valid_publish_admissible: "admissible sample_broker valid_publish"
  by (simp add: admissible_def valid_publish_def NewTopicName_sample sample_broker_def NewBroker_def publishing_withDefaults_def
      sample_config_def)

lemma handlePublish_acknowledges_witness:
  "\<exists>c. conn_of (Publish sample_broker (inbound sample_broker valid_publish)) 0 = Some c
    \<and> (if cn_done c \<or> length (cn_outbound c) \<ge> cn_queueSize c
       then fst (handlePublish sample_broker 0 valid_publish) \<noteq> None
       else fst (handlePublish sample_broker 0 valid_publish) = None)"
proof -
  have "conn_of sample_broker 0 \<noteq> None" by (simp add: conn_of_def sample_broker_def)
  from handlePublish_acknowledges [OF sample_broker_ok this prod.collapse [symmetric], of valid_publish] show ?thesis
    using valid_publish_admissible by (auto simp: valid_publish_def split: if_splits)
qed


subsection \<open>The handshake and take-over\<close>

lemma Connect_accepted:
  assumes "broker_ok b" and "Connect auth newID b req addr k = (r, b')" and "Accepted r"
  obtains ref cl where "cr_Client r = Some ref" and "cr_ReturnCode r = ConnectAccepted"
    and "mget (b_clients b') ref = Some cl" and "registry_Get (b_registry b') (cl_id cl) = Some ref"
    and "sinkFor b' (cl_id cl) = Some k" and "b_conns b' = b_conns b"
    and "cr_Displaced r = (if sinkFor b (cl_id cl) = Some k then None else sinkFor b (cl_id cl))"
proof (cases rule: Connect_cases [where auth = auth and newID = newID and b = b and req = req and addr = addr and k = k])
  case (refused code)
  with assms(2,3) have False by (auto simp: refused_def Accepted_def)
  then show ?thesis ..
next
  case (accepted c cl ref present b1)
  let ?b = "b\<lparr>b_clients := mput ref cl (b_clients b)\<rparr>"
  have "mget (b_clients b) ref = None" using accepted(6) by (simp add: fresh_ref_new)
  then have ok: "broker_ok ?b" by (rule add_client_ok [OF assms(1)])
  note frame = resolveSession_frame [OF ok, of c "c_CleanSession req" "b_now b", unfolded accepted(7) snd_conv]
  show ?thesis
    by (rule that [of ref cl]) (use accepted(2,8) assms(2) frame in \<open>auto simp: registry_Get_def sinkFor_def\<close>)
qed

lemma Connect_conns:
  assumes "broker_ok b" and "Connect auth newID b req addr k = (r, b')"
  shows "b_conns b' = b_conns b"
proof (cases "Accepted r")
  case True
  then show ?thesis by (rule Connect_accepted [OF assms])
next
  case False
  with assms show ?thesis
    by (cases rule: Connect_cases [where auth = auth and newID = newID and b = b and req = req and addr = addr and k = k])
      (auto simp: Accepted_def)
qed

text \<open>The last part of \<open>handleConnect\<close>: the connection is entered, the displaced one closed and the backlog resumed.\<close>

definition takeOver :: "broker \<Rightarrow> conn_ref \<Rightarrow> conn \<Rightarrow> connectResult \<Rightarrow> broker" where
  "takeOver b k c r =
     (case cr_Displaced r of None \<Rightarrow> setConn b k c | Some d \<Rightarrow> closeConn (setConn b k c) d ReasonSessionTakenOver)"

definition attach :: "broker \<Rightarrow> conn_ref \<Rightarrow> conn \<Rightarrow> connectResult \<Rightarrow> broker" where
  "attach b k c r = (if cr_SessionPresent r then snd (ResumeSession (takeOver b k c r) k) else takeOver b k c r)"

lemma attach_grows: "rel_option conn_grows (conn_of (takeOver b k c r) k') (conn_of (attach b k c r) k')"
  using ResumeSession_delivers [of "takeOver b k c r" k]
  by (simp add: attach_def conn_of_def delivers_def sends_def option.rel_refl)

lemma attach_tables:
  "b_sinks (attach b k c r) = b_sinks b" "b_registry (attach b k c r) = b_registry b" "b_clients (attach b k c r) = b_clients b"
  using delivers_frame [OF ResumeSession_delivers, of "takeOver b k c r" k]
  by (simp_all add: attach_def takeOver_def setConn_def split: option.split)

lemma attach_conn:
  assumes "cr_Displaced r \<noteq> Some k"
  shows "\<exists>cn. conn_of (attach b k c r) k = Some cn \<and> conn_grows c cn"
proof -
  have "conn_of (takeOver b k c r) k = Some c"
    using assms by (auto simp: takeOver_def conn_of_closeConn split: option.split) (simp_all add: conn_of_def setConn_def)
  then show ?thesis using attach_grows [of b k c r k] by (cases "conn_of (attach b k c r) k") auto
qed

lemma attach_displaced:
  assumes "cr_Displaced r = Some d" and "d \<noteq> k" and "conn_of b d = Some cd"
  shows "\<exists>cd'. conn_of (attach b k c r) d = Some cd' \<and> cn_done cd' \<and> (\<not> cn_done cd \<longrightarrow> conn_reason cd' = ReasonSessionTakenOver)"
proof -
  have "conn_of (setConn b k c) d = Some cd" using assms(2,3) by (simp add: conn_of_def setConn_def)
  with assms(1) have "conn_of (takeOver b k c r) d = Some (Close cd ReasonSessionTakenOver)"
    by (simp add: takeOver_def conn_of_closeConn)
  then obtain cd' where "conn_of (attach b k c r) d = Some cd'" "conn_grows (Close cd ReasonSessionTakenOver) cd'"
    using attach_grows [of b k c r d] by (cases "conn_of (attach b k c r) d") auto
  then show ?thesis by (auto simp: conn_grows_def Close_def conn_reason_def)
qed

text \<open>After a successful handshake the connection has the client that \<open>Connect\<close> has entered.\<close>

lemma handleConnect_bound:
  assumes "broker_ok b" and "conn_of b k = Some c0" and "handleConnect auth newID b k req = (True, b')"
  obtains r b1 ref cl cn where "Connect auth newID b req (cn_remoteAddr c0) k = (r, b1)" and "Accepted r" and "cr_Client r = Some ref"
    and "mget (b_clients b1) ref = Some cl"
    and "conn_of b' k = Some cn" and "cn_client cn = Some ref" and "mget (b_clients b') ref = Some cl"
    and "registry_Get (b_registry b') (cl_id cl) = Some ref" and "sinkFor b' (cl_id cl) = Some k"
    and "cn_written cn = cn_written c0 @ [PConnack \<lparr>ca_SessionPresent = cr_SessionPresent r, ca_ReturnCode = ConnectAccepted\<rparr>]"
    and "\<forall>d cd. sinkFor b (cl_id cl) = Some d \<and> d \<noteq> k \<and> conn_of b d = Some cd \<longrightarrow>
         (\<exists>cd'. conn_of b' d = Some cd' \<and> cn_done cd' \<and> (\<not> cn_done cd \<longrightarrow> conn_reason cd' = ReasonSessionTakenOver))"
proof -
  obtain r b1 where con: "Connect auth newID b req (cn_remoteAddr c0) k = (r, b1)" by force
  have conns: "b_conns b1 = b_conns b" by (rule Connect_conns [OF assms(1) con])
  then have c1: "conn_of b1 k = Some c0" using assms(2) by (simp add: conn_of_def)
  let ?connack = "PConnack \<lparr>ca_SessionPresent = cr_SessionPresent r, ca_ReturnCode = cr_ReturnCode r\<rparr>"
  obtain wrote c where w: "writePacketNow c0 ?connack = (wrote, c)" by force
  have ok: "wrote" "Accepted r" using handleConnect_stops [OF assms(2) con c1 w] assms(3) by auto
  obtain ref cl where cl: "cr_Client r = Some ref" "cr_ReturnCode r = ConnectAccepted" "mget (b_clients b1) ref = Some cl"
    "registry_Get (b_registry b1) (cl_id cl) = Some ref" "sinkFor b1 (cl_id cl) = Some k"
    and d: "cr_Displaced r = (if sinkFor b (cl_id cl) = Some k then None else sinkFor b (cl_id cl))"
    by (rule Connect_accepted [OF assms(1) con ok(2)])
  let ?c = "c\<lparr>cn_client := Some ref, cn_clientID := cl_id cl\<rparr>"
  have b': "b' = attach b1 k ?c r"
    using handleConnect_accepted [OF assms(2) con c1 w [unfolded eqTrueI [OF ok(1)]] ok(2) cl(1,3)] assms(3)
    by (simp add: attach_def takeOver_def Let_def cong: option.case_cong)
  have "cr_Displaced r \<noteq> Some k" by (simp add: d)
  from attach_conn [OF this, of b1 ?c] obtain cn where cn: "conn_of b' k = Some cn" "conn_grows ?c cn" by (auto simp: b')
  have written: "cn_written c = cn_written c0 @ [?connack]"
    using w ok(1) by (auto simp: writePacketNow_def writePacket_def split: sum.splits if_splits)
  show thesis
  proof (rule that [OF con ok(2) cl(1,3) cn(1)])
    show "\<forall>x cd. sinkFor b (cl_id cl) = Some x \<and> x \<noteq> k \<and> conn_of b x = Some cd \<longrightarrow>
         (\<exists>cd'. conn_of b' x = Some cd' \<and> cn_done cd' \<and> (\<not> cn_done cd \<longrightarrow> conn_reason cd' = ReasonSessionTakenOver))"
      using attach_displaced [of r _ k b1] d conns by (auto simp: b' conn_of_def)
  qed (use cl cn(2) written attach_tables [of b1 k ?c r] in \<open>auto simp: b' conn_grows_def sinkFor_def\<close>)
qed

lemma writePacketNow_connack:
  "cn_socketOpen c \<Longrightarrow> writePacketNow c (PConnack a) = (True, c\<lparr>cn_written := cn_written c @ [PConnack a]\<rparr>)"
  by (simp add: writePacketNow_def writePacket_def connack_Encode_def Let_def)

lemma handleConnect_refusal:
  assumes "broker_ok b" and "conn_of b k = Some c0" and "cn_socketOpen c0" and "authenticator_port auth"
    and "handleConnect auth newID b k req = (False, b')"
  obtains code cn where "code \<noteq> ConnectAccepted" and "b' = setConn b k cn" and "cn_done cn"
    and "cn_written cn = cn_written c0 @ [PConnack \<lparr>ca_SessionPresent = False, ca_ReturnCode = code\<rparr>]"
proof -
  obtain r b1 where con: "Connect auth newID b req (cn_remoteAddr c0) k = (r, b1)" by force
  have c1: "conn_of b1 k = Some c0" using Connect_conns [OF assms(1) con] assms(2) by (simp add: conn_of_def)
  let ?p = "PConnack \<lparr>ca_SessionPresent = cr_SessionPresent r, ca_ReturnCode = cr_ReturnCode r\<rparr>"
  note w = writePacketNow_connack [OF assms(3), of "\<lparr>ca_SessionPresent = cr_SessionPresent r, ca_ReturnCode = cr_ReturnCode r\<rparr>"]
  have n: "\<not> Accepted r"
  proof
    assume acc: "Accepted r"
    obtain ref cl where "cr_Client r = Some ref" "mget (b_clients b1) ref = Some cl" by (rule Connect_accepted [OF assms(1) con acc])
    from handleConnect_accepted [OF assms(2) con c1 w acc this] assms(5) show False by simp
  qed
  note refusal = authenticator_port.Connect_refusal_code [OF assms(4) con n]
  show thesis
    by (rule that [of "cr_ReturnCode r"])
      (use refusal handleConnect_stops [OF assms(2) con c1 w] n assms(5) in \<open>auto simp: Close_def\<close>)
qed

text \<open>Claim C13. When \<open>handleConnect\<close> succeeds, the CONNACK with the accepting code is what was written to the
  socket, the connection has the new client, and the registry and the sink table lead from the identifier of
  the client to it and to this connection. A connection that the identifier had before is closed,
  with the reason session taken over unless it was closed already, so there is one connection per
  client.\<close>

theorem handleConnect_takes_over:
  assumes "broker_ok b" and "conn_of b k = Some c0" and "handleConnect auth newID b k req = (True, b')"
  shows "\<exists>ref cl cn present. conn_of b' k = Some cn \<and> cn_client cn = Some ref \<and> mget (b_clients b') ref = Some cl
    \<and> registry_Get (b_registry b') (cl_id cl) = Some ref \<and> sinkFor b' (cl_id cl) = Some k
    \<and> cn_written cn = cn_written c0 @ [PConnack \<lparr>ca_SessionPresent = present, ca_ReturnCode = ConnectAccepted\<rparr>]
    \<and> (\<forall>d cd. sinkFor b (cl_id cl) = Some d \<and> d \<noteq> k \<and> conn_of b d = Some cd \<longrightarrow>
         (\<exists>cd'. conn_of b' d = Some cd' \<and> cn_done cd' \<and> (\<not> cn_done cd \<longrightarrow> conn_reason cd' = ReasonSessionTakenOver)))"
  by (rule handleConnect_bound [OF assms]) blast

lemma Connect_sample_accepted:
  assumes "cf_AllowAnonymous (b_cfg b)"
  shows "Accepted (fst (Connect AllowAll_Authenticate ''x'' b sample_connect addr k))"
proof -
  have "resolveClientID ''x'' sample_connect = Inr (''c'', False)"
    using utf8_Valid_c
    by (simp add: resolveClientID_def sample_connect_def NewClientID_def mapInr_def MaxClientIDLength_def ContainsNull_def)
  moreover have "buildWill b sample_connect = Inr None" by (simp add: buildWill_def sample_connect_def)
  ultimately show ?thesis using assms
    by (simp add: Connect_def NewProtocolVersion_def sample_connect_def NewClient_def Let_def AllowAll_Authenticate_def
        Accepted_def split: prod.split)
qed

lemma handleConnect_sample:
  assumes "broker_ok b" and "conn_of b k = Some c" and "cn_socketOpen c" and "cf_AllowAnonymous (b_cfg b)"
  shows "fst (handleConnect AllowAll_Authenticate ''x'' b k sample_connect)"
proof -
  obtain r b1 where con: "Connect AllowAll_Authenticate ''x'' b sample_connect (cn_remoteAddr c) k = (r, b1)" by force
  then have acc: "Accepted r" using Connect_sample_accepted [OF assms(4)] by (metis fst_conv)
  have c1: "conn_of b1 k = Some c" using Connect_conns [OF assms(1) con] assms(2) by (simp add: conn_of_def)
  let ?p = "PConnack \<lparr>ca_SessionPresent = cr_SessionPresent r, ca_ReturnCode = cr_ReturnCode r\<rparr>"
  have "fst (writePacketNow c ?p)" using writePacketNow_connack [OF assms(3)] by simp
  then show ?thesis using assms(2) con c1 acc by (auto simp: handleConnect_def Let_def split: prod.split)
qed

text \<open>A client that connects again on a second connection.\<close>

definition contested_broker :: broker where
  "contested_broker = sample_broker\<lparr>b_conns := mput 1 (NewConnection 4 ''addr'') (b_conns sample_broker)\<rparr>"

lemma contested_broker_ok: "broker_ok contested_broker"
  using sample_broker_ok
  by (auto simp: contested_broker_def broker_ok_def state_ok_def refs_ok_def subscribed_def NewConnection_def split: if_splits)

lemma handleConnect_takes_over_witness:
  "\<exists>b'. handleConnect AllowAll_Authenticate ''x'' contested_broker 1 sample_connect = (True, b') \<and> conn_of b' 1 \<noteq> None"
proof -
  have c: "conn_of contested_broker 1 = Some (NewConnection 4 ''addr'')" by (simp add: contested_broker_def conn_of_def)
  have "cf_AllowAnonymous (b_cfg contested_broker)"
    by (simp add: contested_broker_def sample_broker_def NewBroker_def publishing_withDefaults_def sample_config_def)
  then have "fst (handleConnect AllowAll_Authenticate ''x'' contested_broker 1 sample_connect)"
    by (intro handleConnect_sample [OF contested_broker_ok c]) (simp_all add: NewConnection_def)
  then obtain b' where b': "handleConnect AllowAll_Authenticate ''x'' contested_broker 1 sample_connect = (True, b')"
    by (metis prod.collapse)
  from handleConnect_takes_over [OF contested_broker_ok c b'] b' show ?thesis by blast
qed

text \<open>If the CONNACK of an accepted client cannot be written, the connection ends but the client stays:
  \<open>handleConnect\<close> returns before it records the client on the connection, so \<open>teardown\<close>, which has nothing
  to do for a connection without a client, neither unregisters the sink nor disconnects the client. The
  registry and the sink table keep leading to a connection that is closed for good.\<close>

theorem connack_failure_keeps_client:
  assumes "broker_ok b" and "conn_of b k = Some c" and "cn_client c = None" and "\<not> cn_socketOpen c"
    and "Accepted (fst (Connect auth newID b req (cn_remoteAddr c) k))"
    and "handleConnect auth newID b k req = (ok, b')"
  shows "\<not> ok \<and> (\<exists>ref cl. registry_Get (b_registry (teardown b' k)) (cl_id cl) = Some ref
      \<and> mget (b_clients (teardown b' k)) ref = Some cl \<and> sinkFor (teardown b' k) (cl_id cl) = Some k)
    \<and> (\<exists>c'. conn_of (teardown b' k) k = Some c' \<and> cn_done c')"
proof -
  obtain r b1 where con: "Connect auth newID b req (cn_remoteAddr c) k = (r, b1)" by force
  then obtain ref cl where cl: "mget (b_clients b1) ref = Some cl" "registry_Get (b_registry b1) (cl_id cl) = Some ref"
    "sinkFor b1 (cl_id cl) = Some k" and conns: "b_conns b1 = b_conns b"
    using Connect_accepted [OF assms(1) con] assms(5) by (metis fst_conv)
  have w: "writePacketNow c p = (False, c)" for p
    using assms(4) by (simp add: writePacketNow_def writePacket_def split: sum.split)
  have "conn_of b1 k = Some c" using assms(2) conns by (simp add: conn_of_def)
  from handleConnect_stops [OF assms(2) con this w] assms(6)
  have b': "\<not> ok" "b' = setConn b1 k (Close c ReasonNetworkError)" by auto
  then have "teardown b' k = b'"
    using assms(3) by (simp add: teardown_def conn_of_def setConn_def Close_def)
  with b' cl show ?thesis by (auto simp: setConn_def conn_of_def sinkFor_def Close_def)
qed

definition broken_broker :: broker where
  "broken_broker = breakSocket contested_broker 1"

lemma connack_failure_keeps_client_witness:
  "\<exists>cl. sinkFor (teardown (snd (handleConnect AllowAll_Authenticate ''x'' broken_broker 1 sample_connect)) 1) cl = Some 1"
proof -
  have ok: "broker_ok broken_broker"
    unfolding broken_broker_def by (rule quiet_links(1) [OF breakSocket_quiet contested_broker_ok])
  have c: "conn_of broken_broker 1 = Some ((NewConnection 4 ''addr'')\<lparr>cn_socketOpen := False\<rparr>)"
    by (simp add: broken_broker_def contested_broker_def conn_of_def breakSocket_def setConn_def)
  have anon: "cf_AllowAnonymous (b_cfg broken_broker)"
    by (simp add: broken_broker_def breakSocket_def setConn_def contested_broker_def sample_broker_def NewBroker_def
        publishing_withDefaults_def sample_config_def split: option.split)
  show ?thesis
    using connack_failure_keeps_client [OF ok c _ _ Connect_sample_accepted [OF anon] prod.collapse [symmetric]]
    by (auto simp: NewConnection_def)
qed


subsection \<open>Duplicates\<close>

text \<open>The duplicate flag of an inbound PUBLISH is passed on to subscribers of level 0, although the flag
  has no meaning there and the protocol forbids it: the packet that \<open>deliver\<close> hands to the sink of
  such a subscriber is encoded without an error and then refused by the decoder of a conforming peer.\<close>

theorem dup_survives_downgrade:
  assumes "m_dup m" and "sinkFor b c = Some k"
    and "int (length (m_topic m)) + int (length (m_payload m)) \<le> 268435453"
  shows "deliver b c (AsLiveDelivery m) QoSAtMostOnce
      = sendPublish b (Some k) (WithQoS (AsLiveDelivery m) QoSAtMostOnce 0)
    \<and> (\<exists>bs e. Encode [] (publish_packet (WithQoS (AsLiveDelivery m) QoSAtMostOnce 0)) = Inr bs \<and> Decode bs = Inl e)"
proof -
  obtain p where p: "publish_packet (WithQoS (AsLiveDelivery m) QoSAtMostOnce 0) = PPublish p" "p_QoS p = 0" "p_DUP p"
      "p_Topic p = m_topic m" "p_Payload p = m_payload m" "\<not> p_Retain p"
    using assms(1) by (auto simp: publish_packet_def WithQoS_def AsLiveDelivery_def Let_def RequiresAcknowledgement_def)
  have flags: "publish_flags p = 8" using p by (simp add: publish_flags_def)
  have len: "length (publish_body p) \<le> maxRemainingLength"
    using p(2,4,5) assms(3) by (simp add: length_publish_body publish_length_def stringSize_def maxRemainingLength_def)
  have enc: "Encode [] (PPublish p) = Inr (packet_bytes (push_bit 4 PUBLISH OR 8) (publish_body p))"
    using publish_Encode_shape [of p "[]"] p(2) flags by simp
  have "validateFlags PUBLISH 8 \<noteq> None" by (simp add: validateFlags_def)
  then have "\<exists>e. Decode (packet_bytes (push_bit 4 PUBLISH OR 8) (publish_body p)) = Inl e"
    using Decode_packet_bytes [OF len, of "push_bit 4 PUBLISH OR 8" "[]"]
    by (auto simp: validateFlags_def IsValid_def)
  with enc p(1) assms(2) show ?thesis by (auto simp: deliver_def)
qed

lemma dup_survives_downgrade_witness:
  "deliver sample_broker ''c'' (AsLiveDelivery (AsRedelivery sample_message)) QoSAtMostOnce
      = sendPublish sample_broker (Some 0) (WithQoS (AsLiveDelivery (AsRedelivery sample_message)) QoSAtMostOnce 0)"
  by (rule dup_survives_downgrade [THEN conjunct1])
    (simp_all add: AsRedelivery_def sample_broker_def sinkFor_def sample_message_def)

end
