(* ===== verification/Listener.thy ===== *)
theory Listener
  imports Serving
begin

text \<open>
  The listener (\<open>pkg/infrastructure/transport/listener.go\<close>): its configuration, the accept loop with
  the limit on connections, the bookkeeping of live connections, and \<open>Stop\<close>. The state is the record
  \<open>listener\<close> beside the \<open>world\<close> of the broker and its connections. The loop is one goroutine: a socket that
  \<open>Accept\<close> has returned is either refused at the limit or served, and \<open>Stop\<close> may run between the two. \<open>lstep\<close> has one
  rule per action of the listener; \<open>serve_step\<close> has those of the accept loop and of the connections. Binding the socket and the
  errors of \<open>Accept\<close>, after which the loop sleeps and goes on, are choices of the environment.

  The lemmas show that the counter is exact and within the limit, that \<open>Stop\<close> closes every connection it
  tracks, and that a connection accepted just before \<open>Stop\<close> escapes it.
\<close>

subsection \<open>Configuration\<close>

record connectionConfig =
  cc_OutboundQueueSize :: int
  cc_ReadBufferSize :: int
  cc_WriteTimeout :: duration
  cc_MaxPacketSize :: int
  cc_ConnectTimeout :: duration
  cc_MaxPayloadBytes :: int

record listenerConfig =
  lc_Address :: string
  lc_MaxConnections :: int
  lc_ShutdownTimeout :: duration
  lc_Connection :: connectionConfig

definition connection_withDefaults :: "connectionConfig \<Rightarrow> connectionConfig" where
  "connection_withDefaults c =
     (let c = (if cc_OutboundQueueSize c \<le> 0 then c\<lparr>cc_OutboundQueueSize := 256\<rparr> else c);
          c = (if cc_ReadBufferSize c \<le> 0 then c\<lparr>cc_ReadBufferSize := 4096\<rparr> else c);
          c = (if cc_WriteTimeout c \<le> 0 then c\<lparr>cc_WriteTimeout := 10 * second\<rparr> else c)
      in if cc_ConnectTimeout c \<le> 0 then c\<lparr>cc_ConnectTimeout := 10 * second\<rparr> else c)"

definition listener_withDefaults :: "listenerConfig \<Rightarrow> listenerConfig" where
  "listener_withDefaults c =
     (let c = (if lc_Address c = '''' then c\<lparr>lc_Address := '':1883''\<rparr> else c);
          c = (if lc_ShutdownTimeout c \<le> 0 then c\<lparr>lc_ShutdownTimeout := 10 * second\<rparr> else c)
      in c\<lparr>lc_Connection := connection_withDefaults (lc_Connection c)\<rparr>)"

subsection \<open>The listener\<close>

record listener =
  ls_cfg :: listenerConfig
  ls_started :: bool
  ls_listening :: bool \<comment> \<open>the socket is bound and not closed\<close>
  ls_accepted :: "string option" \<comment> \<open>the remote address of a socket the accept loop holds\<close>
  ls_connections :: "conn_ref list"
  ls_connCount :: int
  ls_refused :: nat \<comment> \<open>connections closed at the limit\<close>

definition NewListener :: "listenerConfig \<Rightarrow> listener" where
  "NewListener cfg =
     \<lparr>ls_cfg = listener_withDefaults cfg, ls_started = False, ls_listening = False, ls_accepted = None,
      ls_connections = [], ls_connCount = 0, ls_refused = 0\<rparr>"

text \<open>\<open>failed\<close> is the error of \<open>net.Listen\<close>, if any.\<close>

definition listener_Start :: "listener \<Rightarrow> app_error option \<Rightarrow> app_error option \<times> listener" where
  "listener_Start l failed =
     (if ls_started l then (Some (Conflict ''listener_already_started'' ''listener is already running''), l)
      else case failed of
        Some err \<Rightarrow> (Some (Wrap KindUnavailable ''listen_failed'' (''failed to bind '' @ lc_Address (ls_cfg l)) err),
                     l\<lparr>ls_started := False\<rparr>)
      | None \<Rightarrow> (None, l\<lparr>ls_started := True, ls_listening := True\<rparr>))"

definition serveConnection :: "listener \<Rightarrow> world \<Rightarrow> string \<Rightarrow> listener \<times> world" where
  "serveConnection l w addr =
     (let k = fresh_ref (b_conns (w_broker w))
      in (l\<lparr>ls_connections := k # ls_connections l, ls_connCount := ls_connCount l + 1\<rparr>,
          acceptConn w (nat (cc_OutboundQueueSize (lc_Connection (ls_cfg l)))) addr))"

text \<open>The body of \<open>acceptLoop\<close> for a socket that \<open>Accept\<close> has returned.\<close>

definition admit :: "listener \<Rightarrow> world \<Rightarrow> string \<Rightarrow> listener \<times> world" where
  "admit l w addr =
     (let l = l\<lparr>ls_accepted := None\<rparr> in
      if lc_MaxConnections (ls_cfg l) > 0 \<and> ls_connCount l \<ge> lc_MaxConnections (ls_cfg l)
      then (l\<lparr>ls_refused := Suc (ls_refused l)\<rparr>, w)
      else serveConnection l w addr)"

text \<open>What the goroutine of a connection does when \<open>Serve\<close> has returned.\<close>

definition release :: "listener \<Rightarrow> conn_ref \<Rightarrow> listener" where
  "release l k = l\<lparr>ls_connections := removeAll k (ls_connections l), ls_connCount := ls_connCount l - 1\<rparr>"

definition closeAll :: "conn_ref list \<Rightarrow> broker \<Rightarrow> broker" where
  "closeAll ks b = foldl (\<lambda>b k. closeConn b k ReasonServerShutdown) b ks"

text \<open>\<open>Stop\<close> up to the wait, and its end, which comes when all connections are released or the timeout has passed.\<close>

definition listener_Stop :: "listener \<Rightarrow> world \<Rightarrow> listener \<times> world" where
  "listener_Stop l w =
     (if \<not> ls_started l then (l, w)
      else (l\<lparr>ls_listening := False\<rparr>, w\<lparr>w_broker := closeAll (ls_connections l) (w_broker w)\<rparr>))"

definition stopDone :: "listener \<Rightarrow> listener" where
  "stopDone l = l\<lparr>ls_started := False\<rparr>"

definition ConnectionCount :: "listener \<Rightarrow> int" where
  "ConnectionCount l = ls_connCount l"

text \<open>What runs while the listener serves: the accept loop and the goroutines of the connections.\<close>

inductive serve_step :: "authenticator \<Rightarrow> listener \<times> world \<Rightarrow> listener \<times> world \<Rightarrow> bool" for auth where
  l_accept: "ls_listening l \<Longrightarrow> ls_accepted l = None \<Longrightarrow> serve_step auth (l, w) (l\<lparr>ls_accepted := Some addr\<rparr>, w)"
| l_admit: "ls_accepted l = Some addr \<Longrightarrow> serve_step auth (l, w) (admit l w addr)"
| l_conn: "conn_step auth w w' \<Longrightarrow> serve_step auth (l, w) (l, w')"
| l_release: "k \<in> set (ls_connections l) \<Longrightarrow> mget (w_phase w) k = Some TornDown \<Longrightarrow> serve_step auth (l, w) (release l k, w)"

inductive lstep :: "authenticator \<Rightarrow> listener \<times> world \<Rightarrow> listener \<times> world \<Rightarrow> bool" for auth where
  l_start: "lstep auth (l, w) (snd (listener_Start l failed), w)"
| l_serve: "serve_step auth lw lw' \<Longrightarrow> lstep auth lw lw'"
| l_resend: "lstep auth (l, w) (l, w\<lparr>w_broker := fst (RetransmitExpired (w_broker w) timeout)\<rparr>)"
| l_stop: "lstep auth (l, w) (listener_Stop l w)"
| l_stopped: "ls_started l \<Longrightarrow> \<not> ls_listening l \<Longrightarrow> lstep auth (l, w) (stopDone l, w)"

inductive lreachable :: "authenticator \<Rightarrow> listenerConfig \<Rightarrow> config \<Rightarrow> listener \<times> world \<Rightarrow> bool" for auth lcfg cfg where
  l_init: "lreachable auth lcfg cfg (NewListener lcfg, \<lparr>w_broker = NewBroker cfg now wall, w_phase = []\<rparr>)"
| l_move: "lreachable auth lcfg cfg lw \<Longrightarrow> lstep auth lw lw' \<Longrightarrow> lreachable auth lcfg cfg lw'"

subsection \<open>The bookkeeping\<close>

definition listener_ok :: "config \<Rightarrow> listener \<times> world \<Rightarrow> bool" where
  "listener_ok cfg lw =
     (case lw of (l, w) \<Rightarrow>
        ls_connCount l = int (length (ls_connections l)) \<and> distinct (ls_connections l)
        \<and> (\<forall>k \<in> set (ls_connections l). mget (w_phase w) k \<noteq> None)
        \<and> (\<forall>k p. mget (w_phase w) k = Some p \<and> p \<noteq> TornDown \<longrightarrow> k \<in> set (ls_connections l))
        \<and> (lc_MaxConnections (ls_cfg l) > 0 \<longrightarrow> ls_connCount l \<le> lc_MaxConnections (ls_cfg l))
        \<and> world_ok cfg w)"

lemma closeAll_quiet: "quiet b (closeAll ks b)"
  unfolding closeAll_def
proof (induction ks arbitrary: b)
  case (Cons k ks)
  show ?case using quiet_trans [OF closeConn_quiet Cons.IH] by simp
qed simp

lemma conn_of_closeAll:
  "conn_of (closeAll ks b) k = (if k \<in> set ks then map_option (\<lambda>c. Close c ReasonServerShutdown) (conn_of b k) else conn_of b k)"
proof (induction ks arbitrary: b)
  case (Cons k' ks)
  have "Close (Close c r) r' = Close c r" for c r r' by (simp add: Close_def)
  with Cons show ?case by (cases "conn_of b k") (auto simp: closeAll_def conn_of_closeConn)
qed (simp add: closeAll_def)

text \<open>A torn-down connection stays torn down, and only the listener opens connections.\<close>

lemma conn_step_phase:
  assumes "conn_step auth w w'"
  shows "(mget (w_phase w') k = None) = (mget (w_phase w) k = None)"
    and "mget (w_phase w) k = Some TornDown \<Longrightarrow> mget (w_phase w') k = Some TornDown"
  using assms by (induction rule: conn_step.induct) (auto simp: runPhase_def)

lemma serve_ok:
  assumes "listener_ok cfg (l, w)" and "\<not> (lc_MaxConnections (ls_cfg l) > 0 \<and> ls_connCount l \<ge> lc_MaxConnections (ls_cfg l))"
  shows "listener_ok cfg (serveConnection l w addr)"
proof -
  let ?k = "fresh_ref (b_conns (w_broker w))"
  have w: "world_ok cfg w" using assms(1) by (simp add: listener_ok_def)
  have "mget (w_phase w) ?k = None" using w fresh_ref_new [of "b_conns (w_broker w)"] by (simp add: world_ok_def)
  then show ?thesis
    using assms accept_world [OF w]
    by (auto simp: listener_ok_def serveConnection_def Let_def acceptConn_def split: if_splits)
qed

lemma length_removeAll_distinct:
  "distinct xs \<Longrightarrow> x \<in> set xs \<Longrightarrow> int (length (removeAll x xs)) = int (length xs) - 1"
  by (induction xs) auto

lemma serve_step_ok:
  assumes "serve_step auth lw lw'" and "listener_ok cfg lw"
  shows "listener_ok cfg lw'"
  using assms
proof (induction rule: serve_step.induct)
  case (l_accept l w addr)
  then show ?case by (auto simp: listener_ok_def)
next
  case (l_admit l addr w)
  have "listener_ok cfg (l\<lparr>ls_accepted := None\<rparr>, w)" using l_admit(2) by (auto simp: listener_ok_def)
  with serve_ok [OF this] show ?case by (auto simp: admit_def Let_def) (auto simp: listener_ok_def)
next
  case (l_conn w w' l)
  have w: "world_ok cfg w" using l_conn(2) by (simp add: listener_ok_def)
  note dom = conn_step_phase(1) [OF l_conn(1)]
  have live: "k \<in> set (ls_connections l)" if "mget (w_phase w') k = Some p" "p \<noteq> TornDown" for k p
  proof -
    note p = that
    obtain q where q: "mget (w_phase w) k = Some q" using dom [of k] p(1) by auto
    then have "q \<noteq> TornDown" using conn_step_phase(2) [OF l_conn(1), of k] p by auto
    with q l_conn(2) show ?thesis by (simp add: listener_ok_def)
  qed
  have "\<forall>k \<in> set (ls_connections l). mget (w_phase w') k \<noteq> None" using l_conn(2) dom by (simp add: listener_ok_def)
  with l_conn(2) live conn_step_world [OF l_conn(1) w] show ?case unfolding listener_ok_def split_conv by blast
next
  case (l_release k l w)
  have "distinct (ls_connections l)" using l_release(3) by (simp add: listener_ok_def)
  then have "int (length (removeAll k (ls_connections l))) = int (length (ls_connections l)) - 1"
    using l_release(1) by (simp add: length_removeAll_distinct)
  with l_release show ?case by (auto simp: listener_ok_def release_def distinct_removeAll)
qed

lemma lstep_ok:
  assumes "lstep auth lw lw'" and "listener_ok cfg lw"
  shows "listener_ok cfg lw'"
  using assms
proof (induction rule: lstep.induct)
  case (l_start l w failed)
  then show ?case by (auto simp: listener_ok_def listener_Start_def split: option.split)
next
  case (l_serve lw lw')
  then show ?case by (rule serve_step_ok)
next
  case (l_resend l w timeout)
  then show ?case using quiet_world [OF _ delivers_quiet [OF RetransmitExpired_delivers], of cfg w] by (auto simp: listener_ok_def)
next
  case (l_stop l w)
  have "world_ok cfg (w\<lparr>w_broker := closeAll (ls_connections l) (w_broker w)\<rparr>)"
    by (rule quiet_world [OF _ closeAll_quiet]) (use l_stop in \<open>simp add: listener_ok_def\<close>)
  with l_stop show ?case by (auto simp: listener_ok_def listener_Stop_def)
next
  case (l_stopped l w)
  then show ?case by (auto simp: listener_ok_def stopDone_def)
qed

lemma lreachable_ok: "lreachable auth lcfg cfg lw \<Longrightarrow> listener_ok cfg lw"
proof (induction rule: lreachable.induct)
  case (l_init now wall)
  have "world_ok cfg \<lparr>w_broker = NewBroker cfg now wall, w_phase = []\<rparr>"
    by (rule reachable_world [OF reachable.init])
  then show ?case by (simp add: listener_ok_def NewListener_def)
next
  case (l_move lw lw')
  then show ?case using lstep_ok by blast
qed

subsection \<open>What the listener promises\<close>

text \<open>Claim C23. In every reachable state the connection counter is the number of the tracked connections, the limit is never
  exceeded, and every connection that is not torn down is tracked, so that shutdown can reach it.\<close>

theorem listener_invariant:
  assumes "lreachable auth lcfg cfg (l, w)"
  shows "ConnectionCount l = int (card (set (ls_connections l)))
    \<and> (lc_MaxConnections (ls_cfg l) > 0 \<longrightarrow> ConnectionCount l \<le> lc_MaxConnections (ls_cfg l))
    \<and> (\<forall>k p. mget (w_phase w) k = Some p \<and> p \<noteq> TornDown \<longrightarrow> k \<in> set (ls_connections l))"
  using lreachable_ok [OF assms] by (auto simp: listener_ok_def ConnectionCount_def distinct_card)

text \<open>A started listener whose accept loop holds a socket.\<close>

definition accepting :: "listenerConfig \<Rightarrow> listener" where
  "accepting lcfg = (NewListener lcfg)\<lparr>ls_started := True, ls_listening := True, ls_accepted := Some ''peer''\<rparr>"

definition empty_world :: "config \<Rightarrow> world" where
  "empty_world cfg = \<lparr>w_broker = NewBroker cfg 0 0, w_phase = []\<rparr>"

lemma accepting_reachable: "lreachable auth lcfg cfg (accepting lcfg, empty_world cfg)"
proof -
  have "lreachable auth lcfg cfg (snd (listener_Start (NewListener lcfg) None), empty_world cfg)"
    unfolding empty_world_def by (rule l_move [OF l_init l_start])
  from l_move [OF this l_serve [OF l_accept], of "''peer''"] show ?thesis
    by (simp add: listener_Start_def accepting_def NewListener_def)
qed

definition sample_listenerConfig :: listenerConfig where
  "sample_listenerConfig = \<lparr>lc_Address = '''', lc_MaxConnections = 1, lc_ShutdownTimeout = 0,
      lc_Connection = \<lparr>cc_OutboundQueueSize = 0, cc_ReadBufferSize = 0, cc_WriteTimeout = 0, cc_MaxPacketSize = 9,
        cc_ConnectTimeout = 0, cc_MaxPayloadBytes = 0\<rparr>\<rparr>"

definition serving :: "listener \<times> world" where
  "serving = admit (accepting sample_listenerConfig) (empty_world sample_config) ''peer''"

lemma serving_reachable: "lreachable AllowAll_Authenticate sample_listenerConfig sample_config serving"
  unfolding serving_def by (rule l_move [OF accepting_reachable l_serve [OF l_admit]]) (simp add: accepting_def)

lemma serving_state: "ls_connections (fst serving) = [0]" "ls_started (fst serving)" "conn_of (w_broker (snd serving)) 0 \<noteq> None"
  "lc_MaxConnections (ls_cfg (fst serving)) = 1"
  by (simp_all add: serving_def admit_def serveConnection_def accepting_def NewListener_def empty_world_def acceptConn_def
      NewBroker_def fresh_ref_def Let_def setConn_def conn_of_def listener_withDefaults_def sample_listenerConfig_def)

lemma listener_invariant_witness: "ConnectionCount (fst serving) = 1 \<and> ConnectionCount (fst serving) \<le> 1"
  using listener_invariant [of AllowAll_Authenticate sample_listenerConfig sample_config "fst serving" "snd serving"]
    serving_reachable serving_state by simp

text \<open>\<open>Stop\<close> closes the listening socket and every tracked connection; a connection that was still open gets the reason
  server shutdown, which is not graceful, so its will is published. Other connections and the rest of the state
  of the broker are not touched.\<close>

theorem Stop_closes_all:
  assumes "ls_started l" and "listener_Stop l w = (l', w')"
  shows "\<not> ls_listening l'
    \<and> (\<forall>k c. k \<in> set (ls_connections l) \<and> conn_of (w_broker w) k = Some c \<longrightarrow>
         (\<exists>c'. conn_of (w_broker w') k = Some c' \<and> cn_done c' \<and> (\<not> cn_done c \<longrightarrow> conn_reason c' = ReasonServerShutdown)))
    \<and> (\<forall>k. k \<notin> set (ls_connections l) \<longrightarrow> conn_of (w_broker w') k = conn_of (w_broker w) k)
    \<and> \<not> IsGraceful ReasonServerShutdown \<and> w_phase w' = w_phase w
    \<and> b_sessions (w_broker w') = b_sessions (w_broker w) \<and> b_sinks (w_broker w') = b_sinks (w_broker w)"
proof -
  have eq: "l' = l\<lparr>ls_listening := False\<rparr>" "w' = w\<lparr>w_broker := closeAll (ls_connections l) (w_broker w)\<rparr>"
    using assms by (auto simp: listener_Stop_def)
  have "b_sessions (closeAll ks b) = b_sessions b \<and> b_sinks (closeAll ks b) = b_sinks b" for ks b
    by (induction ks arbitrary: b) (simp_all add: closeAll_def)
  then show ?thesis
    by (auto simp: eq conn_of_closeAll IsGraceful_def Close_def conn_reason_def)
qed

text \<open>\<open>Stop\<close> can miss a connection: if the accept loop holds a socket that \<open>Accept\<close> has returned when \<open>Stop\<close>
  closes the tracked connections, the loop serves it afterwards. \<open>Stop\<close> has returned, the listener counts as
  stopped, and the connection is open and waits for its CONNECT.\<close>

theorem Stop_misses_accepted:
  "\<exists>l w k c. lreachable auth lcfg cfg (l, w) \<and> \<not> ls_started l \<and> \<not> ls_listening l \<and> k \<in> set (ls_connections l)
    \<and> mget (w_phase w) k = Some Awaiting \<and> conn_of (w_broker w) k = Some c \<and> \<not> cn_done c"
proof -
  define l2 where "l2 = (accepting lcfg)\<lparr>ls_listening := False, ls_started := False\<rparr>"
  have "ls_connections (accepting lcfg) = []" by (simp add: accepting_def NewListener_def)
  with l_move [OF accepting_reachable [of auth lcfg cfg] l_stop]
  have "lreachable auth lcfg cfg ((accepting lcfg)\<lparr>ls_listening := False\<rparr>, empty_world cfg)"
    by (simp add: listener_Stop_def accepting_def closeAll_def empty_world_def)
  from l_move [OF this l_stopped] have "lreachable auth lcfg cfg (l2, empty_world cfg)"
    by (simp add: stopDone_def l2_def accepting_def)
  from l_move [OF this l_serve [OF l_admit], of "''peer''"] have r: "lreachable auth lcfg cfg (admit l2 (empty_world cfg) ''peer'')"
    by (simp add: l2_def accepting_def)
  have "admit l2 (empty_world cfg) ''peer'' = serveConnection (l2\<lparr>ls_accepted := None\<rparr>) (empty_world cfg) ''peer''"
    by (auto simp: admit_def Let_def l2_def accepting_def NewListener_def)
  with r show ?thesis
    by (auto simp: serveConnection_def acceptConn_def Let_def l2_def accepting_def setConn_def conn_of_def NewConnection_def
        fresh_ref_def empty_world_def NewBroker_def intro!: exI)
qed

lemma Stop_closes_all_witness:
  "\<exists>c. conn_of (w_broker (snd (listener_Stop (fst serving) (snd serving)))) 0 = Some c \<and> cn_done c"
  using Stop_closes_all [OF serving_state(2) prod.collapse [symmetric], of "snd serving"] serving_state(1,3) by auto

end
