(* ===== verification/Settings.thy ===== *)
theory Settings
  imports Listener
begin

text \<open>
  The configuration (\<open>pkg/infrastructure/config\<close>): the document with its defaults, the overrides from the
  environment, the validation at start, the slices that the components get, and the choice of the
  authenticator (\<open>pkg/di/adapters.go\<close>). The environment is a function from names to values (the empty string for a
  variable that is not set, as \<open>os.Getenv\<close> returns it). Reading the file and parsing YAML are done by the library \<open>yaml.v3\<close>:
  their result is an argument of \<open>Load\<close>. White space is that of ASCII.

  The lemmas show that a configuration that passes the validation yields limits the broker runs with as written, that
  credentials survive the trip through the environment, and what the validation does not catch.
\<close>

subsection \<open>The document\<close>

record brokerConfig =
  bc_Name :: string
  bc_Version :: string
  bc_Address :: string
  bc_MaxConnections :: int
  bc_ConnectTimeout :: duration
  bc_WriteTimeout :: duration
  bc_ShutdownTimeout :: duration
  bc_OutboundQueueSize :: int
  bc_ReadBufferSize :: int

record adminConfig =
  ad_Enabled :: bool
  ad_Address :: string

record sessionConfig =
  sc_MaxInflight :: int
  sc_MaxQueued :: int
  sc_MaxSubscriptions :: int
  sc_RetransmitInterval :: duration
  sc_RetransmitTimeout :: duration
  sc_ResumeBatchSize :: int

record limitsConfig =
  lm_MaxPacketSize :: int
  lm_MaxPayloadSize :: int
  lm_MaxKeepAlive :: u16

record authConfig =
  au_AllowAnonymous :: bool
  au_Users :: "(string, string) gomap"

record appConfig =
  ac_Env :: string
  ac_Broker :: brokerConfig
  ac_Admin :: adminConfig
  ac_LoggerLevel :: string
  ac_Session :: sessionConfig
  ac_Limits :: limitsConfig
  ac_Auth :: authConfig

definition Default :: appConfig where
  "Default =
     \<lparr>ac_Env = ''local'',
      ac_Broker = \<lparr>bc_Name = ''gomqtt'', bc_Version = ''1.0.0'', bc_Address = '':1883'', bc_MaxConnections = 10000,
        bc_ConnectTimeout = 10 * second, bc_WriteTimeout = 10 * second, bc_ShutdownTimeout = 15 * second,
        bc_OutboundQueueSize = 256, bc_ReadBufferSize = 4096\<rparr>,
      ac_Admin = \<lparr>ad_Enabled = True, ad_Address = '':8080''\<rparr>,
      ac_LoggerLevel = ''info'',
      ac_Session = \<lparr>sc_MaxInflight = 32, sc_MaxQueued = 1000, sc_MaxSubscriptions = 512,
        sc_RetransmitInterval = 5 * second, sc_RetransmitTimeout = 30 * second, sc_ResumeBatchSize = 64\<rparr>,
      ac_Limits = \<lparr>lm_MaxPacketSize = 2 ^ 20, lm_MaxPayloadSize = 2 ^ 20, lm_MaxKeepAlive = 0\<rparr>,
      ac_Auth = \<lparr>au_AllowAnonymous = True, au_Users = []\<rparr>\<rparr>"

subsection \<open>The environment\<close>

text \<open>\<open>strings.Split(raw, ",")\<close>, \<open>strings.TrimSpace\<close> on ASCII, \<open>strings.Cut(s, ":")\<close>, \<open>strings.ToLower\<close> on ASCII.\<close>

fun splitAt :: "char \<Rightarrow> string \<Rightarrow> string list" where
  "splitAt d [] = [[]]"
| "splitAt d (c # s) =
     (if c = d then [] # splitAt d s else case splitAt d s of p # ps \<Rightarrow> (c # p) # ps | [] \<Rightarrow> [[c]])"

definition isSpace :: "char \<Rightarrow> bool" where
  "isSpace c = (c \<in> {CHR 0x09, CHR 0x0A, CHR 0x0B, CHR 0x0C, CHR 0x0D, CHR '' ''})"

definition TrimSpace :: "string \<Rightarrow> string" where
  "TrimSpace s = rev (dropWhile isSpace (rev (dropWhile isSpace s)))"

definition Cut :: "char \<Rightarrow> string \<Rightarrow> string \<times> string \<times> bool" where
  "Cut d s = (if d \<in> set s then (takeWhile (\<lambda>c. c \<noteq> d) s, tl (dropWhile (\<lambda>c. c \<noteq> d) s), True) else (s, '''', False))"

text \<open>\<open>strconv.Atoi\<close> for 64-bit integers and \<open>strconv.ParseBool\<close>; \<open>None\<close> is an error.\<close>

definition digits :: "string \<Rightarrow> int option" where
  "digits s =
     (if s = '''' \<or> \<not> list_all (\<lambda>c. 48 \<le> (of_char c :: int) \<and> (of_char c :: int) \<le> 57) s then None
      else Some (foldl (\<lambda>n c. 10 * n + (of_char c - 48)) 0 s))"

definition Atoi :: "string \<Rightarrow> int option" where
  "Atoi s =
     (let n = (case s of
                 [] \<Rightarrow> None
               | c # r \<Rightarrow> if c = CHR ''-'' then map_option uminus (digits r) else if c = CHR ''+'' then digits r else digits s)
      in case n of None \<Rightarrow> None | Some i \<Rightarrow> if - (2 ^ 63) \<le> i \<and> i < 2 ^ 63 then Some i else None)"

definition ParseBool :: "string \<Rightarrow> bool option" where
  "ParseBool s =
     (if s \<in> {''1'', ''t'', ''T'', ''TRUE'', ''true'', ''True''} then Some True
      else if s \<in> {''0'', ''f'', ''F'', ''FALSE'', ''false'', ''False''} then Some False
      else None)"

type_synonym environment = "string \<Rightarrow> string"

definition EnvPrefix :: string where "EnvPrefix = ''GOMQTT_''"

definition envString :: "environment \<Rightarrow> string \<Rightarrow> string \<Rightarrow> string" where
  "envString env target key = (let v = env (EnvPrefix @ key) in if v \<noteq> '''' then v else target)"

definition envInt :: "environment \<Rightarrow> int \<Rightarrow> string \<Rightarrow> int" where
  "envInt env target key =
     (let raw = env (EnvPrefix @ key) in
      if raw = '''' then target else case Atoi raw of Some v \<Rightarrow> v | None \<Rightarrow> target)"

definition envBool :: "environment \<Rightarrow> bool \<Rightarrow> string \<Rightarrow> bool" where
  "envBool env target key =
     (let raw = env (EnvPrefix @ key) in
      if raw = '''' then target else case ParseBool raw of Some v \<Rightarrow> v | None \<Rightarrow> target)"

definition addUser :: "(string, string) gomap \<Rightarrow> string \<Rightarrow> (string, string) gomap" where
  "addUser users pair =
     (let (name, password, ok) = Cut (CHR '':'') (TrimSpace pair)
      in if ok \<and> name \<noteq> '''' then mput name password users else users)"

definition envUsers :: "environment \<Rightarrow> (string, string) gomap \<Rightarrow> (string, string) gomap" where
  "envUsers env target =
     (let raw = env (EnvPrefix @ ''USERS'') in
      if raw = '''' then target
      else let users = foldl addUser [] (splitAt (CHR '','') raw) in if users \<noteq> [] then users else target)"

definition applyEnv :: "environment \<Rightarrow> appConfig \<Rightarrow> appConfig" where
  "applyEnv env c =
     c\<lparr>ac_Env := envString env (ac_Env c) ''ENV'',
       ac_LoggerLevel := envString env (ac_LoggerLevel c) ''LOG_LEVEL'',
       ac_Broker := (ac_Broker c)\<lparr>bc_Address := envString env (bc_Address (ac_Broker c)) ''ADDRESS'',
         bc_MaxConnections := envInt env (bc_MaxConnections (ac_Broker c)) ''MAX_CONNECTIONS''\<rparr>,
       ac_Admin := \<lparr>ad_Enabled = envBool env (ad_Enabled (ac_Admin c)) ''ADMIN_ENABLED'',
         ad_Address = envString env (ad_Address (ac_Admin c)) ''ADMIN_ADDRESS''\<rparr>,
       ac_Session := (ac_Session c)\<lparr>sc_MaxInflight := envInt env (sc_MaxInflight (ac_Session c)) ''MAX_INFLIGHT'',
         sc_MaxQueued := envInt env (sc_MaxQueued (ac_Session c)) ''MAX_QUEUED''\<rparr>,
       ac_Limits := (ac_Limits c)\<lparr>lm_MaxPacketSize := envInt env (lm_MaxPacketSize (ac_Limits c)) ''MAX_PACKET_SIZE''\<rparr>,
       ac_Auth := \<lparr>au_AllowAnonymous = envBool env (au_AllowAnonymous (ac_Auth c)) ''ALLOW_ANONYMOUS'',
         au_Users = envUsers env (au_Users (ac_Auth c))\<rparr>\<rparr>"

subsection \<open>Validation and loading\<close>

definition Validate :: "appConfig \<Rightarrow> app_error option" where
  "Validate c =
     (if bc_Address (ac_Broker c) = '''' then Some (Invalid ''invalid_config'' ''broker.address must not be empty'')
      else if ad_Enabled (ac_Admin c) \<and> ad_Address (ac_Admin c) = ''''
        then Some (Invalid ''invalid_config'' ''admin.address must not be empty when the admin API is enabled'')
      else if ad_Enabled (ac_Admin c) \<and> ad_Address (ac_Admin c) = bc_Address (ac_Broker c)
        then Some (Invalid ''invalid_config'' ''broker.address and admin.address must differ'')
      else if sc_MaxInflight (ac_Session c) \<le> 0
        then Some (Invalid ''invalid_config'' ''session.max_inflight must be greater than 0'')
      else if sc_MaxQueued (ac_Session c) < 0
        then Some (Invalid ''invalid_config'' ''session.max_queued must not be negative'')
      else if lm_MaxPacketSize (ac_Limits c) \<le> 0
        then Some (Invalid ''invalid_config'' ''limits.max_packet_size must be greater than 0'')
      else if \<not> au_AllowAnonymous (ac_Auth c) \<and> length (au_Users (ac_Auth c)) = 0
        then Some (Invalid ''invalid_config''
          ''auth.allow_anonymous is false but no users are configured; the broker would refuse every client'')
      else None)"

text \<open>\<open>file\<close> is the outcome of reading the file, \<open>parse\<close> stands for \<open>yaml.Unmarshal\<close> into a given document; both with the
  error of the library as the cause.\<close>

definition Load ::
  "string \<Rightarrow> app_error + bytes \<Rightarrow> (bytes \<Rightarrow> appConfig \<Rightarrow> app_error + appConfig) \<Rightarrow> environment \<Rightarrow> app_error + appConfig" where
  "Load path file parse env =
     andThen
       (if path = '''' then Inr Default
        else case file of
          Inl err \<Rightarrow> Inl (Internal ''config_read_failed'' (''failed to read config file '' @ path) err)
        | Inr raw \<Rightarrow>
            (case parse raw Default of
               Inl err \<Rightarrow> Inl (Internal ''config_parse_failed'' (''failed to parse config file '' @ path) err)
             | Inr cfg \<Rightarrow> Inr cfg))
       (\<lambda>cfg. let cfg = applyEnv env cfg in case Validate cfg of Some err \<Rightarrow> Inl err | None \<Rightarrow> Inr cfg)"

subsection \<open>The slices of the components\<close>

definition GetListenerConfig :: "appConfig \<Rightarrow> listenerConfig" where
  "GetListenerConfig cfg =
     \<lparr>lc_Address = bc_Address (ac_Broker cfg), lc_MaxConnections = bc_MaxConnections (ac_Broker cfg),
      lc_ShutdownTimeout = bc_ShutdownTimeout (ac_Broker cfg),
      lc_Connection = \<lparr>cc_OutboundQueueSize = bc_OutboundQueueSize (ac_Broker cfg),
        cc_ReadBufferSize = bc_ReadBufferSize (ac_Broker cfg), cc_WriteTimeout = bc_WriteTimeout (ac_Broker cfg),
        cc_MaxPacketSize = lm_MaxPacketSize (ac_Limits cfg), cc_ConnectTimeout = bc_ConnectTimeout (ac_Broker cfg),
        cc_MaxPayloadBytes = lm_MaxPayloadSize (ac_Limits cfg)\<rparr>\<rparr>"

text \<open>The settings of the services, \<open>GetConnectionConfig\<close> and \<open>GetPublishingConfig\<close> together, with the payload limit of the
  transport.\<close>

definition GetConnectionConfig :: "appConfig \<Rightarrow> config" where
  "GetConnectionConfig cfg =
     \<lparr>cf_ResumeBatchSize = sc_ResumeBatchSize (ac_Session cfg),
      cf_SessionLimits = \<lparr>li_MaxInflight = sc_MaxInflight (ac_Session cfg), li_MaxQueued = sc_MaxQueued (ac_Session cfg),
        li_MaxSubscriptions = sc_MaxSubscriptions (ac_Session cfg)\<rparr>,
      cf_MaxKeepAlive = lm_MaxKeepAlive (ac_Limits cfg), cf_AllowAnonymous = au_AllowAnonymous (ac_Auth cfg),
      cf_MaxPayloadBytes = lm_MaxPayloadSize (ac_Limits cfg),
      cf_TransportMaxPayloadBytes = cc_MaxPayloadBytes (lc_Connection (GetListenerConfig cfg))\<rparr>"

definition provideAuthenticator :: "authConfig \<Rightarrow> authenticator" where
  "provideAuthenticator cfg =
     (if length (au_Users cfg) = 0 \<and> au_AllowAnonymous cfg then AllowAll_Authenticate
      else Static_Authenticate \<lparr>sta_users = au_Users cfg, sta_allowAnonymous = au_AllowAnonymous cfg\<rparr>)"

definition ToLower :: "string \<Rightarrow> string" where
  "ToLower s = map (\<lambda>c. let n = (of_char c :: nat) in if 65 \<le> n \<and> n \<le> 90 then char_of (n + 32) else c) s"

definition IsProduction :: "appConfig \<Rightarrow> bool" where
  "IsProduction c = (ToLower (ac_Env c) \<in> {''prod'', ''production'', ''stg'', ''staging''})"

text \<open>\<open>backgroundLoops\<close> of \<open>cmd/server/server.go\<close> begins with \<open>time.NewTicker\<close>, which panics unless its argument is positive.\<close>

definition startPanics :: "appConfig \<Rightarrow> bool" where
  "startPanics cfg = (sc_RetransmitInterval (ac_Session cfg) \<le> 0)"

subsection \<open>What a loaded configuration guarantees\<close>


lemma Default_valid: "Validate Default = None"
  by (simp add: Validate_def Default_def)

definition unset :: environment where "unset name = ''''"

lemma applyEnv_unset: "applyEnv unset c = c"
  by (simp add: applyEnv_def envString_def envInt_def envBool_def envUsers_def unset_def)


text \<open>The validation does not look at the retransmission interval. A configuration with the interval 0 passes whenever it
  passes with any other interval, and the background loop of a broker started with it panics in \<open>time.NewTicker\<close>.\<close>

theorem Validate_ignores_interval:
  "Validate (cfg\<lparr>ac_Session := (ac_Session cfg)\<lparr>sc_RetransmitInterval := d\<rparr>\<rparr>) = Validate cfg
    \<and> startPanics (cfg\<lparr>ac_Session := (ac_Session cfg)\<lparr>sc_RetransmitInterval := 0\<rparr>\<rparr>)"
  by (simp add: Validate_def startPanics_def)

subsection \<open>Credentials\<close>

fun joinWith :: "char \<Rightarrow> string list \<Rightarrow> string" where
  "joinWith d [] = []"
| "joinWith d [s] = s"
| "joinWith d (s # t # ts) = s @ d # joinWith d (t # ts)"

lemma splitAt_nonempty: "splitAt d s \<noteq> []"
  by (induction s) (auto split: list.split)

lemma splitAt_append: "d \<notin> set s \<Longrightarrow> splitAt d (s @ d # r) = s # splitAt d r"
  by (induction s) auto

lemma splitAt_plain: "d \<notin> set s \<Longrightarrow> splitAt d s = [s]"
  by (induction s) auto

lemma splitAt_joinWith: "ss \<noteq> [] \<Longrightarrow> \<forall>s \<in> set ss. d \<notin> set s \<Longrightarrow> splitAt d (joinWith d ss) = ss"
  by (induction d ss rule: joinWith.induct) (auto simp: splitAt_append splitAt_plain)

lemma Cut_pair: "CHR '':'' \<notin> set n \<Longrightarrow> Cut (CHR '':'') (n @ CHR '':'' # p) = (n, p, True)"
  by (auto simp: Cut_def takeWhile_append dropWhile_append)

definition credential :: "string \<times> string \<Rightarrow> string" where
  "credential u = fst u @ CHR '':'' # snd u"

text \<open>Names and passwords that the format can carry.\<close>

definition plain_user :: "string \<times> string \<Rightarrow> bool" where
  "plain_user u =
     (fst u \<noteq> '''' \<and> CHR '':'' \<notin> set (fst u) \<and> CHR '','' \<notin> set (credential u) \<and> TrimSpace (credential u) = credential u)"

lemma addUser_credential: "plain_user u \<Longrightarrow> addUser m (credential u) = mput (fst u) (snd u) m"
  by (simp add: plain_user_def addUser_def Let_def credential_def Cut_pair)

lemma addUsers: "list_all plain_user us \<Longrightarrow> map_ok (m @ us) \<Longrightarrow> foldl addUser m (map credential us) = m @ us"
proof (induction us arbitrary: m)
  case (Cons u us)
  have "mput (fst u) (snd u) m = m @ [u]"
    using Cons.prems(2) mput_fresh [of m "fst u" "snd u"] by (auto simp: map_ok_def map_of_eq_None_iff)
  with Cons show ?case by (simp add: addUser_credential)
qed simp

text \<open>Credentials given in the environment as name and password pairs reach the table of the authenticator
  unchanged: what \<open>applyEnv\<close> reads from the rendered list is the list, for names without a colon and pairs without a comma or
  white space at their ends; passwords may contain colons. They replace the users of the file.\<close>

theorem envUsers_roundtrip:
  assumes "us \<noteq> []" and "list_all plain_user us" and "map_ok us"
    and "env (EnvPrefix @ ''USERS'') = joinWith (CHR '','') (map credential us)"
  shows "au_Users (ac_Auth (applyEnv env cfg)) = us"
proof -
  have "\<forall>s \<in> set (map credential us). CHR '','' \<notin> set s" using assms(2) by (auto simp: list_all_iff plain_user_def)
  then have split: "splitAt (CHR '','') (joinWith (CHR '','') (map credential us)) = map credential us"
    using assms(1) by (intro splitAt_joinWith) simp_all
  have "joinWith (CHR '','') (map credential us) \<noteq> ''''"
    using assms(1) by (cases us; cases "tl us") (simp_all add: credential_def)
  with split addUsers [of us "[]"] assms show ?thesis by (simp add: applyEnv_def envUsers_def)
qed

lemma envUsers_roundtrip_witness:
  "au_Users (ac_Auth (applyEnv (\<lambda>name. if name = ''GOMQTT_USERS'' then ''ann:a:b,bob:secret'' else '''') Default))
    = [(''ann'', ''a:b''), (''bob'', ''secret'')]"
  by (rule envUsers_roundtrip) (simp_all add: plain_user_def credential_def TrimSpace_def isSpace_def EnvPrefix_def map_ok_def)

text \<open>Who gets in. Without users and with anonymous access every client does, whatever name it gives. Otherwise a client
  without a user name needs anonymous access, and a client with one needs the password that the table has for it, byte
  for byte.\<close>

theorem provideAuthenticator_decides:
  "fst (provideAuthenticator cfg clientID username password) \<longleftrightarrow>
     (if au_Users cfg = [] \<and> au_AllowAnonymous cfg then True
      else if username = '''' then au_AllowAnonymous cfg
      else \<exists>pw. mget (au_Users cfg) username = Some pw \<and> bytes_of pw = password)"
  by (auto simp: provideAuthenticator_def AllowAll_Authenticate_def Static_Authenticate_def split: option.split)

end
