(* ===== verification/Admin.thy ===== *)
theory Admin
  imports Transport "HOL-Library.Char_ord" "HOL-Library.List_Lexorder"
begin

text \<open>
  The inspection API: the admin service (\<open>pkg/application/admin/service.go\<close>), the mapping of its results to responses
  (\<open>pkg/hydrator\<close>) and the mapping of errors to HTTP status codes (\<open>pkg/api/middleware/error_handler.go\<close>). The operations
  read the state of the broker. The statistics are passed on field by field. \<open>sort.Slice\<close> sorts by the byte order of strings; the keys are different, so
  the order it produces is determined. An instant counts nanoseconds from the zero time of Go, the first
  moment of the year 1 (UTC); the conversion of the uptime goes through a float64, whose rounding within a
  nanosecond of a full second is left out.

  The lemmas show that the listings contain exactly what the broker holds, in order, and that the counters agree with
  them.
\<close>

subsection \<open>Times\<close>

definition isLeap :: "int \<Rightarrow> bool" where
  "isLeap y = (y mod 4 = 0 \<and> (y mod 100 \<noteq> 0 \<or> y mod 400 = 0))"

text \<open>The year and the day of the year, from 0, of a day counted from 1 January of the year 1.\<close>

definition yearDay :: "int \<Rightarrow> int \<times> int" where
  "yearDay d =
     (let n400 = d div 146097; d = d - 146097 * n400;
          n100 = d div 36524; n100 = n100 - n100 div 4; d = d - 36524 * n100;
          n4 = d div 1461; d = d - 1461 * n4;
          n1 = d div 365; n1 = n1 - n1 div 4; d = d - 365 * n1
      in (400 * n400 + 100 * n100 + 4 * n4 + n1 + 1, d))"

fun monthLoop :: "int list \<Rightarrow> int \<Rightarrow> int \<Rightarrow> int \<times> int" where
  "monthLoop [] m d = (m, d + 1)"
| "monthLoop (l # ls) m d = (if d < l then (m, d + 1) else monthLoop ls (m + 1) (d - l))"

definition date :: "int \<Rightarrow> int \<times> int \<times> int" where
  "date days =
     (let (y, yd) = yearDay days;
          (m, d) = monthLoop [31, if isLeap y then 29 else 28, 31, 30, 31, 30, 31, 31, 30, 31, 30, 31] 1 yd
      in (y, m, d))"

definition pad :: "nat \<Rightarrow> int \<Rightarrow> string" where
  "pad n i = (let s = decimal (nat i) in replicate (n - length s) (CHR ''0'') @ s)"

definition RFC3339 :: "time \<Rightarrow> string" where
  "RFC3339 t =
     (let secs = t div second; (y, m, d) = date (secs div 86400); s = secs mod 86400
      in pad 4 y @ ''-'' @ pad 2 m @ ''-'' @ pad 2 d @ ''T'' @ pad 2 (s div 3600) @ '':'' @ pad 2 (s div 60 mod 60)
         @ '':'' @ pad 2 (s mod 60) @ ''Z'')"

definition formatTime :: "time \<Rightarrow> string" where
  "formatTime t = (if t = 0 then '''' else RFC3339 t)"

subsection \<open>The service\<close>

record brokerStats =
  st_ConnectedClients :: int
  st_Sessions :: int
  st_Subscriptions :: int
  st_DistinctFilters :: int
  st_RetainedMessages :: int
  st_InflightMessages :: int
  st_QueuedMessages :: int
  st_UptimeSeconds :: int
  st_MessagesPublished :: u64
  st_MessagesDelivered :: u64
  st_MessagesDropped :: u64

record clientInfo =
  ci_ClientID :: string
  ci_RemoteAddr :: string
  ci_Username :: string
  ci_CleanSession :: bool
  ci_KeepAlive :: u16
  ci_ConnectedAt :: string
  ci_LastActivityAt :: string
  ci_Subscriptions :: int
  ci_Inflight :: int
  ci_Queued :: int

record subscriptionInfo =
  si_ClientID :: string
  si_Filter :: string
  si_RequestedQoS :: byte
  si_GrantedQoS :: byte
  si_Downgraded :: bool
  si_CreatedAt :: string

record retainedInfo =
  ri_Topic :: string
  ri_QoS :: byte
  ri_PayloadSize :: int
  ri_CreatedAt :: string

definition countSession :: "brokerStats \<Rightarrow> session \<Rightarrow> brokerStats" where
  "countSession stats s =
     stats\<lparr>st_InflightMessages := st_InflightMessages stats + int (InflightCount s),
           st_QueuedMessages := st_QueuedMessages stats + int (QueuedCount s)\<rparr>"

definition Stats :: "broker \<Rightarrow> time \<Rightarrow> brokerStats" where
  "Stats b startedAt =
     (let (published, delivered, dropped) = Counters b;
          stats = \<lparr>st_ConnectedClients = int (registry_Count (b_registry b)), st_Sessions = int (session_Count (b_sessions b)),
            st_Subscriptions = index_SubscriptionCount (b_index b), st_DistinctFilters = int (FilterCount (b_index b)),
            st_RetainedMessages = int (retained_Count (b_retained b)), st_InflightMessages = 0, st_QueuedMessages = 0,
            st_UptimeSeconds = sgn (time_sub (b_now b) startedAt) * (\<bar>time_sub (b_now b) startedAt\<bar> div second),
            st_MessagesPublished = published, st_MessagesDelivered = delivered, st_MessagesDropped = dropped\<rparr>
      in foldl countSession stats (session_All (b_sessions b)))"

definition clientInfo_of :: "broker \<Rightarrow> client \<Rightarrow> clientInfo" where
  "clientInfo_of b client =
     (let info = \<lparr>ci_ClientID = cl_id client, ci_RemoteAddr = cl_remoteAddr client, ci_Username = cl_username client,
            ci_CleanSession = cl_cleanSession client, ci_KeepAlive = ka_seconds (cl_keepAlive client),
            ci_ConnectedAt = formatTime (cl_connectedAt client), ci_LastActivityAt = formatTime (cl_lastActivityAt client),
            ci_Subscriptions = 0, ci_Inflight = 0, ci_Queued = 0\<rparr>
      in case session_Get (b_sessions b) (cl_id client) of
           None \<Rightarrow> info
         | Some session \<Rightarrow> info\<lparr>ci_Subscriptions := int (SubscriptionCount session), ci_Inflight := int (InflightCount session),
                                ci_Queued := int (QueuedCount session)\<rparr>)"

definition admin_Clients :: "broker \<Rightarrow> clientInfo list" where
  "admin_Clients b =
     sort_key ci_ClientID (map (clientInfo_of b) (List.map_filter (mget (b_clients b)) (registry_All (b_registry b))))"

definition subscriptionInfo_of :: "subscription \<Rightarrow> subscriptionInfo" where
  "subscriptionInfo_of sub =
     \<lparr>si_ClientID = sub_clientID sub, si_Filter = sub_filter sub, si_RequestedQoS = sub_requestedQoS sub,
      si_GrantedQoS = sub_grantedQoS sub, si_Downgraded = WasDowngraded sub, si_CreatedAt = formatTime (sub_createdAt sub)\<rparr>"

definition admin_Subscriptions :: "broker \<Rightarrow> subscriptionInfo list" where
  "admin_Subscriptions b =
     sort_key (\<lambda>i. (si_ClientID i, si_Filter i))
       (concat (map (\<lambda>session. map subscriptionInfo_of (Subscriptions session)) (session_All (b_sessions b))))"

definition retainedInfo_of :: "message \<Rightarrow> retainedInfo" where
  "retainedInfo_of m =
     \<lparr>ri_Topic = m_topic m, ri_QoS = m_qos m, ri_PayloadSize = int (PayloadSize m), ri_CreatedAt = formatTime (m_createdAt m)\<rparr>"

definition RetainedTopics :: "broker \<Rightarrow> retainedInfo list" where
  "RetainedTopics b = sort_key ri_Topic (map retainedInfo_of (retained_All (b_retained b)))"

subsection \<open>Responses\<close>

record clientRes =
  cR_ClientID :: string
  cR_RemoteAddr :: string
  cR_Username :: string
  cR_CleanSession :: bool
  cR_KeepAlive :: u16
  cR_ConnectedAt :: string
  cR_LastActivityAt :: string
  cR_Subscriptions :: int
  cR_Inflight :: int
  cR_Queued :: int

record subscriptionRes =
  sR_ClientID :: string
  sR_Filter :: string
  sR_RequestedQoS :: byte
  sR_GrantedQoS :: byte
  sR_Downgraded :: bool
  sR_CreatedAt :: string

record retainedRes =
  rR_Topic :: string
  rR_QoS :: byte
  rR_PayloadSize :: int
  rR_CreatedAt :: string

record listClientsRes =
  lC_Clients :: "clientRes list"
  lC_Total :: int

record listSubscriptionsRes =
  lS_Subscriptions :: "subscriptionRes list"
  lS_Total :: int

record listRetainedRes =
  lR_Retained :: "retainedRes list"
  lR_Total :: int

definition ToListClientsRes :: "clientInfo list \<Rightarrow> listClientsRes" where
  "ToListClientsRes clients =
     (let out = map (\<lambda>c. \<lparr>cR_ClientID = ci_ClientID c, cR_RemoteAddr = ci_RemoteAddr c, cR_Username = ci_Username c,
            cR_CleanSession = ci_CleanSession c, cR_KeepAlive = ci_KeepAlive c, cR_ConnectedAt = ci_ConnectedAt c,
            cR_LastActivityAt = ci_LastActivityAt c, cR_Subscriptions = ci_Subscriptions c, cR_Inflight = ci_Inflight c,
            cR_Queued = ci_Queued c\<rparr>) clients
      in \<lparr>lC_Clients = out, lC_Total = int (length out)\<rparr>)"

definition ToListSubscriptionsRes :: "subscriptionInfo list \<Rightarrow> listSubscriptionsRes" where
  "ToListSubscriptionsRes subs =
     (let out = map (\<lambda>s. \<lparr>sR_ClientID = si_ClientID s, sR_Filter = si_Filter s, sR_RequestedQoS = si_RequestedQoS s,
            sR_GrantedQoS = si_GrantedQoS s, sR_Downgraded = si_Downgraded s, sR_CreatedAt = si_CreatedAt s\<rparr>) subs
      in \<lparr>lS_Subscriptions = out, lS_Total = int (length out)\<rparr>)"

definition ToListRetainedRes :: "retainedInfo list \<Rightarrow> listRetainedRes" where
  "ToListRetainedRes retained =
     (let out = map (\<lambda>r. \<lparr>rR_Topic = ri_Topic r, rR_QoS = ri_QoS r, rR_PayloadSize = ri_PayloadSize r,
            rR_CreatedAt = ri_CreatedAt r\<rparr>) retained
      in \<lparr>lR_Retained = out, lR_Total = int (length out)\<rparr>)"

definition statusFor :: "kind \<Rightarrow> nat" where
  "statusFor kind =
     (case kind of
        KindInvalidArgument \<Rightarrow> 400
      | KindNotFound \<Rightarrow> 404
      | KindConflict \<Rightarrow> 409
      | KindUnavailable \<Rightarrow> 503
      | _ \<Rightarrow> 500)"

subsection \<open>Dates\<close>

definition daysBefore :: "int \<Rightarrow> int" where
  "daysBefore y = 365 * (y - 1) + (y - 1) div 4 - (y - 1) div 100 + (y - 1) div 400"

lemma div_bounds: "0 < n \<Longrightarrow> n * (x div n) \<le> x \<and> x < n * (x div n) + n" for x n :: int
  using pos_mod_bound [of n x] pos_mod_sign [of n x] mult_div_mod_eq [of n x] by linarith

text \<open>One digit of the mixed radix: at most 3, though the quotient may be 4 on the last day.\<close>

lemma capped_quotient:
  fixes d n :: int
  assumes "0 \<le> d" and "d \<le> 4 * n" and "0 < n" and "q = d div n - d div n div 4"
  shows "0 \<le> q" "q \<le> 3" "0 \<le> d - n * q" "d - n * q \<le> n" "q \<noteq> 3 \<Longrightarrow> d - n * q < n"
proof -
  note b = div_bounds [OF assms(3), of d]
  have "0 \<le> d div n" using assms(1,3) by (simp add: pos_imp_zdiv_nonneg_iff)
  moreover have "d div n \<le> 4" using zdiv_mono1 [OF assms(2,3)] assms(3) by simp
  ultimately consider "d div n = 0" | "d div n = 1" | "d div n = 2" | "d div n = 3" | "d div n = 4" by linarith
  then show "0 \<le> q" "q \<le> 3" "0 \<le> d - n * q" "d - n * q \<le> n" "q \<noteq> 3 \<Longrightarrow> d - n * q < n"
    using b assms(2,3) by (cases; simp add: assms(4))+
qed

lemma isLeap_at:
  fixes a b c :: int
  assumes "y = 4 * (100 * a + 25 * b + c + 1)" and "0 \<le> c" and "c \<le> 24" and "c = 24 \<Longrightarrow> b = 3"
  shows "isLeap y"
proof (cases "c = 24")
  case True
  with assms have "y = (a + 1) * 400" by simp
  then show ?thesis by (simp add: isLeap_def)
next
  case False
  then have "y mod 100 = 4 * (c + 1)"
    using assms(2,3) by (intro int_mod_pos_eq [where q = "4 * a + b"]) (simp_all add: assms(1))
  with assms(1,2) show ?thesis by (simp add: isLeap_def)
qed

text \<open>The date is the right one: the day lies in the year, at the right distance from its first day.\<close>

lemma yearDay_correct:
  assumes "yearDay d = (y, yd)"
  shows "0 \<le> yd \<and> yd < (if isLeap y then 366 else 365) \<and> daysBefore y + yd = d"
proof -
  define a where "a = d div 146097"
  define d1 where "d1 = d - 146097 * a"
  define b where "b = d1 div 36524 - d1 div 36524 div 4"
  define d2 where "d2 = d1 - 36524 * b"
  define c where "c = d2 div 1461"
  define d3 where "d3 = d2 - 1461 * c"
  define e where "e = d3 div 365 - d3 div 365 div 4"
  have y: "y = 400 * a + 100 * b + 4 * c + e + 1" "yd = d3 - 365 * e"
    using assms unfolding yearDay_def Let_def a_def [symmetric] d1_def [symmetric] b_def [symmetric] d2_def [symmetric]
      c_def [symmetric] d3_def [symmetric] e_def [symmetric] by simp_all
  have d1: "0 \<le> d1" "d1 \<le> 4 * 36524" using div_bounds [of 146097 d] by (simp_all add: d1_def a_def)
  note b = capped_quotient [OF d1 zero_less_numeral b_def, folded d2_def]
  have c: "0 \<le> c" "1461 * c \<le> d2" "d2 < 1461 * c + 1461"
    using b(3) div_bounds [of 1461 d2] by (simp_all add: c_def pos_imp_zdiv_nonneg_iff)
  then have d3: "0 \<le> d3" "d3 \<le> 4 * 365" "c \<le> 24" using b(4) unfolding d3_def by linarith+
  note e = capped_quotient [OF d3(1,2) zero_less_numeral e_def]
  have low: "0 \<le> 4 * c + e" "4 * c + e < 100" using c(1) d3(3) e(1,2) by linarith+
  have "(y - 1) div 4 = 100 * a + 25 * b + c" using e(1,2) by (intro int_div_pos_eq [where r = e]) (simp_all add: y)
  moreover have "(y - 1) div 100 = 4 * a + b" using low by (intro int_div_pos_eq [where r = "4 * c + e"]) (simp_all add: y)
  moreover have "(y - 1) div 400 = a"
    using low b(1,2) by (intro int_div_pos_eq [where r = "100 * b + 4 * c + e"]) (simp_all add: y)
  ultimately have "daysBefore y + yd = d" by (simp add: daysBefore_def y d3_def d2_def d1_def)
  moreover have "isLeap y" if "yd = 365"
  proof (rule isLeap_at [of _ a b c])
    have "e = 3" using e(5) that y(2) by fastforce
    then show "y = 4 * (100 * a + 25 * b + c + 1)" by (simp add: y)
    show "b = 3" if "c = 24"
    proof -
      have "d2 = 36524" using \<open>yd = 365\<close> that \<open>e = 3\<close> by (simp add: y d3_def)
      then show ?thesis using b(5) by force
    qed
  qed (use c(1) d3(3) in simp_all)
  ultimately show ?thesis using e(3,4) y(2) by (cases "yd = 365") simp_all
qed

subsection \<open>Listings\<close>

lemma sort_key_strict: "distinct (map f xs) \<Longrightarrow> sorted_wrt (<) (map f (sort_key f xs))"
proof -
  assume "distinct (map f xs)"
  then have "distinct (map f (sort_key f xs))"
    by (metis mset_eq_imp_distinct_iff mset_map mset_sort)
  then show ?thesis by (simp add: strict_sorted_iff)
qed

text \<open>The pairs of client and filter that the sessions hold, before sorting.\<close>

definition held_pairs :: "session_store \<Rightarrow> (client_id \<times> topic_filter) list" where
  "held_pairs ss = concat (map (\<lambda>(c, s). map (\<lambda>(f, sub). (c, f)) (se_subscriptions s)) ss)"

definition unsorted :: "session_store \<Rightarrow> subscriptionInfo list" where
  "unsorted ss = concat (map (\<lambda>session. map subscriptionInfo_of (Subscriptions session)) (session_All ss))"

lemma store_ok_Cons: "store_ok ((c, s) # ss) \<Longrightarrow> store_ok ss \<and> se_clientID s = c \<and> session_ok s \<and> c \<notin> fst ` set ss"
  by (simp add: store_ok_def map_ok_def)

lemma session_keys:
  assumes "session_ok s" and "se_clientID s = c"
  shows "map (\<lambda>i. (si_ClientID i, si_Filter i)) (map subscriptionInfo_of (Subscriptions s)) = map (\<lambda>(f, sub). (c, f)) (se_subscriptions s)"
  using assms by (auto simp: session_ok_def Subscriptions_def subscriptionInfo_of_def subscription_ok_def list_all_iff)

lemma unsorted_keys: "store_ok ss \<Longrightarrow> map (\<lambda>i. (si_ClientID i, si_Filter i)) (unsorted ss) = held_pairs ss"
proof (induction ss)
  case (Cons x ss)
  obtain c s where x: "x = (c, s)" by force
  with Cons store_ok_Cons [of c s ss] session_keys [of s c] show ?case
    by (simp add: unsorted_def held_pairs_def session_All_def)
qed (simp add: unsorted_def held_pairs_def session_All_def)

lemma set_held_pairs: "(c, f) \<in> set (held_pairs ss) \<Longrightarrow> c \<in> fst ` set ss"
  by (force simp: held_pairs_def)

lemma distinct_held_pairs: "store_ok ss \<Longrightarrow> distinct (held_pairs ss)"
proof (induction ss)
  case (Cons x ss)
  obtain c s where x: "x = (c, s)" by force
  note ok = store_ok_Cons [OF Cons.prems [unfolded x]]
  have "distinct (map fst (se_subscriptions s))" using ok by (simp add: session_ok_def map_ok_def)
  then have "distinct (map (\<lambda>(f, sub). (c, f)) (se_subscriptions s))"
    by (simp add: distinct_map inj_on_def split_def)
  with Cons.IH ok set_held_pairs [of _ _ ss] show ?case by (force simp: x held_pairs_def)
qed (simp add: held_pairs_def)

lemma mem_unsorted:
  assumes "store_ok ss"
  shows "(\<exists>i \<in> set (unsorted ss). si_ClientID i = c \<and> si_Filter i = f \<and> si_GrantedQoS i = q) \<longleftrightarrow>
    (\<exists>s sub. session_Get ss c = Some s \<and> session_Subscription s f = Some sub \<and> sub_grantedQoS sub = q)"
proof -
  have get: "(d, s) \<in> set ss \<longleftrightarrow> session_Get ss d = Some s" for d s
    using assms map_ok_in_set [of ss] by (auto simp: store_ok_def session_Get_def)
  have sub: "(g, sub) \<in> set (se_subscriptions s) \<longleftrightarrow> session_Subscription s g = Some sub" "(g, sub) \<in> set (se_subscriptions s) \<Longrightarrow> sub_filter sub = g \<and> sub_clientID sub = d"
    if "(d, s) \<in> set ss" for d s g sub
    using assms that map_ok_in_set [of "se_subscriptions s"]
    by (auto simp: store_ok_def session_ok_def session_Subscription_def list_all_iff subscription_ok_def)
  have mem: "i \<in> set (unsorted ss) \<longleftrightarrow>
      (\<exists>d s g sub. (d, s) \<in> set ss \<and> (g, sub) \<in> set (se_subscriptions s) \<and> i = subscriptionInfo_of sub)" for i
    by (force simp: unsorted_def session_All_def Subscriptions_def)
  show ?thesis
  proof
    assume "\<exists>i \<in> set (unsorted ss). si_ClientID i = c \<and> si_Filter i = f \<and> si_GrantedQoS i = q"
    then obtain d s g sub where i: "(d, s) \<in> set ss" "(g, sub) \<in> set (se_subscriptions s)"
      "sub_clientID sub = c" "sub_filter sub = f" "sub_grantedQoS sub = q"
      using mem by (auto simp: subscriptionInfo_of_def)
    then have "d = c" "g = f" using sub(2) [OF i(1,2)] by auto
    with i get sub(1) [OF i(1)] show "\<exists>s sub. session_Get ss c = Some s \<and> session_Subscription s f = Some sub \<and> sub_grantedQoS sub = q"
      by blast
  next
    assume "\<exists>s sub. session_Get ss c = Some s \<and> session_Subscription s f = Some sub \<and> sub_grantedQoS sub = q"
    then obtain s sub where h: "(c, s) \<in> set ss" "session_Subscription s f = Some sub" "sub_grantedQoS sub = q"
      using get by blast
    then have p: "(f, sub) \<in> set (se_subscriptions s)" using sub(1) [OF h(1)] by blast
    then have "subscriptionInfo_of sub \<in> set (unsorted ss)" using mem h(1) by blast
    with sub(2) [OF h(1) p] h(3) show "\<exists>i \<in> set (unsorted ss). si_ClientID i = c \<and> si_Filter i = f \<and> si_GrantedQoS i = q"
      by (auto simp: subscriptionInfo_of_def intro!: bexI [of _ "subscriptionInfo_of sub"])
  qed
qed

lemma admin_Subscriptions_sorted:
  "admin_Subscriptions b = sort_key (\<lambda>i. (si_ClientID i, si_Filter i)) (unsorted (b_sessions b))"
  by (simp add: admin_Subscriptions_def unsorted_def)

lemma mem_admin_Subscriptions:
  assumes "broker_ok b"
  shows "(\<exists>i \<in> set (admin_Subscriptions b). si_ClientID i = c \<and> si_Filter i = f \<and> si_GrantedQoS i = q)
    \<longleftrightarrow> granted (b_index b) f c = Some q"
proof -
  have ok: "store_ok (b_sessions b)" and eq: "granted (b_index b) f c = subscribed b c f"
    using assms unfolding broker_ok_def state_ok_def by blast+
  show ?thesis
    using mem_unsorted [OF ok, of c f q] by (auto simp: admin_Subscriptions_sorted eq subscribed_def split: option.split)
qed

lemma Stats_counts:
  "st_Subscriptions (Stats b startedAt) = index_SubscriptionCount (b_index b)"
  "st_RetainedMessages (Stats b startedAt) = int (retained_Count (b_retained b))"
  "st_InflightMessages (Stats b startedAt) = (\<Sum>s \<leftarrow> session_All (b_sessions b). int (InflightCount s))"
proof -
  have "st_Subscriptions (foldl countSession st ss) = st_Subscriptions st
    \<and> st_RetainedMessages (foldl countSession st ss) = st_RetainedMessages st
    \<and> st_InflightMessages (foldl countSession st ss) = st_InflightMessages st + (\<Sum>s \<leftarrow> ss. int (InflightCount s))" for st ss
    by (induction ss arbitrary: st) (simp_all add: countSession_def)
  then show "st_Subscriptions (Stats b startedAt) = index_SubscriptionCount (b_index b)"
    "st_RetainedMessages (Stats b startedAt) = int (retained_Count (b_retained b))"
    "st_InflightMessages (Stats b startedAt) = (\<Sum>s \<leftarrow> session_All (b_sessions b). int (InflightCount s))"
    by (simp_all add: Stats_def Counters_def)
qed

text \<open>Claim C29. The subscription listing is what the broker delivers by: it has an entry for a client and a filter with a granted level
  exactly when the index grants the client this level for this filter; it is strictly sorted by client and filter, so no
  pair occurs twice; and the counter of the statistics, which the index maintains on its own, is the total of the response.\<close>

theorem Subscriptions_listing:
  assumes "broker_ok b"
  shows "sorted_wrt (<) (map (\<lambda>i. (si_ClientID i, si_Filter i)) (admin_Subscriptions b))
    \<and> (\<forall>c f q. (\<exists>i \<in> set (admin_Subscriptions b). si_ClientID i = c \<and> si_Filter i = f \<and> si_GrantedQoS i = q)
         \<longleftrightarrow> granted (b_index b) f c = Some q)
    \<and> st_Subscriptions (Stats b startedAt) = lS_Total (ToListSubscriptionsRes (admin_Subscriptions b))"
proof (intro conjI allI)
  let ?key = "\<lambda>i. (si_ClientID i, si_Filter i)"
  have ok: "store_ok (b_sessions b)" "index_ok (b_index b)" using assms by (simp_all add: broker_ok_def state_ok_def)
  note keys = unsorted_keys [OF ok(1)] distinct_held_pairs [OF ok(1)]
  show "sorted_wrt (<) (map ?key (admin_Subscriptions b))"
    unfolding admin_Subscriptions_sorted by (rule sort_key_strict) (simp add: keys)
  show "(\<exists>i \<in> set (admin_Subscriptions b). si_ClientID i = c \<and> si_Filter i = f \<and> si_GrantedQoS i = q)
      \<longleftrightarrow> granted (b_index b) f c = Some q" for c f q by (rule mem_admin_Subscriptions [OF assms])
  then have "(c, f) \<in> set (held_pairs (b_sessions b)) \<longleftrightarrow> granted (b_index b) f c \<noteq> None" for c f
    unfolding keys(1) [symmetric] by (force simp: admin_Subscriptions_sorted)
  then have "holders (b_index b) = prod.swap ` set (held_pairs (b_sessions b))" by (force simp: holders_def)
  then have "card (holders (b_index b)) = length (held_pairs (b_sessions b))"
    using keys(2) by (simp add: card_image distinct_card)
  also have "\<dots> = length (admin_Subscriptions b)"
    unfolding admin_Subscriptions_sorted keys(1) [symmetric] by simp
  finally show "st_Subscriptions (Stats b startedAt) = lS_Total (ToListSubscriptionsRes (admin_Subscriptions b))"
    using ok(2) by (simp add: ToListSubscriptionsRes_def Stats_counts index_SubscriptionCount_def index_ok_def)
qed

lemma Subscriptions_listing_witness:
  "st_Subscriptions (Stats sample_broker 0) = lS_Total (ToListSubscriptionsRes (admin_Subscriptions sample_broker))"
  using Subscriptions_listing [OF sample_broker_ok] by blast

text \<open>The listing of retained messages has one entry per topic that holds a message, strictly sorted by topic, with the
  level and the size of the message, and never an empty one; the counter of the statistics is its length.\<close>

theorem RetainedTopics_listing:
  assumes "broker_ok b"
  shows "sorted_wrt (<) (map ri_Topic (RetainedTopics b))
    \<and> (\<forall>t. (\<exists>i \<in> set (RetainedTopics b). ri_Topic i = t) \<longleftrightarrow> mget (b_retained b) t \<noteq> None)
    \<and> (\<forall>i \<in> set (RetainedTopics b). \<exists>m. mget (b_retained b) (ri_Topic i) = Some m \<and> ri_QoS i = m_qos m
         \<and> ri_PayloadSize i = int (length (m_payload m)) \<and> 0 < ri_PayloadSize i)
    \<and> st_RetainedMessages (Stats b startedAt) = int (length (RetainedTopics b))"
proof -
  have ok: "map_ok (b_retained b)" and filed: "\<And>t m. mget (b_retained b) t = Some m \<Longrightarrow> m_topic m = t \<and> \<not> IsEmpty m"
    using assms unfolding broker_ok_def state_ok_def by blast+
  have topics: "map m_topic (retained_All (b_retained b)) = map fst (b_retained b)"
    using filed map_ok_in_set [OF ok] by (auto simp: retained_All_def)
  then have keys: "map ri_Topic (map retainedInfo_of (retained_All (b_retained b))) = map fst (b_retained b)"
    by (simp add: comp_def retainedInfo_of_def)
  then have "sorted_wrt (<) (map ri_Topic (RetainedTopics b))"
    unfolding RetainedTopics_def using ok by (intro sort_key_strict) (simp add: map_ok_def)
  moreover have "(\<exists>i \<in> set (RetainedTopics b). ri_Topic i = t) \<longleftrightarrow> mget (b_retained b) t \<noteq> None" for t
  proof -
    have "ri_Topic ` set (RetainedTopics b) = set (map fst (b_retained b))"
      unfolding RetainedTopics_def keys [symmetric] by (simp add: image_image)
    then have "t \<in> ri_Topic ` set (RetainedTopics b) \<longleftrightarrow> mget (b_retained b) t \<noteq> None"
      by (simp add: map_of_eq_None_iff del: not_None_eq)
    then show ?thesis by blast
  qed
  moreover have "\<exists>m. mget (b_retained b) (ri_Topic i) = Some m \<and> ri_QoS i = m_qos m
         \<and> ri_PayloadSize i = int (length (m_payload m)) \<and> 0 < ri_PayloadSize i" if "i \<in> set (RetainedTopics b)" for i
  proof -
    from that have "\<exists>t m. (t, m) \<in> set (b_retained b) \<and> i = retainedInfo_of m"
      by (auto simp: RetainedTopics_def retained_All_def) blast
    then obtain t m where "mget (b_retained b) t = Some m" "i = retainedInfo_of m" using map_ok_in_set [OF ok] by blast
    with filed [of t m] show ?thesis by (auto simp: retainedInfo_of_def PayloadSize_def IsEmpty_def)
  qed
  ultimately show ?thesis
    by (simp add: Stats_counts retained_Count_def RetainedTopics_def retained_All_def)
qed

lemma RetainedTopics_listing_witness:
  "st_RetainedMessages (Stats retaining_broker 0) = int (length (RetainedTopics retaining_broker))"
  using RetainedTopics_listing [OF retaining_broker_ok] by blast

end
