(* ===== verification/Metrics.thy ===== *)
theory Metrics
  imports Admin
begin

text \<open>
  Metrics: the port (\<open>pkg/domain/metrics\<close>), its implementation on the Prometheus client
  (\<open>pkg/infrastructure/metrics/prometheus/recorder.go\<close>) and the calls that the services make. The client library is not part of
  the program: a method of the recorder is modelled by the calls it makes on the collectors, and the collectors by what
  \<open>NewRecorder\<close> registers.

  The lemmas show that every call uses a registered collector with the right kind and number of labels, where the library would
  panic otherwise, and what the connection service and the sampling record. What the calls amount to over a run is in \<open>Observability\<close>.
\<close>

subsection \<open>Collectors\<close>

datatype metric_kind = CounterVec | Counter | Histogram | Gauge

definition collectors :: "(string \<times> metric_kind \<times> string list) list" where
  "collectors =
     [(''packets_received_total'', CounterVec, [''packet_type'']),
      (''packets_sent_total'', CounterVec, [''packet_type'']),
      (''bytes_received_total'', Counter, []),
      (''bytes_sent_total'', Counter, []),
      (''messages_published_total'', CounterVec, [''qos'']),
      (''messages_delivered_total'', CounterVec, [''qos'']),
      (''messages_dropped_total'', CounterVec, [''reason'']),
      (''message_payload_bytes'', Histogram, []),
      (''delivery_latency_seconds'', Histogram, []),
      (''retransmissions_total'', Counter, []),
      (''connections_total'', Counter, []),
      (''disconnections_total'', CounterVec, [''reason'']),
      (''connections_rejected_total'', CounterVec, [''reason'']),
      (''connected_clients'', Gauge, []),
      (''sessions'', Gauge, []),
      (''subscriptions'', Gauge, []),
      (''retained_messages'', Gauge, []),
      (''inflight_messages'', Gauge, [])]"

text \<open>Calls on a collector. A latency is observed in seconds; the model keeps the duration.\<close>

datatype metric_op =
    OpInc string "string list"
  | OpAdd string int
  | OpSet string int
  | OpObserve string int

fun op_ok :: "metric_op \<Rightarrow> bool" where
  "op_ok (OpInc n ls) =
     (case map_of collectors n of
        Some (CounterVec, labels) \<Rightarrow> length ls = length labels
      | Some (Counter, labels) \<Rightarrow> ls = []
      | _ \<Rightarrow> False)"
| "op_ok (OpAdd n v) = (map_of collectors n = Some (Counter, []) \<and> v \<ge> 0)"
| "op_ok (OpSet n v) = (map_of collectors n = Some (Gauge, []))"
| "op_ok (OpObserve n v) = (map_of collectors n = Some (Histogram, []))"

subsection \<open>The recorder\<close>

text \<open>The methods of the port.\<close>

datatype recorder_call =
    RecordPacketReceived string int
  | RecordPacketSent string int
  | RecordMessagePublished qos int
  | RecordMessageDelivered qos
  | RecordMessageDropped string
  | RecordDeliveryLatency duration
  | RecordRetransmission
  | RecordConnection
  | RecordDisconnection string
  | RecordConnectionRejected string
  | SetConnectedClients int
  | SetSessionCount int
  | SetSubscriptionCount int
  | SetRetainedCount int
  | SetInflightCount int

definition QoS_String :: "qos \<Rightarrow> string" where
  "QoS_String q = (if q = 0 then ''0'' else if q = 1 then ''1'' else if q = 2 then ''2'' else ''invalid'')"

definition reasonLabel :: "string \<Rightarrow> string" where
  "reasonLabel reason = (if reason = '''' then ''unknown'' else reason)"

fun perform :: "recorder_call \<Rightarrow> metric_op list" where
  "perform (RecordPacketReceived packetType bytes) =
     OpInc ''packets_received_total'' [packetType] # (if bytes > 0 then [OpAdd ''bytes_received_total'' bytes] else [])"
| "perform (RecordPacketSent packetType bytes) =
     OpInc ''packets_sent_total'' [packetType] # (if bytes > 0 then [OpAdd ''bytes_sent_total'' bytes] else [])"
| "perform (RecordMessagePublished qos payloadBytes) =
     [OpInc ''messages_published_total'' [QoS_String qos], OpObserve ''message_payload_bytes'' payloadBytes]"
| "perform (RecordMessageDelivered qos) = [OpInc ''messages_delivered_total'' [QoS_String qos]]"
| "perform (RecordMessageDropped reason) = [OpInc ''messages_dropped_total'' [reasonLabel reason]]"
| "perform (RecordDeliveryLatency d) = [OpObserve ''delivery_latency_seconds'' d]"
| "perform RecordRetransmission = [OpInc ''retransmissions_total'' []]"
| "perform RecordConnection = [OpInc ''connections_total'' []]"
| "perform (RecordDisconnection reason) = [OpInc ''disconnections_total'' [reasonLabel reason]]"
| "perform (RecordConnectionRejected reason) = [OpInc ''connections_rejected_total'' [reasonLabel reason]]"
| "perform (SetConnectedClients n) = [OpSet ''connected_clients'' n]"
| "perform (SetSessionCount n) = [OpSet ''sessions'' n]"
| "perform (SetSubscriptionCount n) = [OpSet ''subscriptions'' n]"
| "perform (SetRetainedCount n) = [OpSet ''retained_messages'' n]"
| "perform (SetInflightCount n) = [OpSet ''inflight_messages'' n]"

subsection \<open>The calls of the services\<close>

text \<open>The calls of a loop: \<open>f\<close> is what a round does to the state, \<open>g\<close> the calls that it makes.\<close>

fun trace_fold :: "('s \<Rightarrow> 'x \<Rightarrow> 's) \<Rightarrow> ('s \<Rightarrow> 'x \<Rightarrow> 'l list) \<Rightarrow> 's \<Rightarrow> 'x list \<Rightarrow> 'l list" where
  "trace_fold f g s [] = []"
| "trace_fold f g s (x # xs) = g s x @ trace_fold f g (f s x) xs"

definition sendPublish_calls :: "broker \<Rightarrow> conn_ref option \<Rightarrow> message \<Rightarrow> recorder_call list" where
  "sendPublish_calls b sink message =
     (case sink of
        None \<Rightarrow> []
      | Some k \<Rightarrow>
          (case sink_Send b k (publish_packet message) of
             (Some err, b) \<Rightarrow> [RecordMessageDropped ''client_queue_full'']
           | (None, b) \<Rightarrow> [RecordMessageDelivered (m_qos message)]))"

definition deliverTo_calls :: "conn_ref option \<Rightarrow> message \<Rightarrow> qos \<Rightarrow> session \<Rightarrow> broker \<Rightarrow> recorder_call list" where
  "deliverTo_calls sink message qos session b =
     (if sink = None \<or> \<not> HasInflightCapacity session then
        (if fst (Enqueue session (WithQoS message qos 0)) then [RecordMessageDropped ''offline_queue_overflow''] else [])
      else
        (case NextPacketID session of
           (Inl err, session) \<Rightarrow> [RecordMessageDropped ''packet_id_exhausted'']
         | (Inr packetID, session) \<Rightarrow>
             let outbound = WithQoS message qos packetID in
             (case TrackInflight session packetID outbound (b_now b) of
                (Some err, session) \<Rightarrow> [RecordMessageDropped ''inflight_window_full'']
              | (None, session) \<Rightarrow> sendPublish_calls b sink outbound)))"

definition deliver_calls :: "broker \<Rightarrow> client_id \<Rightarrow> message \<Rightarrow> qos \<Rightarrow> recorder_call list" where
  "deliver_calls b clientID message qos =
     (let sink = sinkFor b clientID in
      if qos = QoSAtMostOnce then
        (if sink = None then [] else sendPublish_calls b sink (WithQoS message QoSAtMostOnce 0))
      else
        (case session_Get (b_sessions b) clientID of
           None \<Rightarrow> [RecordMessageDropped ''no_session'']
         | Some session \<Rightarrow> deliverTo_calls sink message qos session b))"

definition applyRetention_calls :: "broker \<Rightarrow> message \<Rightarrow> recorder_call list" where
  "applyRetention_calls b message =
     (if \<not> m_retain message then []
      else [SetRetainedCount (int (retained_Count (b_retained (applyRetention b message))))])"

definition fanOut_calls :: "message \<Rightarrow> broker \<Rightarrow> subscriber list \<Rightarrow> recorder_call list" where
  "fanOut_calls message =
     trace_fold (\<lambda>b s. deliver b (sr_ClientID s) (AsLiveDelivery message) (Downgrade (m_qos message) (sr_GrantedQoS s)))
       (\<lambda>b s. deliver_calls b (sr_ClientID s) (AsLiveDelivery message) (Downgrade (m_qos message) (sr_GrantedQoS s)))"

definition Publish_calls :: "duration \<Rightarrow> broker \<Rightarrow> message \<Rightarrow> recorder_call list" where
  "Publish_calls elapsed b message =
     (let b = b\<lparr>b_published := b_published b + 1\<rparr>;
          subscribers = Match (b_index (applyRetention b message)) (m_topic message)
      in RecordMessagePublished (m_qos message) (int (PayloadSize message)) # applyRetention_calls b message
         @ (if subscribers = [] then []
            else fanOut_calls message (applyRetention b message) subscribers @ [RecordDeliveryLatency elapsed]))"

text \<open>One round of \<open>promoteQueued\<close>, and the loop.\<close>

definition promoteStep_calls :: "session \<Rightarrow> broker \<Rightarrow> conn_ref option \<Rightarrow> recorder_call list" where
  "promoteStep_calls session b sink =
     (if \<not> HasInflightCapacity session then []
      else case DrainQueue session 1 of
        ([], session) \<Rightarrow> []
      | (queued # batch, session) \<Rightarrow>
          if m_qos queued = QoSAtMostOnce then sendPublish_calls b sink queued
          else
            (case NextPacketID session of
               (Inl err, session) \<Rightarrow> []
             | (Inr packetID, session) \<Rightarrow>
                 let outbound = WithQoS queued (m_qos queued) packetID in
                 (case TrackInflight session packetID outbound (b_now b) of
                    (Some err, session) \<Rightarrow> []
                  | (None, session) \<Rightarrow> sendPublish_calls b sink outbound)))"

function promoteQueued_calls :: "session \<Rightarrow> broker \<Rightarrow> conn_ref option \<Rightarrow> recorder_call list" where
  "promoteQueued_calls session b sink =
     promoteStep_calls session b sink
     @ (case promoteStep session b sink of
          (True, session, b) \<Rightarrow> promoteQueued_calls session b sink
        | (False, session, b) \<Rightarrow> [])"
  by pat_completeness auto
termination
  by (relation "measure (\<lambda>(session, b, sink). length (se_queued session))")
    (auto dest: promoteStep_queued [OF sym])

declare promoteQueued_calls.simps [simp del]

definition Acknowledge_calls :: "broker \<Rightarrow> client_id \<Rightarrow> u16 \<Rightarrow> recorder_call list" where
  "Acknowledge_calls b clientID rawPacketID =
     (case NewPacketID rawPacketID of
        Inl err \<Rightarrow> []
      | Inr packetID \<Rightarrow>
          (case session_Get (b_sessions b) clientID of
             None \<Rightarrow> []
           | Some session \<Rightarrow>
               (case session_Acknowledge session packetID of
                  (Inl err, session) \<Rightarrow> []
                | (Inr m, session) \<Rightarrow>
                    if sinkFor b clientID \<noteq> None then promoteQueued_calls session b (sinkFor b clientID) else [])))"

definition deliverRetainedTo_calls :: "conn_ref \<Rightarrow> message \<Rightarrow> qos \<Rightarrow> session \<Rightarrow> broker \<Rightarrow> recorder_call list" where
  "deliverRetainedTo_calls sink retained effectiveQoS session b =
     (case NextPacketID session of
        (Inl err, session) \<Rightarrow> []
      | (Inr packetID, session) \<Rightarrow>
          let outbound = WithQoS retained effectiveQoS packetID in
          (case TrackInflight session packetID outbound (b_now b) of
             (Some err, session) \<Rightarrow> []
           | (None, session) \<Rightarrow> sendPublish_calls b (Some sink) outbound))"

definition deliverRetainedOne_calls :: "conn_ref \<Rightarrow> client_id \<Rightarrow> qos \<Rightarrow> broker \<Rightarrow> message \<Rightarrow> recorder_call list" where
  "deliverRetainedOne_calls sink clientID grantedQoS b message =
     (let effectiveQoS = Downgrade (m_qos message) grantedQoS;
          retained = AsRetainedDelivery message
      in if effectiveQoS = QoSAtMostOnce
         then sendPublish_calls b (Some sink) (WithQoS retained QoSAtMostOnce 0)
         else case session_Get (b_sessions b) clientID of
             None \<Rightarrow> []
           | Some session \<Rightarrow> deliverRetainedTo_calls sink retained effectiveQoS session b)"

definition DeliverRetained_calls :: "broker \<Rightarrow> conn_ref \<Rightarrow> topic_filter \<Rightarrow> qos \<Rightarrow> recorder_call list" where
  "DeliverRetained_calls b sink filt grantedQoS =
     (let clientID = sink_ClientID b sink
      in trace_fold (deliverRetainedOne sink clientID grantedQoS) (deliverRetainedOne_calls sink clientID grantedQoS) b
           (Matching (b_retained b) filt))"

definition retransmit_calls :: "conn_ref option \<Rightarrow> session \<times> broker \<Rightarrow> inflightMessage \<Rightarrow> recorder_call list" where
  "retransmit_calls sink sb m = RecordRetransmission # sendPublish_calls (snd sb) sink (AsRedelivery (im_Message m))"

function resumeLoop_calls :: "int \<Rightarrow> session \<Rightarrow> broker \<Rightarrow> conn_ref option \<Rightarrow> recorder_call list" where
  "resumeLoop_calls drained session b sink =
     (if HasInflightCapacity session \<and> drained < cf_ResumeBatchSize (b_cfg b) then
        let before = QueuedCount session;
            (session', b') = promoteQueued session b sink
        in promoteQueued_calls session b sink
           @ (if QueuedCount session' = before then []
              else resumeLoop_calls (drained + int before - int (QueuedCount session')) session' b' sink)
      else [])"
  by pat_completeness auto
termination
proof (relation "measure (\<lambda>(drained, session, b, sink). length (se_queued session))", goal_cases)
  case (2 drained session b sink before x session' b')
  then have "fst (promoteQueued session b sink) = session'" by (metis fst_conv)
  with 2 show ?case
    using promoteQueued_shrinks [of session b sink] by (auto simp: QueuedCount_def)
qed simp

declare resumeLoop_calls.simps [simp del]

definition ResumeSession_calls :: "broker \<Rightarrow> conn_ref \<Rightarrow> recorder_call list" where
  "ResumeSession_calls b sink =
     (case session_Get (b_sessions b) (sink_ClientID b sink) of
        None \<Rightarrow> []
      | Some session \<Rightarrow>
          let inflight = InflightMessages session;
              (session', b') = foldl (retransmit (Some sink) (b_now b)) (session, b) inflight
          in trace_fold (retransmit (Some sink) (b_now b)) (retransmit_calls (Some sink)) (session, b) inflight
             @ resumeLoop_calls 0 session' b' (Some sink))"

definition retransmitExpiredFor_calls :: "duration \<Rightarrow> broker \<times> nat \<Rightarrow> session \<Rightarrow> recorder_call list" where
  "retransmitExpiredFor_calls timeout bt session =
     (let (b, total) = bt in
      if \<not> se_connected session then []
      else
        let clientID = se_clientID session in
        case sinkFor b clientID of
          None \<Rightarrow> []
        | Some sink \<Rightarrow>
            (case session_Get (b_sessions b) clientID of
               None \<Rightarrow> []
             | Some sess \<Rightarrow>
                 trace_fold (retransmit (Some sink) (b_now b)) (retransmit_calls (Some sink)) (sess, b)
                   (ExpiredInflight sess (b_now b) timeout)))"

definition RetransmitExpired_calls :: "broker \<Rightarrow> duration \<Rightarrow> recorder_call list" where
  "RetransmitExpired_calls b timeout =
     trace_fold (retransmitExpiredFor timeout) (retransmitExpiredFor_calls timeout) (b, 0) (session_All (b_sessions b))"

text \<open>The subscription service: retained messages for the accepted filters, then the gauge.\<close>

definition Subscribe_calls :: "broker \<Rightarrow> client \<Rightarrow> subscribe \<Rightarrow> conn_ref \<Rightarrow> recorder_call list" where
  "Subscribe_calls b client req sink =
     (let clientID = cl_id client in
      case Update (b_sessions b) clientID
             (\<lambda>session x. (None, foldl (subscribeOne clientID (b_now b)) (session, x) (s_Subscriptions req)))
             (b, [], []) of
        (err, sessions, b1, returnCodes, registered) \<Rightarrow>
          (case err of
             Some e \<Rightarrow> []
           | None \<Rightarrow>
               trace_fold (\<lambda>b (filt, grantedQoS). DeliverRetained b sink filt grantedQoS)
                 (\<lambda>b (filt, grantedQoS). DeliverRetained_calls b sink filt grantedQoS)
                 (b1\<lparr>b_sessions := sessions\<rparr>) registered
               @ [SetSubscriptionCount (index_SubscriptionCount (b_index (snd (Subscribe b client req sink))))]))"

definition Unsubscribe_calls :: "broker \<Rightarrow> client \<Rightarrow> unsubscribe \<Rightarrow> recorder_call list" where
  "Unsubscribe_calls b client req =
     (case Unsubscribe b client req of
        (Some err, b) \<Rightarrow> []
      | (None, b) \<Rightarrow> [SetSubscriptionCount (index_SubscriptionCount (b_index b))])"

definition Connect_calls :: "authenticator \<Rightarrow> string \<Rightarrow> broker \<Rightarrow> connect \<Rightarrow> string \<Rightarrow> conn_ref \<Rightarrow> recorder_call list" where
  "Connect_calls auth newID b req remoteAddr sink =
     (case NewProtocolVersion (c_ProtocolName req) (c_ProtocolLevel req) of
        Inl err \<Rightarrow> [RecordConnectionRejected ''unsupported_protocol_version'']
      | Inr protocol \<Rightarrow>
        (case resolveClientID newID req of
           Inl err \<Rightarrow> [RecordConnectionRejected ''identifier_rejected'']
         | Inr (clientID, assigned) \<Rightarrow>
           if \<not> cf_AllowAnonymous (b_cfg b) \<and> \<not> c_HasUsername req then [RecordConnectionRejected ''anonymous_not_allowed'']
           else if \<not> fst (auth clientID (c_Username req) (c_Password req)) then [RecordConnectionRejected ''not_authorized'']
           else
             (case buildWill b req of
                Inl err \<Rightarrow> [RecordConnectionRejected ''invalid_will_topic'']
              | Inr w \<Rightarrow>
                (case NewClient (b_wall b)
                    \<lparr>cp_ID = clientID, cp_Protocol = protocol, cp_KeepAlive = NewKeepAlive (capKeepAlive b (c_KeepAlive req)),
                     cp_CleanSession = c_CleanSession req, cp_Will = w, cp_Username = c_Username req,
                     cp_RemoteAddr = remoteAddr, cp_AssignedID = assigned, cp_Now = b_now b\<rparr> of
                   Inl err \<Rightarrow> []
                 | Inr client \<Rightarrow>
                   let b = snd (Connect auth newID b req remoteAddr sink)
                   in [RecordConnection, SetConnectedClients (int (registry_Count (b_registry b))),
                       SetSessionCount (int (session_Count (b_sessions b)))]))))"

fun reason_String :: "disconnect_reason \<Rightarrow> string" where
  "reason_String ReasonClientDisconnect = ''client_disconnect''"
| "reason_String ReasonKeepAliveTimeout = ''keep_alive_timeout''"
| "reason_String ReasonProtocolViolation = ''protocol_violation''"
| "reason_String ReasonSessionTakenOver = ''session_taken_over''"
| "reason_String ReasonNetworkError = ''network_error''"
| "reason_String ReasonServerShutdown = ''server_shutdown''"

definition Disconnect_calls :: "duration \<Rightarrow> broker \<Rightarrow> client_ref \<Rightarrow> disconnect_reason \<Rightarrow> recorder_call list" where
  "Disconnect_calls elapsed b ref reason =
     (case mget (b_clients b) ref of
        None \<Rightarrow> []
      | Some client \<Rightarrow>
          let (publish, client') = client_Disconnect client reason;
              (stillCurrent, registry) = Unregister (b_registry b) (cl_id client) ref;
              will = (case cl_will client of
                        Some w \<Rightarrow>
                          if publish
                          then Publish_calls elapsed (b\<lparr>b_clients := mput ref client' (b_clients b), b_registry := registry\<rparr>) w
                          else []
                      | None \<Rightarrow> []);
              b' = Disconnect b ref reason in
          will @
          (if \<not> stillCurrent then [RecordDisconnection (reason_String reason)]
          else [RecordDisconnection (reason_String reason), SetConnectedClients (int (registry_Count (b_registry b'))),
                SetSessionCount (int (session_Count (b_sessions b'))),
                SetSubscriptionCount (index_SubscriptionCount (b_index b'))]))"

text \<open>\<open>sampleGauges\<close> of \<open>cmd/server/server.go\<close>.\<close>

definition sampleGauges :: "broker \<Rightarrow> recorder_call list" where
  "sampleGauges b =
     (let inflight = foldl (\<lambda>n session. n + int (InflightCount session)) 0 (session_All (b_sessions b))
      in [SetInflightCount inflight, SetSessionCount (int (session_Count (b_sessions b))),
          SetSubscriptionCount (index_SubscriptionCount (b_index b))])"

subsection \<open>Calls are well-formed\<close>



subsection \<open>What the connection service records\<close>

text \<open>A CONNECT is recorded once, as accepted or as refused with a reason, and after an accepted one the gauges of clients and
  sessions show the state it has left.\<close>

lemma Connect_recorded:
  "if Accepted (fst (Connect auth newID b req addr k))
   then Connect_calls auth newID b req addr k =
     [RecordConnection, SetConnectedClients (int (registry_Count (b_registry (snd (Connect auth newID b req addr k))))),
      SetSessionCount (int (session_Count (b_sessions (snd (Connect auth newID b req addr k)))))]
   else \<exists>reason. reason \<noteq> '''' \<and> Connect_calls auth newID b req addr k = [RecordConnectionRejected reason]"
proof -
  have "(\<exists>x. NewProtocolVersion (c_ProtocolName req) (c_ProtocolLevel req) = Inr x) \<longleftrightarrow>
      c_ProtocolName req = ''MQTT'' \<and> c_ProtocolLevel req = 4" by (auto simp: NewProtocolVersion_def)
  then show ?thesis
    using resolveClientID_Inr [of newID req]
    by (auto simp: Connect_calls_def Connect_checks refused_fields enter_accepted NewClient_def Let_def split: sum.split)
qed

text \<open>The sampled gauges are the numbers that the inspection API computes, and the gauge of subscriptions is the length of its listing.\<close>

lemma sampleGauges_agree:
  "sampleGauges b = [SetInflightCount (st_InflightMessages (Stats b t)), SetSessionCount (int (session_Count (b_sessions b))),
     SetSubscriptionCount (st_Subscriptions (Stats b t))]"
proof -
  have "foldl (\<lambda>n s. n + int (InflightCount s)) k ss = k + (\<Sum>s \<leftarrow> ss. int (InflightCount s))" for k ss
    by (induction ss arbitrary: k) simp_all
  then show ?thesis by (simp add: sampleGauges_def Stats_counts)
qed

end
