(* ===== verification/Runtime_Support.thy ===== *)
theory Runtime_Support
  imports Settings
begin

text \<open>
  The shared packages below the services: identifiers (\<open>pkg/common/uid\<close>), the fake clock (\<open>pkg/common/clock\<close>), the levels and fields that the logger carries in a context
  (\<open>pkg/common/logger\<close>) and the error chain as the HTTP layer sees it (\<open>pkg/common/errors\<close>).

  The fields of a context are a Go slice that \<open>WithFields\<close> extends with \<open>append\<close>, so contexts share arrays: slices are
  modelled with their array, length and capacity in an explicit store. How much \<open>append\<close> grows an array is an argument.

  The lemmas show that generated identifiers are pairwise different and always acceptable as client identifiers, that a
  context has the fields of its parent followed by its own, that deriving a context leaves its ancestors as they were, and that
  errors are logged at every level.
\<close>

subsection \<open>Identifiers\<close>

definition hexTable :: "nat \<Rightarrow> char" where
  "hexTable d = (if d < 10 then char_of (48 + d) else char_of (87 + d))"

definition EncodeToString :: "bytes \<Rightarrow> string" where
  "EncodeToString src = concat (map (\<lambda>b. [hexTable (unat (drop_bit 4 b)), hexTable (unat (b AND 0x0F))]) src)"

text \<open>\<open>buf\<close> is what \<open>rand.Read\<close> has written, \<open>None\<close> if it failed; the result \<open>None\<close> is a panic.\<close>

definition RandomGenerator_New :: "bytes option \<Rightarrow> string option" where
  "RandomGenerator_New buf = (case buf of None \<Rightarrow> None | Some buf \<Rightarrow> Some (EncodeToString buf))"

record sequenceGenerator =
  sg_prefix :: string
  sg_n :: nat

definition NewSequenceGenerator :: "string \<Rightarrow> sequenceGenerator" where
  "NewSequenceGenerator prefix = \<lparr>sg_prefix = prefix, sg_n = 0\<rparr>"

definition SequenceGenerator_New :: "sequenceGenerator \<Rightarrow> string \<times> sequenceGenerator" where
  "SequenceGenerator_New s =
     (let s = s\<lparr>sg_n := sg_n s + 1\<rparr> in (sg_prefix s @ ''-'' @ decimal (sg_n s), s))"

subsection \<open>The clock of the tests\<close>

text \<open>\<open>UTC\<close> changes the location in which an instant is printed, not the instant.\<close>

record fakeClock = fk_current :: time

definition NewFake :: "time \<Rightarrow> fakeClock" where
  "NewFake at = \<lparr>fk_current = at\<rparr>"

definition Fake_Now :: "fakeClock \<Rightarrow> time" where
  "Fake_Now f = fk_current f"

definition Fake_Advance :: "fakeClock \<Rightarrow> duration \<Rightarrow> fakeClock" where
  "Fake_Advance f d = f\<lparr>fk_current := fk_current f + d\<rparr>"

definition Fake_Set :: "fakeClock \<Rightarrow> time \<Rightarrow> fakeClock" where
  "Fake_Set f at = f\<lparr>fk_current := at\<rparr>"

subsection \<open>Errors\<close>

text \<open>An error value of Go: an \<open>*AppError\<close>, an error of another kind, or one that wraps another (\<open>fmt.Errorf\<close> with \<open>%w\<close>).\<close>

datatype go_error = AppErr app_error | PlainErr string | WrappedErr string go_error

fun errors_As :: "go_error \<Rightarrow> app_error option" where
  "errors_As (AppErr e) = Some e"
| "errors_As (PlainErr s) = None"
| "errors_As (WrappedErr s e) = errors_As e"

definition KindOf :: "go_error \<Rightarrow> kind" where
  "KindOf err = (case errors_As err of Some e \<Rightarrow> err_kind e | None \<Rightarrow> KindInternal)"

subsection \<open>Slices and contexts\<close>

record log_field =
  lf_Key :: string
  lf_Value :: string

definition zero_field :: log_field where "zero_field = \<lparr>lf_Key = '''', lf_Value = ''''\<rparr>"

record slice =
  sl_array :: nat
  sl_len :: nat

type_synonym arrays = "log_field list list"

definition cap :: "arrays \<Rightarrow> slice \<Rightarrow> nat" where
  "cap st s = length (st ! sl_array s)"

definition elements :: "arrays \<Rightarrow> slice option \<Rightarrow> log_field list" where
  "elements st s = (case s of None \<Rightarrow> [] | Some s \<Rightarrow> take (sl_len s) (st ! sl_array s))"

text \<open>\<open>append\<close> writes into the array of the slice if there is room behind its length, and otherwise into a new array whose
  length \<open>grow\<close> gives.\<close>

definition append_fields :: "(nat \<Rightarrow> nat) \<Rightarrow> arrays \<Rightarrow> slice option \<Rightarrow> log_field list \<Rightarrow> slice option \<times> arrays" where
  "append_fields grow st s fs =
     (if fs = [] then (s, st)
      else
        let old = elements st s; n = length old + length fs;
            new = old @ fs @ replicate (grow n - n) zero_field
        in case s of
             None \<Rightarrow> (Some \<lparr>sl_array = length st, sl_len = n\<rparr>, st @ [new])
           | Some s \<Rightarrow>
               if n \<le> cap st s
               then (Some (s\<lparr>sl_len := n\<rparr>), st[sl_array s := old @ fs @ drop n (st ! sl_array s)])
               else (Some \<lparr>sl_array = length st, sl_len = n\<rparr>, st @ [new]))"

text \<open>A context, as far as the logger is concerned: the value under \<open>ctxKey\<close>.\<close>

type_synonym log_context = "slice option"

definition FromContext :: "arrays \<Rightarrow> log_context \<Rightarrow> log_field list" where
  "FromContext st ctx = elements st ctx"

definition WithFields :: "(nat \<Rightarrow> nat) \<Rightarrow> arrays \<Rightarrow> log_context \<Rightarrow> log_field list \<Rightarrow> log_context \<times> arrays" where
  "WithFields grow st ctx fs = append_fields grow st ctx fs"

datatype log_level = LevelDebug | LevelInfo | LevelWarn | LevelError

definition parseLevel :: "string \<Rightarrow> log_level" where
  "parseLevel level =
     (let l = ToLower (TrimSpace level) in
      if l = ''debug'' then LevelDebug
      else if l = ''warn'' \<or> l = ''warning'' then LevelWarn
      else if l = ''error'' then LevelError
      else LevelInfo)"

text \<open>The order of the levels, by which the handler that \<open>NewSlogLogger\<close> configures drops records.\<close>

fun severity :: "log_level \<Rightarrow> int" where
  "severity LevelDebug = -4"
| "severity LevelInfo = 0"
| "severity LevelWarn = 4"
| "severity LevelError = 8"

record log_record =
  rec_level :: log_level
  rec_msg :: string
  rec_attrs :: "log_field list"

definition log_attrs :: "log_field list \<Rightarrow> string option \<Rightarrow> log_field list \<Rightarrow> log_field list" where
  "log_attrs ctx err fs =
     ctx @ fs @ (case err of None \<Rightarrow> [] | Some e \<Rightarrow> [\<lparr>lf_Key = ''error'', lf_Value = e\<rparr>])"

definition logger_log :: "log_field list \<Rightarrow> log_level \<Rightarrow> string \<Rightarrow> string option \<Rightarrow> log_field list \<Rightarrow> log_record" where
  "logger_log ctx level msg err fs = \<lparr>rec_level = level, rec_msg = msg, rec_attrs = log_attrs ctx err fs\<rparr>"

text \<open>What a logger of the configured level writes of it.\<close>

definition isEmitted :: "string \<Rightarrow> log_record \<Rightarrow> bool" where
  "isEmitted configured r = (severity (rec_level r) \<ge> severity (parseLevel configured))"

text \<open>Errors are never dropped, whatever the configured level; warnings are dropped only at level error.\<close>

lemma errors_always_emitted: "isEmitted configured (logger_log ctx LevelError msg err fs)"
  by (cases "parseLevel configured") (simp_all add: isEmitted_def logger_log_def)

lemma warnings_emitted: "isEmitted configured (logger_log ctx LevelWarn msg err fs) \<longleftrightarrow> parseLevel configured \<noteq> LevelError"
  by (cases "parseLevel configured") (simp_all add: isEmitted_def logger_log_def)

subsection \<open>Identifiers are acceptable and different\<close>

lemma of_char_hexTable: "d < 16 \<Longrightarrow> (of_char (hexTable d) :: nat) = (if d < 10 then 48 + d else 87 + d)"
  by (simp add: hexTable_def)

lemma hexTable_char: "d < 16 \<Longrightarrow> of_char (hexTable d) < (128 :: nat) \<and> hexTable d \<noteq> CHR 0x00"
  using of_char_hexTable [of d] by (auto split: if_splits)

lemma hexTable_inject:
  assumes "c < 16" and "d < 16"
  shows "hexTable c = hexTable d \<longleftrightarrow> c = d"
proof
  assume "hexTable c = hexTable d"
  then have "(if c < 10 then 48 + c else 87 + c) = (if d < 10 then 48 + d else 87 + d)"
    using of_char_hexTable [OF assms(1)] of_char_hexTable [OF assms(2)] by simp
  then show "c = d" using assms by (auto split: if_splits)
qed simp

lemma nibbles: "unat (drop_bit 4 (b :: byte)) < 16" "unat (b AND 0x0F) < 16"
  "unat b = 16 * unat (drop_bit 4 b) + unat (b AND 0x0F)"
proof -
  have m: "b AND 0x0F = take_bit 4 b" by (simp add: take_bit_eq_mask mask_numeral)
  have d: "unat (drop_bit 4 b) = unat b div 16" by (simp add: drop_bit_eq_div unat_div)
  have t: "unat (b AND 0x0F) = unat b mod 16" unfolding m by (simp add: take_bit_eq_mod unat_mod)
  have "unat b < 256" using unsigned_less [of b] by simp
  then show "unat (drop_bit 4 b) < 16" unfolding d by (intro less_mult_imp_div_less) simp
  show "unat (b AND 0x0F) < 16" by (simp add: t)
  show "unat b = 16 * unat (drop_bit 4 b) + unat (b AND 0x0F)" unfolding d t by simp
qed

lemma EncodeToString_inject: "length a = length b \<Longrightarrow> EncodeToString a = EncodeToString b \<longleftrightarrow> a = b"
proof (induction a b rule: list_induct2)
  case (Cons x xs y ys)
  have "x = y" if "unat (drop_bit 4 x) = unat (drop_bit 4 y)" "unat (x AND 0x0F) = unat (y AND 0x0F)"
    using that nibbles(3) [of x] nibbles(3) [of y] by (simp add: word_unat_eq_iff)
  with Cons show ?case by (auto simp: EncodeToString_def hexTable_inject nibbles(1,2))
qed (simp add: EncodeToString_def)

lemma EncodeToString_chars:
  "length (EncodeToString bs) = 2 * length bs"
  "c \<in> set (EncodeToString bs) \<Longrightarrow> of_char c < (128 :: nat) \<and> c \<noteq> CHR 0x00"
  using hexTable_char nibbles(1,2) by (induction bs) (auto simp: EncodeToString_def)

lemma ascii_string_valid:
  assumes "\<forall>c \<in> set s. of_char c < (128 :: nat)"
  shows "utf8_Valid (bytes_of s)"
  using assms by (intro utf8_Valid_ascii) (auto simp: bytes_of_def word_less_nat_alt unat_of_char)

text \<open>A client that connects with an empty identifier and a clean session is never refused because of the identifier the
  broker makes up for it: whatever 16 bytes the random source gives, the identifier is valid, and two different draws give different
  identifiers.\<close>

theorem generated_id_accepted:
  assumes "length buf = 16" and "length buf' = 16" and "c_ClientID req = ''''" and "c_CleanSession req"
  shows "\<exists>newID newID'. RandomGenerator_New (Some buf) = Some newID \<and> RandomGenerator_New (Some buf') = Some newID'
    \<and> resolveClientID newID req = Inr (''auto-'' @ newID, True) \<and> (newID = newID' \<longleftrightarrow> buf = buf')"
proof -
  let ?id = "''auto-'' @ EncodeToString buf"
  have chars: "\<forall>c \<in> set ?id. of_char c < (128 :: nat) \<and> c \<noteq> CHR 0x00"
    using EncodeToString_chars(2) [of _ buf] by auto
  then have "utf8_Valid (bytes_of ?id)" "\<not> ContainsNull ?id"
    using ascii_string_valid [of ?id] by (auto simp: ContainsNull_def)
  moreover have "length ?id \<le> MaxClientIDLength" by (simp add: EncodeToString_chars(1) assms(1) MaxClientIDLength_def)
  ultimately have "NewClientID ?id = Inr ?id" unfolding NewClientID_def by simp
  then have "resolveClientID (EncodeToString buf) req = Inr (?id, True)"
    using assms(3,4) by (simp add: resolveClientID_def mapInr_def)
  then show ?thesis using EncodeToString_inject [of buf buf'] assms(1,2) by (simp add: RandomGenerator_New_def)
qed

lemma generated_id_accepted_witness:
  "\<exists>newID. RandomGenerator_New (Some (replicate 16 7)) = Some newID
    \<and> resolveClientID newID (sample_connect\<lparr>c_ClientID := '''', c_CleanSession := True\<rparr>) = Inr (''auto-'' @ newID, True)"
  using generated_id_accepted [of "replicate 16 7" "replicate 16 7" "sample_connect\<lparr>c_ClientID := '''', c_CleanSession := True\<rparr>"] by auto

text \<open>The generator of the tests never repeats an identifier.\<close>

lemma digit_char_inject: "c < 10 \<Longrightarrow> d < 10 \<Longrightarrow> digit_char c = digit_char d \<longleftrightarrow> c = d"
proof -
  assume "c < 10" "d < 10"
  then have "(of_char (digit_char c) :: nat) = 48 + c" "(of_char (digit_char d) :: nat) = 48 + d" by (simp_all add: digit_char_def)
  then show ?thesis by (metis add_left_imp_eq)
qed

lemma decimal_nonempty: "decimal n \<noteq> []"
  by (subst decimal.simps) simp

lemma decimal_inject: "decimal m = decimal n \<longleftrightarrow> m = n"
proof (induction m arbitrary: n rule: decimal.induct)
  case (1 m)
  show ?case
  proof (cases "m < 10 \<or> n < 10")
    case True
    then show ?thesis
      using decimal_nonempty decimal_nonempty [symmetric] by (subst (1 2) decimal.simps) (auto simp: digit_char_inject)
  next
    case False
    then have "decimal m = decimal n \<longleftrightarrow> m div 10 = n div 10 \<and> m mod 10 = n mod 10"
      using "1.IH" by (subst (1 2) decimal.simps) (auto simp: digit_char_inject)
    then show ?thesis by (metis div_mult_mod_eq)
  qed
qed

lemma upt_shift: "a < b \<Longrightarrow> [a..<b] = a # map Suc [a..<b - 1]"
  by (simp add: upt_conv_Cons map_Suc_upt)

fun sequence_ids :: "nat \<Rightarrow> sequenceGenerator \<Rightarrow> string list" where
  "sequence_ids 0 s = []"
| "sequence_ids (Suc k) s = (let (i, s) = SequenceGenerator_New s in i # sequence_ids k s)"

lemma sequence_ids_eq: "sequence_ids k s = map (\<lambda>i. sg_prefix s @ ''-'' @ decimal (sg_n s + i)) [1..<Suc k]"
proof (induction k arbitrary: s)
  case (Suc k)
  have "[1..<Suc (Suc k)] = 1 # map Suc [1..<Suc k]" using upt_shift [of 1 "Suc (Suc k)"] by simp
  then show ?case by (simp add: SequenceGenerator_New_def Let_def Suc del: upt_Suc)
qed simp

lemma sequence_ids_distinct: "distinct (sequence_ids k s)"
  by (simp add: sequence_ids_eq distinct_map inj_on_def decimal_inject del: upt_Suc)

subsection \<open>Contexts keep their fields\<close>

definition slice_ok :: "arrays \<Rightarrow> slice option \<Rightarrow> bool" where
  "slice_ok st s = (case s of None \<Rightarrow> True | Some s \<Rightarrow> sl_array s < length st \<and> sl_len s \<le> length (st ! sl_array s))"

text \<open>Appending to \<open>s\<close> does not reach into the part of its array that \<open>t\<close> shows.\<close>

definition apart :: "slice option \<Rightarrow> slice option \<Rightarrow> bool" where
  "apart s t = (case (s, t) of (Some s, Some t) \<Rightarrow> sl_array s = sl_array t \<longrightarrow> sl_len t \<le> sl_len s | _ \<Rightarrow> True)"

lemma WithFields_appends:
  assumes "slice_ok st ctx" and "WithFields grow st ctx fs = (ctx', st')"
  shows "slice_ok st' ctx'" and "FromContext st' ctx' = FromContext st ctx @ fs" and "apart ctx' ctx"
    and "slice_ok st t \<Longrightarrow> apart ctx t \<Longrightarrow> slice_ok st' t \<and> FromContext st' t = FromContext st t \<and> apart ctx' t"
  using assms
  by (auto simp: WithFields_def append_fields_def FromContext_def elements_def slice_ok_def apart_def cap_def Let_def
      nth_append nth_list_update min_def split: option.splits if_splits)

fun derive :: "(nat \<Rightarrow> nat) \<Rightarrow> arrays \<Rightarrow> log_context \<Rightarrow> log_field list list \<Rightarrow> log_context list \<times> arrays" where
  "derive grow st ctx [] = ([ctx], st)"
| "derive grow st ctx (fs # fss) =
     (let (ctx', st') = WithFields grow st ctx fs; (cs, st'') = derive grow st' ctx' fss in (ctx # cs, st''))"

lemma derive_keeps:
  assumes "slice_ok st ctx" and "slice_ok st t" and "apart ctx t" and "derive grow st ctx fss = (cs, st')"
  shows "FromContext st' t = FromContext st t"
  using assms
proof (induction fss arbitrary: st ctx cs)
  case (Cons fs fss)
  obtain c1 st1 where w: "WithFields grow st ctx fs = (c1, st1)" by force
  note W = WithFields_appends [OF Cons.prems(1) w]
  from Cons.prems(4) w obtain cs1 where "derive grow st1 c1 fss = (cs1, st')" by (auto split: prod.splits)
  with Cons.IH [OF W(1), of cs1] W(4) [OF Cons.prems(2,3)] show ?case by simp
qed simp

text \<open>Along a chain of derived contexts every context keeps showing the fields of its ancestors followed by its own, however the arrays
  are shared and grown.\<close>

lemma derive_fields:
  assumes "slice_ok st ctx" and "derive grow st ctx fss = (cs, st')"
  shows "map (FromContext st') cs = map (\<lambda>i. FromContext st ctx @ concat (take i fss)) [0..<Suc (length fss)]"
  using assms
proof (induction fss arbitrary: st ctx cs)
  case (Cons fs fss)
  obtain c1 st1 where w: "WithFields grow st ctx fs = (c1, st1)" by force
  note W = WithFields_appends [OF Cons.prems(1) w]
  from Cons.prems(2) w obtain cs1 where d: "derive grow st1 c1 fss = (cs1, st')" and cs: "cs = ctx # cs1" by (auto split: prod.splits)
  have "apart ctx ctx" by (simp add: apart_def split: option.split)
  with derive_keeps [OF Cons.prems(1,1) _ Cons.prems(2)] have "FromContext st' ctx = FromContext st ctx" by simp
  moreover have "[0..<Suc (length (fs # fss))] = 0 # map Suc [0..<Suc (length fss)]"
    using upt_shift [of 0 "Suc (length (fs # fss))"] by (simp del: upt_Suc)
  ultimately show ?case using Cons.IH [OF W(1) d] W(2) by (simp add: cs comp_def del: upt_Suc)
qed simp

text \<open>Two contexts derived from the same parent do not: when the array of the parent has room, both write their field into the same
  slot, and the first context shows the field of the second.\<close>

lemma siblings_interfere:
  "\<exists>st parent a b st1 st2. WithFields (\<lambda>n. 2 * n) st parent [\<lparr>lf_Key = ''request_id'', lf_Value = ''1''\<rparr>] = (a, st1)
     \<and> WithFields (\<lambda>n. 2 * n) st1 parent [\<lparr>lf_Key = ''request_id'', lf_Value = ''2''\<rparr>] = (b, st2)
     \<and> slice_ok st parent \<and> FromContext st1 a \<noteq> FromContext st2 a \<and> FromContext st2 a = FromContext st2 b"
proof -
  define f :: "string \<Rightarrow> log_field" where "f v = \<lparr>lf_Key = ''request_id'', lf_Value = v\<rparr>" for v
  let ?st = "[[f ''0'', zero_field]]" and ?p = "Some \<lparr>sl_array = 0, sl_len = 1\<rparr>" and ?c = "Some \<lparr>sl_array = 0, sl_len = 2\<rparr>"
  have "WithFields (\<lambda>n. 2 * n) ?st ?p [f ''1''] = (?c, [[f ''0'', f ''1'']])"
    by (simp add: WithFields_def append_fields_def elements_def cap_def Let_def)
  moreover have "WithFields (\<lambda>n. 2 * n) [[f ''0'', f ''1'']] ?p [f ''2''] = (?c, [[f ''0'', f ''2'']])"
    by (simp add: WithFields_def append_fields_def elements_def cap_def Let_def)
  moreover have "slice_ok ?st ?p" "FromContext [[f ''0'', f ''1'']] ?c \<noteq> FromContext [[f ''0'', f ''2'']] ?c"
    by (simp_all add: slice_ok_def FromContext_def elements_def f_def)
  ultimately show ?thesis unfolding f_def [symmetric] by blast
qed

end
