(* ===== verification/Http_Api.thy ===== *)
theory Http_Api
  imports Admin Runtime_Support
begin

text \<open>
  The HTTP side of the inspection API: the handlers (\<open>pkg/api/handlers\<close>), the middleware (\<open>pkg/api/middleware\<close>) and the
  routes (\<open>cmd/server/admin_routes.go\<close>, \<open>startAdminServer\<close>). The state of a gin context is a record; a handler returns or
  panics with the context it leaves; a middleware is a function of the handlers behind it, as \<open>ctx.Next()\<close> runs them. The handler of
  the metrics endpoint and what gin answers on a path without a route are arguments, as are stack traces and measured times.

  The locale \<open>http_handler\<close> says what the middleware relies on in the handlers behind it. The lemmas show that every
  request is answered, with what status and body, that a panic or a foreign error never reaches the client, and that the
  correlation identifier is in the response and in every line of the log.
\<close>

subsection \<open>Contexts\<close>

record statsRes =
  sS_ConnectedClients :: int
  sS_Sessions :: int
  sS_Subscriptions :: int
  sS_DistinctFilters :: int
  sS_RetainedMessages :: int
  sS_InflightMessages :: int
  sS_QueuedMessages :: int
  sS_UptimeSeconds :: int
  sS_MessagesPublished :: u64
  sS_MessagesDelivered :: u64
  sS_MessagesDropped :: u64

definition ToStatsRes :: "brokerStats \<Rightarrow> statsRes" where
  "ToStatsRes stats =
     \<lparr>sS_ConnectedClients = st_ConnectedClients stats, sS_Sessions = st_Sessions stats,
      sS_Subscriptions = st_Subscriptions stats, sS_DistinctFilters = st_DistinctFilters stats,
      sS_RetainedMessages = st_RetainedMessages stats, sS_InflightMessages = st_InflightMessages stats,
      sS_QueuedMessages = st_QueuedMessages stats, sS_UptimeSeconds = st_UptimeSeconds stats,
      sS_MessagesPublished = st_MessagesPublished stats, sS_MessagesDelivered = st_MessagesDelivered stats,
      sS_MessagesDropped = st_MessagesDropped stats\<rparr>"

record healthRes =
  hS_Status :: string
  hS_Service :: string
  hS_Version :: string
  hS_Uptime :: string

record errorRes =
  eR_Code :: string
  eR_Message :: string

datatype body =
    StatsBody statsRes
  | ClientsBody listClientsRes
  | SubscriptionsBody listSubscriptionsRes
  | RetainedBody listRetainedRes
  | HealthBody healthRes
  | ErrorBody errorRes
  | RawBody string

record http_request =
  hr_Method :: string
  hr_Path :: string
  hr_RequestID :: string \<comment> \<open>the header \<open>X-Request-ID\<close>, empty if absent\<close>
  hr_ClientIP :: string

record gin_context =
  gc_request :: http_request
  gc_fields :: "log_field list" \<comment> \<open>the fields in the context of the request\<close>
  gc_errors :: "go_error list"
  gc_status :: nat
  gc_written :: bool
  gc_bodies :: "body list"
  gc_requestID :: "string option" \<comment> \<open>the header of the response\<close>
  gc_logs :: "log_record list"

datatype outcome = Returned gin_context | Panicked string gin_context

type_synonym http_handler_fun = "gin_context \<Rightarrow> outcome"

text \<open>\<open>ctx.JSON\<close>: a status that has been written stays, a body is appended.\<close>

definition ctx_JSON :: "nat \<Rightarrow> body \<Rightarrow> gin_context \<Rightarrow> gin_context" where
  "ctx_JSON status b c =
     c\<lparr>gc_status := (if gc_written c then gc_status c else status), gc_written := True, gc_bodies := gc_bodies c @ [b]\<rparr>"

definition ctx_Error :: "go_error \<Rightarrow> gin_context \<Rightarrow> gin_context" where
  "ctx_Error err c = c\<lparr>gc_errors := gc_errors c @ [err]\<rparr>"

definition ctx_log :: "log_level \<Rightarrow> string \<Rightarrow> string option \<Rightarrow> (string \<times> string) list \<Rightarrow> gin_context \<Rightarrow> gin_context" where
  "ctx_log level msg err fs c =
     c\<lparr>gc_logs := gc_logs c @ [logger_log (gc_fields c) level msg err (map (\<lambda>(k, v). \<lparr>lf_Key = k, lf_Value = v\<rparr>) fs)]\<rparr>"

definition new_context :: "http_request \<Rightarrow> gin_context" where
  "new_context req =
     \<lparr>gc_request = req, gc_fields = [], gc_errors = [], gc_status = 200, gc_written = False, gc_bodies = [],
      gc_requestID = None, gc_logs = []\<rparr>"

subsection \<open>Middleware\<close>

fun go_Error :: "go_error \<Rightarrow> string" where
  "go_Error (AppErr e) = Error_string e"
| "go_Error (PlainErr s) = s"
| "go_Error (WrappedErr s e) = s @ '': '' @ go_Error e"

definition internalError :: body where
  "internalError = ErrorBody \<lparr>eR_Code = ''internal_error'', eR_Message = ''an unexpected error occurred''\<rparr>"

definition Recovery :: "string \<Rightarrow> http_handler_fun \<Rightarrow> http_handler_fun" where
  "Recovery stack next c =
     (case next c of
        Returned c \<Rightarrow> Returned c
      | Panicked recovered c \<Rightarrow>
          Returned (ctx_JSON 500 internalError
            (ctx_log LevelError ''handler panicked'' (Some (''panic_recovered: an unexpected error occurred: '' @ recovered))
              [(''path'', hr_Path (gc_request c)), (''stack'', stack)] c)))"

definition RequestID :: "string \<Rightarrow> http_handler_fun \<Rightarrow> http_handler_fun" where
  "RequestID newID next c =
     (let requestID = (if hr_RequestID (gc_request c) = '''' then newID else hr_RequestID (gc_request c)) in
      next (c\<lparr>gc_requestID := Some requestID,
              gc_fields := gc_fields c @ [\<lparr>lf_Key = ''request_id'', lf_Value = requestID\<rparr>]\<rparr>))"

definition RequestLogger :: "nat \<Rightarrow> http_handler_fun \<Rightarrow> http_handler_fun" where
  "RequestLogger duration next c =
     (let path = hr_Path (gc_request c) in
      case next c of
        Panicked v c \<Rightarrow> Panicked v c
      | Returned c \<Rightarrow>
          if path = ''/metrics'' then Returned c
          else Returned (ctx_log LevelInfo ''http request'' None
            [(''method'', hr_Method (gc_request c)), (''path'', path), (''status'', decimal (gc_status c)),
             (''duration_ms'', decimal duration), (''client_ip'', hr_ClientIP (gc_request c))] c))"

definition ErrorHandler :: "http_handler_fun \<Rightarrow> http_handler_fun" where
  "ErrorHandler next c =
     (case next c of
        Panicked v c \<Rightarrow> Panicked v c
      | Returned c \<Rightarrow>
          if gc_errors c = [] then Returned c
          else
            let err = last (gc_errors c); path = hr_Path (gc_request c) in
            (case errors_As err of
               None \<Rightarrow>
                 Returned (ctx_JSON 500 internalError
                   (ctx_log LevelError ''unhandled error'' (Some (go_Error err)) [(''path'', path)] c))
             | Some appErr \<Rightarrow>
                 let status = statusFor (err_kind appErr);
                     c = (if status \<ge> 500
                          then ctx_log LevelError ''request failed'' (Some (go_Error err))
                            [(''path'', path), (''code'', err_code appErr)] c
                          else c)
                 in Returned (ctx_JSON status (ErrorBody \<lparr>eR_Code = err_code appErr, eR_Message = err_message appErr\<rparr>) c)))"

subsection \<open>Handlers\<close>

definition AdminHandler_Stats :: "go_error + brokerStats \<Rightarrow> http_handler_fun" where
  "AdminHandler_Stats res c =
     (case res of
        Inl err \<Rightarrow> Returned (ctx_Error err c)
      | Inr stats \<Rightarrow> Returned (ctx_JSON 200 (StatsBody (ToStatsRes stats)) c))"

definition AdminHandler_Clients :: "go_error + clientInfo list \<Rightarrow> http_handler_fun" where
  "AdminHandler_Clients res c =
     (case res of
        Inl err \<Rightarrow> Returned (ctx_Error err c)
      | Inr cs \<Rightarrow> Returned (ctx_JSON 200 (ClientsBody (ToListClientsRes cs)) c))"

definition AdminHandler_Subscriptions :: "go_error + subscriptionInfo list \<Rightarrow> http_handler_fun" where
  "AdminHandler_Subscriptions res c =
     (case res of
        Inl err \<Rightarrow> Returned (ctx_Error err c)
      | Inr subs \<Rightarrow> Returned (ctx_JSON 200 (SubscriptionsBody (ToListSubscriptionsRes subs)) c))"

definition AdminHandler_Retained :: "go_error + retainedInfo list \<Rightarrow> http_handler_fun" where
  "AdminHandler_Retained res c =
     (case res of
        Inl err \<Rightarrow> Returned (ctx_Error err c)
      | Inr retained \<Rightarrow> Returned (ctx_JSON 200 (RetainedBody (ToListRetainedRes retained)) c))"

text \<open>\<open>Duration.String\<close> of a whole number of seconds, and \<open>Round(time.Second)\<close> of a duration that is not negative.\<close>

definition secondsString :: "nat \<Rightarrow> string" where
  "secondsString s =
     (if s < 60 then decimal s @ ''s''
      else if s < 3600 then decimal (s div 60) @ ''m'' @ decimal (s mod 60) @ ''s''
      else decimal (s div 3600) @ ''h'' @ decimal (s mod 3600 div 60) @ ''m'' @ decimal (s mod 60) @ ''s'')"

definition roundSecond :: "nat \<Rightarrow> nat" where
  "roundSecond d = (d + 500000000) div 1000000000"

definition SupportHandler_Health :: "string \<Rightarrow> nat \<Rightarrow> http_handler_fun" where
  "SupportHandler_Health version uptime c =
     Returned (ctx_JSON 200 (HealthBody \<lparr>hS_Status = ''ok'', hS_Service = ''gomqtt'', hS_Version = version,
       hS_Uptime = secondsString (roundSecond uptime)\<rparr>) c)"

subsection \<open>Routes\<close>

definition APIBasePath :: string where "APIBasePath = ''/api/v1''"

record http_env =
  he_broker :: broker
  he_startedAt :: time
  he_version :: string
  he_uptime :: nat
  he_metrics :: http_handler_fun
  he_fallback :: http_handler_fun

definition adminRoutes :: "http_env \<Rightarrow> (string \<times> http_handler_fun) list" where
  "adminRoutes env =
     (let b = he_broker env in
      [(APIBasePath @ ''/stats'', AdminHandler_Stats (Inr (Stats b (he_startedAt env)))),
       (APIBasePath @ ''/clients'', AdminHandler_Clients (Inr (admin_Clients b))),
       (APIBasePath @ ''/subscriptions'', AdminHandler_Subscriptions (Inr (admin_Subscriptions b))),
       (APIBasePath @ ''/retained'', AdminHandler_Retained (Inr (RetainedTopics b)))])"

definition route :: "http_env \<Rightarrow> http_request \<Rightarrow> http_handler_fun" where
  "route env req =
     (if hr_Method req \<noteq> ''GET'' then he_fallback env
      else case map_of ([(''/health'', SupportHandler_Health (he_version env) (he_uptime env)), (''/metrics'', he_metrics env)]
          @ adminRoutes env) (hr_Path req) of
        None \<Rightarrow> he_fallback env
      | Some h \<Rightarrow> h)"

definition chain :: "string \<Rightarrow> string \<Rightarrow> nat \<Rightarrow> http_handler_fun \<Rightarrow> http_handler_fun" where
  "chain stack newID duration h = Recovery stack (RequestID newID (RequestLogger duration (ErrorHandler h)))"

definition serve_http :: "http_env \<Rightarrow> string \<Rightarrow> string \<Rightarrow> nat \<Rightarrow> http_request \<Rightarrow> outcome" where
  "serve_http env stack newID duration req = chain stack newID duration (route env req) (new_context req)"

subsection \<open>What the middleware relies on\<close>

fun context_of :: "outcome \<Rightarrow> gin_context" where
  "context_of (Returned c) = c"
| "context_of (Panicked v c) = c"

text \<open>A handler does not touch the request, its context or the headers, and does not log itself.\<close>

locale http_handler =
  fixes h :: http_handler_fun
  assumes request: "gc_request (context_of (h c)) = gc_request c"
    and fields: "gc_fields (context_of (h c)) = gc_fields c"
    and requestID: "gc_requestID (context_of (h c)) = gc_requestID c"
    and logs: "gc_logs (context_of (h c)) = gc_logs c"

definition correlation :: "string \<Rightarrow> http_request \<Rightarrow> string" where
  "correlation newID req = (if hr_RequestID req = '''' then newID else hr_RequestID req)"

text \<open>The context that the innermost handler is called with.\<close>

definition seen :: "string \<Rightarrow> http_request \<Rightarrow> gin_context" where
  "seen newID req =
     (new_context req)\<lparr>gc_requestID := Some (correlation newID req),
       gc_fields := [\<lparr>lf_Key = ''request_id'', lf_Value = correlation newID req\<rparr>]\<rparr>"

definition correlated :: "string \<Rightarrow> gin_context \<Rightarrow> bool" where
  "correlated i c = (gc_requestID c = Some i \<and> \<lparr>lf_Key = ''request_id'', lf_Value = i\<rparr> \<in> set (gc_fields c)
     \<and> (\<forall>r \<in> set (gc_logs c). \<lparr>lf_Key = ''request_id'', lf_Value = i\<rparr> \<in> set (rec_attrs r)))"

lemma chain_seen:
  "chain stack newID duration h (new_context req) = Recovery stack (RequestLogger duration (ErrorHandler h)) (seen newID req)"
  by (simp add: chain_def Recovery_def RequestID_def seen_def correlation_def new_context_def Let_def)

lemma correlated_log: "correlated i c \<Longrightarrow> correlated i (ctx_log level msg err fs c)"
  by (auto simp: correlated_def ctx_log_def logger_log_def log_attrs_def)

lemma correlated_JSON: "correlated i c \<Longrightarrow> correlated i (ctx_JSON status b c)"
  by (simp add: correlated_def ctx_JSON_def)

lemma ctx_log_fields [simp]:
  "gc_status (ctx_log level msg err fs c) = gc_status c" "gc_bodies (ctx_log level msg err fs c) = gc_bodies c"
  "gc_written (ctx_log level msg err fs c) = gc_written c" "gc_errors (ctx_log level msg err fs c) = gc_errors c"
  "gc_request (ctx_log level msg err fs c) = gc_request c"
  by (simp_all add: ctx_log_def)

lemma ctx_JSON_fields [simp]:
  "gc_bodies (ctx_JSON status b c) = gc_bodies c @ [b]" "gc_request (ctx_JSON status b c) = gc_request c"
  "gc_status (ctx_JSON status b c) = (if gc_written c then gc_status c else status)"
  by (simp_all add: ctx_JSON_def)

text \<open>What \<open>ErrorHandler\<close> makes of the errors of a context.\<close>

definition answer :: "gin_context \<Rightarrow> (nat \<times> body) option" where
  "answer c =
     (if gc_errors c = [] then None
      else case errors_As (last (gc_errors c)) of
        None \<Rightarrow> Some (500, internalError)
      | Some e \<Rightarrow> Some (statusFor (err_kind e), ErrorBody \<lparr>eR_Code = err_code e, eR_Message = err_message e\<rparr>))"

lemma ErrorHandler_answers:
  assumes "h c = Returned c1" and "correlated i c1"
  shows "\<exists>c2. ErrorHandler h c = Returned c2 \<and> correlated i c2
    \<and> gc_bodies c2 = gc_bodies c1 @ (case answer c1 of None \<Rightarrow> [] | Some (s, b) \<Rightarrow> [b])
    \<and> gc_status c2 = (case answer c1 of None \<Rightarrow> gc_status c1 | Some (s, b) \<Rightarrow> if gc_written c1 then gc_status c1 else s)"
  using assms correlated_log [OF assms(2)] correlated_JSON
  by (simp add: ErrorHandler_def answer_def Let_def split: option.split)

lemma RequestLogger_returns:
  assumes "next c = Returned c1" and "correlated i c1"
  shows "\<exists>c2. RequestLogger duration next c = Returned c2 \<and> correlated i c2
    \<and> gc_bodies c2 = gc_bodies c1 \<and> gc_status c2 = gc_status c1"
  using assms correlated_log [OF assms(2)] by (simp add: RequestLogger_def Let_def)

context http_handler
begin

lemma seen_correlated: "correlated (correlation newID req) (context_of (h (seen newID req)))"
  using fields [of "seen newID req"] requestID [of "seen newID req"] logs [of "seen newID req"]
  by (simp add: correlated_def seen_def new_context_def)

lemma answers_panic:
  assumes "h (seen newID req) = Panicked v c"
  shows "\<exists>c'. chain stack newID duration h (new_context req) = Returned c' \<and> correlated (correlation newID req) c'
    \<and> gc_bodies c' = gc_bodies c @ [internalError] \<and> gc_status c' = (if gc_written c then gc_status c else 500)"
  using seen_correlated [of newID req] assms
  by (auto simp: chain_seen Recovery_def RequestLogger_def ErrorHandler_def Let_def intro!: correlated_JSON correlated_log)

lemma answers_return:
  assumes "h (seen newID req) = Returned c"
  shows "\<exists>c'. chain stack newID duration h (new_context req) = Returned c' \<and> correlated (correlation newID req) c'
    \<and> gc_bodies c' = gc_bodies c @ (case answer c of None \<Rightarrow> [] | Some (s, b) \<Rightarrow> [b])
    \<and> gc_status c' = (case answer c of None \<Rightarrow> gc_status c | Some (s, b) \<Rightarrow> if gc_written c then gc_status c else s)"
proof -
  have "correlated (correlation newID req) c" using seen_correlated [of newID req] assms by simp
  with ErrorHandler_answers [of h "seen newID req" c] assms obtain c2 where
    c2: "ErrorHandler h (seen newID req) = Returned c2" "correlated (correlation newID req) c2"
    "gc_bodies c2 = gc_bodies c @ (case answer c of None \<Rightarrow> [] | Some (s, b) \<Rightarrow> [b])"
    "gc_status c2 = (case answer c of None \<Rightarrow> gc_status c | Some (s, b) \<Rightarrow> if gc_written c then gc_status c else s)" by blast
  from RequestLogger_returns [of "ErrorHandler h" "seen newID req" c2, OF c2(1,2), of duration] obtain c3 where
    "RequestLogger duration (ErrorHandler h) (seen newID req) = Returned c3" "correlated (correlation newID req) c3"
    "gc_bodies c3 = gc_bodies c2" "gc_status c3 = gc_status c2" by blast
  with c2(3,4) show ?thesis by (simp add: chain_seen Recovery_def)
qed

end

lemmas handler_defs = AdminHandler_Stats_def AdminHandler_Clients_def AdminHandler_Subscriptions_def
  AdminHandler_Retained_def SupportHandler_Health_def ctx_JSON_def ctx_Error_def

interpretation stats_handler: http_handler "AdminHandler_Stats res" for res
  by unfold_locales (simp_all add: handler_defs split: sum.split)

interpretation clients_handler: http_handler "AdminHandler_Clients res" for res
  by unfold_locales (simp_all add: handler_defs split: sum.split)

interpretation subscriptions_handler: http_handler "AdminHandler_Subscriptions res" for res
  by unfold_locales (simp_all add: handler_defs split: sum.split)

interpretation retained_handler: http_handler "AdminHandler_Retained res" for res
  by unfold_locales (simp_all add: handler_defs split: sum.split)

interpretation health_handler: http_handler "SupportHandler_Health version uptime" for version uptime
  by unfold_locales (simp_all add: handler_defs)

subsection \<open>Requests\<close>

text \<open>Claim C30. Every request is answered, whatever the handler behind the middleware does within its contract: a panic and an
  error of a foreign kind give status 500 and the same fixed body, so nothing of their text reaches the client; an error of the
  application gives the status of its kind with its code and message; a handler without errors is left alone. The response
  carries the correlation identifier, the one of the request if it has one, and so does every line of the log.\<close>

theorem http_answers:
  assumes "http_handler h"
  shows "\<exists>c'. chain stack newID duration h (new_context req) = Returned c'
    \<and> gc_requestID c' = Some (if hr_RequestID req = '''' then newID else hr_RequestID req)
    \<and> (\<forall>r \<in> set (gc_logs c'). \<lparr>lf_Key = ''request_id'', lf_Value = (if hr_RequestID req = '''' then newID else hr_RequestID req)\<rparr>
          \<in> set (rec_attrs r))
    \<and> (case h (seen newID req) of
         Panicked v c \<Rightarrow> gc_bodies c' = gc_bodies c @ [internalError] \<and> gc_status c' = (if gc_written c then gc_status c else 500)
       | Returned c \<Rightarrow>
           if gc_errors c = [] then gc_bodies c' = gc_bodies c \<and> gc_status c' = gc_status c
           else case errors_As (last (gc_errors c)) of
             None \<Rightarrow> gc_bodies c' = gc_bodies c @ [internalError] \<and> gc_status c' = (if gc_written c then gc_status c else 500)
           | Some e \<Rightarrow> gc_bodies c' = gc_bodies c @ [ErrorBody \<lparr>eR_Code = err_code e, eR_Message = err_message e\<rparr>]
               \<and> gc_status c' = (if gc_written c then gc_status c else statusFor (err_kind e)))"
proof (cases "h (seen newID req)")
  case (Panicked v c)
  from http_handler.answers_panic [OF assms this, of stack duration] Panicked show ?thesis
    by (auto simp: correlated_def correlation_def)
next
  case (Returned c)
  from http_handler.answers_return [OF assms this, of stack duration] obtain c' where
    "chain stack newID duration h (new_context req) = Returned c'" "correlated (correlation newID req) c'"
    "gc_bodies c' = gc_bodies c @ (case answer c of None \<Rightarrow> [] | Some (s, b) \<Rightarrow> [b])"
    "gc_status c' = (case answer c of None \<Rightarrow> gc_status c | Some (s, b) \<Rightarrow> if gc_written c then gc_status c else s)" by blast
  with Returned show ?thesis
    by (intro exI [of _ c']) (simp add: correlated_def correlation_def answer_def split: option.split)
qed

definition sample_request :: http_request where
  "sample_request = \<lparr>hr_Method = ''GET'', hr_Path = ''/api/v1/stats'', hr_RequestID = '''', hr_ClientIP = ''ip''\<rparr>"

lemma http_answers_witness:
  "\<exists>c'. chain ''stack'' ''id'' 3 (AdminHandler_Stats (Inl (WrappedErr ''stats'' (PlainErr ''disk''))))
       (new_context sample_request) = Returned c'
    \<and> gc_status c' = 500 \<and> gc_bodies c' = [internalError] \<and> gc_requestID c' = Some ''id''"
  using http_answers [OF stats_handler.http_handler_axioms, of "''stack''" "''id''" 3 "Inl (WrappedErr ''stats'' (PlainErr ''disk''))" sample_request]
  by (auto simp: handler_defs seen_def new_context_def sample_request_def)

text \<open>The routes of the API: each answers with status 200 and its view of the broker, and logs one line.\<close>

lemma http_routes:
  assumes "hr_Method req = ''GET''"
    and "(hr_Path req, b) \<in> set [(''/api/v1/stats'', StatsBody (ToStatsRes (Stats (he_broker env) (he_startedAt env)))),
        (''/api/v1/clients'', ClientsBody (ToListClientsRes (admin_Clients (he_broker env)))),
        (''/api/v1/subscriptions'', SubscriptionsBody (ToListSubscriptionsRes (admin_Subscriptions (he_broker env)))),
        (''/api/v1/retained'', RetainedBody (ToListRetainedRes (RetainedTopics (he_broker env))))]"
  shows "\<exists>c'. serve_http env stack newID duration req = Returned c' \<and> gc_status c' = 200 \<and> gc_bodies c' = [b]
    \<and> length (gc_logs c') = 1"
  using assms
  by (auto simp: serve_http_def route_def adminRoutes_def APIBasePath_def chain_def Recovery_def RequestID_def RequestLogger_def
      ErrorHandler_def handler_defs new_context_def ctx_log_def Let_def)

end
