(* ===== verification/Server.thy ===== *)
theory Server
  imports Settings Metrics Http_Api
begin

text \<open>
  The process (\<open>cmd/server/server.go\<close>, \<open>cmd/main.go\<close>): it loads the configuration, builds the broker, starts the MQTT listener, the
  background loops and the admin listener, and stops them in that order on a signal. The state \<open>server\<close> has the listener and the
  world of the broker, the admin HTTP server, the goroutines of \<open>backgroundLoops\<close> with the channel \<open>background\<close> they close, and where
  \<open>Stop\<close> is. \<open>sstep\<close> interleaves the steps of \<open>Stop\<close> with those of the listener, the connections and the loops. Errors of \<open>net.Listen\<close> and
  of \<open>http.Server.Shutdown\<close>, timeouts and the failure of the admin listener are choices of the environment.

  The lemmas show that the process refines the listener, so that all invariants of the broker hold in it; that \<open>Stop\<close> always returns;
  that after a \<open>Stop\<close> whose waits were fulfilled nothing runs and the stores no longer change; and what a second \<open>Start\<close> does.
\<close>

subsection \<open>State\<close>

datatype admin_state = AdminListening | AdminFailed | AdminClosed

datatype stop_phase = Idle | Draining | ClosingAdmin | CancellingLoops | AwaitingLoops | Finished

record loop =
  lp_ticking :: bool \<comment> \<open>past the creation of the tickers\<close>
  lp_cancelled :: bool

record server =
  sv_cfg :: appConfig
  sv_listener :: listener
  sv_world :: world
  sv_admin :: "admin_state option" \<comment> \<open>\<open>None\<close>: no HTTP server was created\<close>
  sv_cancel :: "nat option" \<comment> \<open>the loop whose context the field \<open>cancel\<close> ends\<close>
  sv_loops :: "(nat, loop) gomap" \<comment> \<open>running goroutines of \<open>backgroundLoops\<close>\<close>
  sv_background :: bool \<comment> \<open>the channel is closed\<close>
  sv_panicked :: bool
  sv_stop :: stop_phase
  sv_err :: "app_error option" \<comment> \<open>\<open>firstErr\<close> of \<open>Stop\<close>\<close>
  sv_drained :: bool \<comment> \<open>no wait of \<open>Stop\<close> has timed out\<close>
  sv_starts :: nat
  sv_gauges :: "recorder_call list"

text \<open>The object graph that \<open>pkg/di\<close> builds: one of each store, shared by all services, and a listener over them. The authenticator is
  \<open>provideAuthenticator (ac_Auth cfg)\<close>, in the steps below.\<close>

definition InjectBroker :: "appConfig \<Rightarrow> time \<Rightarrow> time \<Rightarrow> listener \<times> world" where
  "InjectBroker cfg now wall =
     (NewListener (GetListenerConfig cfg), \<lparr>w_broker = NewBroker (GetConnectionConfig cfg) now wall, w_phase = []\<rparr>)"

definition NewServer :: "appConfig \<Rightarrow> listener \<times> world \<Rightarrow> server" where
  "NewServer cfg broker =
     \<lparr>sv_cfg = cfg, sv_listener = fst broker, sv_world = snd broker,
      sv_admin = None, sv_cancel = None, sv_loops = [], sv_background = False, sv_panicked = False,
      sv_stop = Idle, sv_err = None, sv_drained = True, sv_starts = 0, sv_gauges = []\<rparr>"

text \<open>\<open>bound\<close> is the address of the listening socket, if there is one.\<close>

definition MQTTAddr :: "string option \<Rightarrow> server \<Rightarrow> string" where
  "MQTTAddr bound s = (case bound of Some addr \<Rightarrow> addr | None \<Rightarrow> bc_Address (ac_Broker (sv_cfg s)))"

definition server_String :: "string option \<Rightarrow> server \<Rightarrow> string" where
  "server_String bound s = ''gomqtt '' @ bc_Version (ac_Broker (sv_cfg s)) @ '' on '' @ MQTTAddr bound s"

subsection \<open>Start\<close>

text \<open>\<open>failed\<close> is the error of \<open>net.Listen\<close>, if any.\<close>

definition startLoops :: "server \<Rightarrow> server" where
  "startLoops s =
     s\<lparr>sv_cancel := Some (sv_starts s),
       sv_loops := mput (sv_starts s) \<lparr>lp_ticking = False, lp_cancelled = False\<rparr> (sv_loops s),
       sv_starts := Suc (sv_starts s)\<rparr>"

definition startAdminServer :: "server \<Rightarrow> server" where
  "startAdminServer s = s\<lparr>sv_admin := Some AdminListening\<rparr>"

definition server_Start :: "server \<Rightarrow> app_error option \<Rightarrow> app_error option \<times> server" where
  "server_Start s failed =
     (case listener_Start (sv_listener s) failed of
        (Some err, l) \<Rightarrow> (Some err, s\<lparr>sv_listener := l\<rparr>)
      | (None, l) \<Rightarrow>
          let s = startLoops (s\<lparr>sv_listener := l, sv_stop := Idle\<rparr>)
          in (None, if ad_Enabled (ac_Admin (sv_cfg s)) then startAdminServer s else s))"

subsection \<open>The background loops\<close>

definition loop_begin :: "server \<Rightarrow> nat \<Rightarrow> loop \<Rightarrow> server" where
  "loop_begin s g lp =
     (if startPanics (sv_cfg s) then s\<lparr>sv_panicked := True\<rparr>
      else s\<lparr>sv_loops := mput g (lp\<lparr>lp_ticking := True\<rparr>) (sv_loops s)\<rparr>)"

definition loop_retransmit :: "server \<Rightarrow> server" where
  "loop_retransmit s =
     s\<lparr>sv_world := (sv_world s)\<lparr>w_broker :=
         fst (RetransmitExpired (w_broker (sv_world s)) (sc_RetransmitTimeout (ac_Session (sv_cfg s))))\<rparr>\<rparr>"

definition loop_sample :: "server \<Rightarrow> server" where
  "loop_sample s = s\<lparr>sv_gauges := sv_gauges s @ sampleGauges (w_broker (sv_world s))\<rparr>"

text \<open>The deferred \<open>close\<close> panics when the channel is closed already.\<close>

definition loop_return :: "server \<Rightarrow> nat \<Rightarrow> server" where
  "loop_return s g =
     (if sv_background s then s\<lparr>sv_panicked := True\<rparr>
      else s\<lparr>sv_background := True, sv_loops := mdel g (sv_loops s)\<rparr>)"

subsection \<open>Stop\<close>

definition Stop_begin :: "server \<Rightarrow> server" where
  "Stop_begin s =
     (let (l, w) = listener_Stop (sv_listener s) (sv_world s)
      in s\<lparr>sv_listener := l, sv_world := w, sv_err := None,
           sv_stop := (if ls_started (sv_listener s) then Draining else ClosingAdmin)\<rparr>)"

text \<open>What the wait group of the listener waits for.\<close>

definition idle :: "listener \<Rightarrow> bool" where
  "idle l = (ls_connections l = [] \<and> ls_accepted l = None)"

definition Stop_listener :: "server \<Rightarrow> bool \<Rightarrow> server" where
  "Stop_listener s timedOut =
     s\<lparr>sv_listener := stopDone (sv_listener s), sv_drained := (sv_drained s \<and> \<not> timedOut), sv_stop := ClosingAdmin\<rparr>"

definition Stop_admin :: "server \<Rightarrow> app_error option \<Rightarrow> server" where
  "Stop_admin s err =
     (case sv_admin s of
        None \<Rightarrow> s
      | Some a \<Rightarrow> s\<lparr>sv_admin := Some AdminClosed, sv_err := (if sv_err s = None then err else sv_err s)\<rparr>)
     \<lparr>sv_stop := CancellingLoops\<rparr>"

definition Stop_cancel :: "server \<Rightarrow> server" where
  "Stop_cancel s =
     (case sv_cancel s of
        None \<Rightarrow> s\<lparr>sv_stop := Finished\<rparr>
      | Some g \<Rightarrow>
          s\<lparr>sv_loops := (case mget (sv_loops s) g of
                           None \<Rightarrow> sv_loops s
                         | Some lp \<Rightarrow> mput g (lp\<lparr>lp_cancelled := True\<rparr>) (sv_loops s)),
            sv_stop := AwaitingLoops\<rparr>)"

definition Stop_await :: "server \<Rightarrow> bool \<Rightarrow> server" where
  "Stop_await s timedOut = s\<lparr>sv_drained := (sv_drained s \<and> \<not> timedOut), sv_stop := Finished\<rparr>"

subsection \<open>Runs\<close>

text \<open>The steps of \<open>Stop\<close> once it has begun. A wait ends when it is fulfilled or when its timer fires.\<close>

inductive stop_step :: "server \<Rightarrow> server \<Rightarrow> bool" where
  st_listener: "sv_stop s = Draining \<Longrightarrow> timedOut \<or> idle (sv_listener s) \<Longrightarrow> stop_step s (Stop_listener s timedOut)"
| st_admin: "sv_stop s = ClosingAdmin \<Longrightarrow> stop_step s (Stop_admin s err)"
| st_cancel: "sv_stop s = CancellingLoops \<Longrightarrow> stop_step s (Stop_cancel s)"
| st_await: "sv_stop s = AwaitingLoops \<Longrightarrow> timedOut \<or> sv_background s \<Longrightarrow> stop_step s (Stop_await s timedOut)"

text \<open>The steps of everything else that runs.\<close>

inductive run_step :: "server \<Rightarrow> server \<Rightarrow> bool" where
  ru_serve: "serve_step (provideAuthenticator (ac_Auth (sv_cfg s))) (sv_listener s, sv_world s) (l, w) \<Longrightarrow>
    run_step s (s\<lparr>sv_listener := l, sv_world := w\<rparr>)"
| ru_admin: "sv_admin s = Some AdminListening \<Longrightarrow> run_step s (s\<lparr>sv_admin := Some AdminFailed\<rparr>)"
| ru_begin: "mget (sv_loops s) g = Some lp \<Longrightarrow> \<not> lp_ticking lp \<Longrightarrow> run_step s (loop_begin s g lp)"
| ru_retransmit: "mget (sv_loops s) g = Some lp \<Longrightarrow> lp_ticking lp \<Longrightarrow> run_step s (loop_retransmit s)"
| ru_sample: "mget (sv_loops s) g = Some lp \<Longrightarrow> lp_ticking lp \<Longrightarrow> run_step s (loop_sample s)"
| ru_return: "mget (sv_loops s) g = Some lp \<Longrightarrow> lp_ticking lp \<Longrightarrow> lp_cancelled lp \<Longrightarrow> run_step s (loop_return s g)"

inductive sstep :: "server \<Rightarrow> server \<Rightarrow> bool" where
  s_start: "sv_stop s \<in> {Idle, Finished} \<Longrightarrow> sstep s (snd (server_Start s failed))"
| s_begin: "sv_stop s \<in> {Idle, Finished} \<Longrightarrow> sstep s (Stop_begin s)"
| s_stop: "stop_step s s' \<Longrightarrow> sstep s s'"
| s_run: "run_step s s' \<Longrightarrow> sstep s s'"

inductive sreachable :: "appConfig \<Rightarrow> server \<Rightarrow> bool" for cfg where
  s_init: "sreachable cfg (NewServer cfg (InjectBroker cfg now wall))"
| s_move: "sreachable cfg s \<Longrightarrow> \<not> sv_panicked s \<Longrightarrow> sstep s s' \<Longrightarrow> sreachable cfg s'"

inductive_cases stop_stepE: "stop_step s s'"
inductive_cases run_stepE: "run_step s s'"

lemmas stop_defs = Stop_listener_def Stop_admin_def Stop_cancel_def Stop_await_def
lemmas loop_defs = loop_begin_def loop_retransmit_def loop_sample_def loop_return_def
lemmas start_defs = server_Start_def listener_Start_def startLoops_def startAdminServer_def

subsection \<open>The process refines the listener\<close>

definition runs :: "appConfig \<Rightarrow> server \<Rightarrow> bool" where
  "runs cfg s = lreachable (provideAuthenticator (ac_Auth cfg)) (GetListenerConfig cfg) (GetConnectionConfig cfg)
     (sv_listener s, sv_world s)"

definition draining_ok :: "server \<Rightarrow> bool" where
  "draining_ok s = (sv_stop s = Draining \<longrightarrow> ls_started (sv_listener s) \<and> \<not> ls_listening (sv_listener s))"

lemma lstep_cfg: "lstep auth lw lw' \<Longrightarrow> ls_cfg (fst lw') = ls_cfg (fst lw)"
  by (induction rule: lstep.induct)
    (auto simp: listener_Start_def listener_Stop_def stopDone_def admit_def serveConnection_def release_def Let_def
      elim!: serve_step.cases split: option.split)

lemma lreachable_cfg: "lreachable auth lcfg cfg (l, w) \<Longrightarrow> ls_cfg l = listener_withDefaults lcfg"
proof (induction "(l, w)" arbitrary: l w rule: lreachable.induct)
  case (l_move lw)
  then show ?case using lstep_cfg [OF l_move(3)] by (cases lw) simp
qed (simp add: NewListener_def)

lemma serve_step_flags:
  assumes "serve_step auth (l, w) (l', w')"
  shows "ls_started l' = ls_started l" "ls_listening l' = ls_listening l"
  using assms by (cases rule: serve_step.cases; auto simp: admit_def serveConnection_def release_def Let_def split: if_splits)+

lemma sstep_cfg: "sstep s s' \<Longrightarrow> sv_cfg s' = sv_cfg s"
  by (induction rule: sstep.induct)
    (auto simp: start_defs stop_defs loop_defs Stop_begin_def Let_def elim!: stop_stepE run_stepE split: option.split prod.split)

lemma sstep_draining: "sstep s s' \<Longrightarrow> draining_ok s \<Longrightarrow> draining_ok s'"
  by (induction rule: sstep.induct)
    (auto simp: draining_ok_def start_defs stop_defs loop_defs Stop_begin_def listener_Stop_def Let_def serve_step_flags
      elim!: stop_stepE run_stepE split: option.splits prod.split if_splits)

lemma runs_move:
  assumes "runs cfg s"
    and "lstep (provideAuthenticator (ac_Auth cfg)) (sv_listener s, sv_world s) (sv_listener s', sv_world s')"
  shows "runs cfg s'"
  using assms unfolding runs_def by (rule l_move)

lemma runs_stutter: "runs cfg s \<Longrightarrow> sv_listener s' = sv_listener s \<Longrightarrow> sv_world s' = sv_world s \<Longrightarrow> runs cfg s'"
  by (simp add: runs_def)

lemma server_Start_listener:
  "sv_listener (snd (server_Start s failed)) = snd (listener_Start (sv_listener s) failed)"
  "sv_world (snd (server_Start s failed)) = sv_world s"
  by (auto simp: server_Start_def startLoops_def startAdminServer_def Let_def split: prod.split option.split)

lemma Stop_begin_listener: "(sv_listener (Stop_begin s), sv_world (Stop_begin s)) = listener_Stop (sv_listener s) (sv_world s)"
  by (simp add: Stop_begin_def split: prod.split)

lemma stop_step_runs:
  assumes "stop_step s s'" and "runs cfg s" and "draining_ok s"
  shows "runs cfg s'"
  using assms
proof (induction rule: stop_step.induct)
  case (st_listener s timedOut)
  have "lstep a (sv_listener s, sv_world s) (stopDone (sv_listener s), sv_world s)" for a
    using st_listener(1,4) by (intro l_stopped) (simp_all add: draining_ok_def)
  with runs_move [OF st_listener(3)] show ?case by (simp add: Stop_listener_def)
qed (auto elim!: runs_stutter simp: stop_defs split: option.split)

lemma run_step_runs:
  assumes "run_step s s'" and "runs cfg s" and "sv_cfg s = cfg"
  shows "runs cfg s'"
  using assms
proof (induction rule: run_step.induct)
  case (ru_serve s l w)
  from runs_move [OF ru_serve(2), of "s\<lparr>sv_listener := l, sv_world := w\<rparr>"] l_serve [OF ru_serve(1)] ru_serve(3)
  show ?case by simp
next
  case (ru_retransmit s g lp)
  from runs_move [OF ru_retransmit(3), of "loop_retransmit s"] l_resend show ?case by (simp add: loop_retransmit_def)
qed (auto elim!: runs_stutter simp: loop_defs)

lemma sstep_runs:
  assumes "sstep s s'" and "runs cfg s" and "sv_cfg s = cfg" and "draining_ok s"
  shows "runs cfg s'"
  using assms
proof (induction rule: sstep.induct)
  case (s_start s failed)
  from runs_move [OF s_start(2), of "snd (server_Start s failed)"] l_start show ?case by (simp add: server_Start_listener)
next
  case (s_begin s)
  from runs_move [OF s_begin(2), of "Stop_begin s"] l_stop show ?case by (simp add: Stop_begin_listener)
qed (simp_all add: stop_step_runs run_step_runs)

lemma sreachable_runs: "sreachable cfg s \<Longrightarrow> runs cfg s \<and> sv_cfg s = cfg \<and> draining_ok s"
proof (induction rule: sreachable.induct)
  case (s_init now wall)
  show ?case using l_init by (simp add: runs_def NewServer_def InjectBroker_def draining_ok_def)
next
  case (s_move s s')
  then show ?case using sstep_runs [OF s_move(3)] sstep_cfg [OF s_move(3)] sstep_draining [OF s_move(3)] by simp
qed

subsection \<open>What one life of the process guarantees\<close>

text \<open>The invariant of a server that has been started at most once.\<close>

definition down_ok :: "server \<Rightarrow> bool" where
  "down_ok s =
     ((\<not> ls_started (sv_listener s) \<longrightarrow> \<not> ls_listening (sv_listener s) \<and> (sv_drained s \<longrightarrow> idle (sv_listener s)))
      \<and> (sv_stop s \<in> {ClosingAdmin, CancellingLoops, AwaitingLoops, Finished} \<longrightarrow> \<not> ls_started (sv_listener s))
      \<and> (sv_stop s \<in> {CancellingLoops, AwaitingLoops, Finished} \<longrightarrow> sv_admin s \<noteq> Some AdminListening))"

definition loops_ok :: "server \<Rightarrow> bool" where
  "loops_ok s =
     (if sv_starts s = 0 then sv_loops s = [] \<and> sv_cancel s = None \<and> \<not> sv_background s
      else sv_cancel s = Some 0 \<and> (sv_background s \<longleftrightarrow> sv_loops s = []) \<and> (\<forall>p \<in> set (sv_loops s). fst p = 0)
        \<and> (sv_stop s = Finished \<and> sv_drained s \<longrightarrow> sv_background s))"

lemma serve_step_idle:
  assumes "serve_step auth (l, w) (l', w')" and "idle l" and "\<not> ls_listening l"
  shows "idle l'"
  using assms by (cases rule: serve_step.cases) (auto simp: idle_def admit_def release_def)

text \<open>The map of loops has at most the key 0.\<close>

lemma mget_only: "\<forall>p \<in> set m. fst p = k \<Longrightarrow> mget m k' = Some v \<Longrightarrow> k' = k \<and> m \<noteq> []"
  by (induction m) (auto split: if_splits)

lemma mput_only: "\<forall>p \<in> set m. fst p = k \<Longrightarrow> \<forall>p \<in> set (mput k v m). fst p = k"
  using in_set_mput by fastforce

lemma mdel_only: "\<forall>p \<in> set m. fst p = k \<Longrightarrow> mdel k m = []"
  by (induction m) auto

lemma mput_not_empty [simp]: "mput k v m \<noteq> []"
  by (cases m) auto

lemma stop_step_down: "stop_step s s' \<Longrightarrow> down_ok s \<Longrightarrow> draining_ok s \<Longrightarrow> down_ok s'"
  by (erule stop_stepE) (auto simp: down_ok_def draining_ok_def stop_defs stopDone_def idle_def split: option.split)

lemma run_step_down: "run_step s s' \<Longrightarrow> down_ok s \<Longrightarrow> down_ok s'"
  by (erule run_stepE) (auto simp: down_ok_def loop_defs serve_step_flags dest: serve_step_idle)

lemma Stop_cancel_loops:
  assumes "loops_ok s" and "sv_stop s = CancellingLoops"
  shows "loops_ok (Stop_cancel s)"
proof (cases "mget (sv_loops s) 0")
  case None
  with assms show ?thesis by (simp add: loops_ok_def Stop_cancel_def split: if_splits)
next
  case (Some lp)
  with assms mput_only [of "sv_loops s" 0] show ?thesis by (auto simp: loops_ok_def Stop_cancel_def split: if_splits)
qed

lemma stop_step_loops:
  assumes "stop_step s s'" and "loops_ok s"
  shows "loops_ok s'"
  using assms
  by (induction rule: stop_step.induct) 
    (auto simp: Stop_cancel_loops, auto simp: loops_ok_def Stop_listener_def Stop_admin_def Stop_await_def split: option.split if_splits)

lemma run_step_loops:
  assumes "run_step s s'" and "loops_ok s" and "\<not> sv_panicked s'"
  shows "loops_ok s'"
  using assms
proof (induction rule: run_step.induct)
  case (ru_begin s g lp)
  then show ?case
    using mput_only [of "sv_loops s" 0] mget_only [of "sv_loops s" 0 g]
    by (auto simp: loops_ok_def loop_begin_def split: if_splits)
next
  case (ru_return s g lp)
  then show ?case
    using mdel_only [of "sv_loops s" 0] mget_only [of "sv_loops s" 0 g]
    by (auto simp: loops_ok_def loop_return_def split: if_splits)
qed (auto simp: loops_ok_def loop_defs split: if_splits)

lemma server_Start_starts: "sv_starts s \<le> sv_starts (snd (server_Start s failed))"
  by (auto simp: start_defs Let_def split: option.split)

lemma server_Start_once:
  assumes "down_ok s" and "loops_ok s" and "sv_starts (snd (server_Start s failed)) \<le> 1" and "sv_stop s \<in> {Idle, Finished}"
  shows "down_ok (snd (server_Start s failed))" "loops_ok (snd (server_Start s failed))"
  using assms
  by (auto simp: down_ok_def loops_ok_def start_defs Let_def idle_def split: option.splits if_splits)

lemma Stop_begin_once: "down_ok s \<Longrightarrow> down_ok (Stop_begin s)" "loops_ok s \<Longrightarrow> loops_ok (Stop_begin s)"
  by (auto simp: down_ok_def loops_ok_def Stop_begin_def listener_Stop_def idle_def split: if_splits)

lemma sstep_starts: "sstep s s' \<Longrightarrow> sv_starts s \<le> sv_starts s'"
  by (induction rule: sstep.induct)
    (auto simp: server_Start_starts stop_defs loop_defs Stop_begin_def elim!: stop_stepE run_stepE split: option.split prod.split)

lemma sstep_once:
  assumes "sstep s s'" and "down_ok s" and "loops_ok s" and "draining_ok s" and "sv_starts s' \<le> 1" and "\<not> sv_panicked s'"
  shows "down_ok s' \<and> loops_ok s'"
  using assms
  by (induction rule: sstep.induct)
    (simp_all add: server_Start_once Stop_begin_once stop_step_down stop_step_loops run_step_down run_step_loops)

lemma sreachable_once: "sreachable cfg s \<Longrightarrow> sv_starts s \<le> 1 \<Longrightarrow> \<not> sv_panicked s \<Longrightarrow> down_ok s \<and> loops_ok s"
proof (induction rule: sreachable.induct)
  case (s_init now wall)
  show ?case by (simp add: down_ok_def loops_ok_def NewServer_def InjectBroker_def NewListener_def idle_def)
next
  case (s_move s s')
  have "down_ok s \<and> loops_ok s" using s_move sstep_starts [OF s_move(3)] by simp
  with s_move show ?case using sreachable_runs [OF s_move(1)] by (intro sstep_once [OF s_move(3)]) auto
qed

subsection \<open>After a clean stop\<close>

definition stores :: "broker \<Rightarrow> session_store \<times> subscriptionIndex \<times> retained_store \<times> client_registry" where
  "stores b = (b_sessions b, b_index b, b_retained b, b_registry b)"

definition all_torn :: "world \<Rightarrow> bool" where
  "all_torn w = (\<forall>k p. mget (w_phase w) k = Some p \<longrightarrow> p = TornDown)"

definition quiesced :: "server \<Rightarrow> bool" where
  "quiesced s =
     (\<not> ls_started (sv_listener s) \<and> \<not> ls_listening (sv_listener s) \<and> idle (sv_listener s) \<and> sv_loops s = []
      \<and> all_torn (sv_world s))"

lemma conn_step_torn:
  assumes "conn_step auth w w'" and "all_torn w"
  shows "all_torn w' \<and> stores (w_broker w') = stores (w_broker w)"
  using assms
  by (induction rule: conn_step.induct)
    (force simp: all_torn_def stores_def writeConn_def breakSocket_def setConn_def split: option.split)+

lemma serve_step_torn:
  assumes "serve_step auth (l, w) (l', w')" and "all_torn w" and "\<not> ls_listening l" and "idle l"
  shows "all_torn w' \<and> stores (w_broker w') = stores (w_broker w)"
  using assms by (cases rule: serve_step.cases) (auto simp: idle_def conn_step_torn)

text \<open>Further steps of the same life.\<close>

definition later :: "server \<Rightarrow> server \<Rightarrow> bool" where
  "later s s' = (sstep s s' \<and> sv_starts s' = sv_starts s)"

lemma run_step_quiesced:
  assumes "run_step s s'" and "quiesced s"
  shows "quiesced s' \<and> stores (w_broker (sv_world s')) = stores (w_broker (sv_world s))"
  using assms
proof (induction rule: run_step.induct)
  case (ru_serve s l w)
  then show ?case
    using serve_step_flags [OF ru_serve(1)] serve_step_idle [OF ru_serve(1)] serve_step_torn [OF ru_serve(1)]
    by (simp add: quiesced_def)
qed (auto simp: quiesced_def)

lemma later_quiesced:
  assumes "later s s'" and "quiesced s"
  shows "quiesced s' \<and> stores (w_broker (sv_world s')) = stores (w_broker (sv_world s))"
proof -
  from assms(1) have "sstep s s'" and same: "sv_starts s' = sv_starts s" by (auto simp: later_def)
  then show ?thesis using assms(2)
  proof (induction rule: sstep.induct)
    case (s_start s failed)
    then show ?case by (auto simp: quiesced_def start_defs Let_def idle_def split: option.splits if_splits)
  next
    case (s_begin s)
    then show ?case by (auto simp: quiesced_def Stop_begin_def listener_Stop_def)
  next
    case (s_stop s s')
    then show ?case
      by (auto elim!: stop_stepE simp: quiesced_def stop_defs stopDone_def idle_def split: option.splits)
  next
    case (s_run s s')
    then show ?case using run_step_quiesced by blast
  qed
qed

lemma later_quiesced_star:
  "later\<^sup>*\<^sup>* s s' \<Longrightarrow> quiesced s \<Longrightarrow> quiesced s' \<and> stores (w_broker (sv_world s')) = stores (w_broker (sv_world s))"
  by (induction rule: rtranclp_induct) (use later_quiesced in fastforce)+

subsection \<open>The process\<close>

text \<open>\<open>run\<close> of \<open>cmd/main.go\<close> up to the wait for a signal; \<open>version\<close> is stamped by the linker.\<close>

definition run_start ::
  "string \<Rightarrow> app_error + bytes \<Rightarrow> (bytes \<Rightarrow> appConfig \<Rightarrow> app_error + appConfig) \<Rightarrow> environment \<Rightarrow> string \<Rightarrow> time \<Rightarrow> time
    \<Rightarrow> app_error option \<Rightarrow> app_error + server" where
  "run_start configPath file parse env version now wall failed =
     andThen (Load configPath file parse env) (\<lambda>cfg.
       let cfg = (if version \<noteq> ''dev'' then cfg\<lparr>ac_Broker := (ac_Broker cfg)\<lparr>bc_Version := version\<rparr>\<rparr> else cfg);
           srv = NewServer cfg (InjectBroker cfg now wall)
       in case server_Start srv failed of
            (Some err, srv) \<Rightarrow> Inl err
          | (None, srv) \<Rightarrow> Inr srv)"

lemma Validate_version: "Validate (cfg\<lparr>ac_Broker := (ac_Broker cfg)\<lparr>bc_Version := v\<rparr>\<rparr>) = Validate cfg"
  by (simp add: Validate_def)

text \<open>The process either fails with the error of the configuration or of the socket, or it is up: the configuration it runs with is
  valid, the MQTT socket listens, no connection is open, one background loop is on its way and the admin API listens exactly when it
  is enabled. What it then does is a run of the server.\<close>

theorem run_start_up:
  "case run_start path file parse env version now wall failed of
     Inl err \<Rightarrow> Load path file parse env = Inl err
       \<or> (\<exists>e. failed = Some e \<and> err_kind err = KindUnavailable \<and> err_code err = ''listen_failed'')
   | Inr s \<Rightarrow> failed = None \<and> Validate (sv_cfg s) = None \<and> sreachable (sv_cfg s) s
       \<and> ls_listening (sv_listener s) \<and> ConnectionCount (sv_listener s) = 0 \<and> length (sv_loops s) = 1
       \<and> (sv_admin s = Some AdminListening \<longleftrightarrow> ad_Enabled (ac_Admin (sv_cfg s)))
       \<and> (version \<noteq> ''dev'' \<longrightarrow> bc_Version (ac_Broker (sv_cfg s)) = version)"
proof (cases "Load path file parse env")
  case (Inl err)
  then show ?thesis by (simp add: run_start_def andThen_def)
next
  case (Inr cfg)
  let ?cfg = "if version \<noteq> ''dev'' then cfg\<lparr>ac_Broker := (ac_Broker cfg)\<lparr>bc_Version := version\<rparr>\<rparr> else cfg"
  have "Validate cfg = None"
    using Inr unfolding Load_def andThen_Inr_iff by (auto simp: Let_def split: option.splits)
  then have "Validate ?cfg = None" by (simp add: Validate_version)
  moreover have "sreachable ?cfg (snd (server_Start (NewServer ?cfg (InjectBroker ?cfg now wall)) None))"
    by (rule s_move [OF s_init _ s_start]) (simp_all add: NewServer_def InjectBroker_def)
  ultimately show ?thesis
    using Inr
    by (cases failed)
      (auto simp: run_start_def andThen_def Let_def start_defs NewServer_def InjectBroker_def NewListener_def ConnectionCount_def Wrap_def)
qed

subsection \<open>What a stop guarantees\<close>


fun stop_rank :: "stop_phase \<Rightarrow> nat" where
  "stop_rank Draining = 4"
| "stop_rank ClosingAdmin = 3"
| "stop_rank CancellingLoops = 2"
| "stop_rank AwaitingLoops = 1"
| "stop_rank p = 0"

lemma stop_step_rank: "stop_step s s' \<Longrightarrow> stop_rank (sv_stop s') < stop_rank (sv_stop s) \<and> sv_stop s' \<noteq> Idle"
  by (erule stop_stepE) (auto simp: stop_defs split: option.split)

lemma stop_step_exists: "sv_stop s \<notin> {Idle, Finished} \<Longrightarrow> \<exists>s'. stop_step s s'"
  by (cases "sv_stop s") (auto intro: stop_step.intros)

lemma stop_steps_return:
  "sv_stop s \<noteq> Idle \<Longrightarrow> \<exists>n \<le> stop_rank (sv_stop s). \<exists>s'. (stop_step ^^ n) s s' \<and> sv_stop s' = Finished"
proof (induction "stop_rank (sv_stop s)" arbitrary: s rule: less_induct)
  case less
  show ?case
  proof (cases "sv_stop s = Finished")
    case True
    then show ?thesis by (intro exI [of _ 0]) auto
  next
    case False
    with less.prems obtain s1 where s1: "stop_step s s1" using stop_step_exists by blast
    from less.hyps stop_step_rank [OF s1] obtain n s' where
      n: "n \<le> stop_rank (sv_stop s1)" "(stop_step ^^ n) s1 s'" "sv_stop s' = Finished" by blast
    from relpowp_Suc_I2 [of stop_step, OF s1 n(2)] n stop_step_rank [OF s1] show ?thesis by (intro exI [of _ "Suc n"]) auto
  qed
qed


text \<open>Claim C24. When \<open>Stop\<close> has returned and none of its waits has timed out, nothing is left running: the socket is closed, no connection is
  tracked and all are torn down, the admin API does not listen, the background loop has ended. And nothing writes to a store any
  more: sessions, subscriptions, retained messages and registered clients stay as they are until another \<open>Start\<close>.\<close>

theorem shutdown_final:
  assumes "sreachable cfg s" and "\<not> sv_panicked s" and "sv_starts s \<le> 1" and "sv_stop s = Finished" and "sv_drained s"
  shows "\<not> ls_listening (sv_listener s) \<and> ConnectionCount (sv_listener s) = 0
    \<and> (\<forall>k p. mget (w_phase (sv_world s)) k = Some p \<longrightarrow> p = TornDown)
    \<and> sv_admin s \<noteq> Some AdminListening \<and> sv_loops s = []
    \<and> (\<forall>s'. later\<^sup>*\<^sup>* s s' \<longrightarrow> stores (w_broker (sv_world s')) = stores (w_broker (sv_world s)))"
proof -
  have ok: "listener_ok (GetConnectionConfig cfg) (sv_listener s, sv_world s)"
    using sreachable_runs [OF assms(1)] unfolding runs_def by (intro lreachable_ok) blast
  have d: "down_ok s" "loops_ok s" using sreachable_once [OF assms(1,3,2)] by auto
  have i: "\<not> ls_started (sv_listener s)" "\<not> ls_listening (sv_listener s)" "idle (sv_listener s)" "sv_admin s \<noteq> Some AdminListening"
    using d(1) assms(4,5) by (simp_all add: down_ok_def)
  have l: "sv_loops s = []" using d(2) assms(4,5) by (auto simp: loops_ok_def split: if_splits)
  have t: "all_torn (sv_world s)" using ok i(3) by (auto simp: listener_ok_def idle_def all_torn_def)
  have "quiesced s" using i l t by (simp add: quiesced_def)
  then have "\<forall>s'. later\<^sup>*\<^sup>* s s' \<longrightarrow> stores (w_broker (sv_world s')) = stores (w_broker (sv_world s))"
    using later_quiesced_star by blast
  moreover have "ConnectionCount (sv_listener s) = 0" using ok i(3) by (simp add: idle_def listener_ok_def ConnectionCount_def)
  ultimately show ?thesis using i l t unfolding all_torn_def by blast
qed

subsection \<open>A life of the process\<close>

text \<open>Started, with the loop of number \<open>g\<close> ticking; and a stop with no connection open, up to the cancellation of the loop.\<close>

definition started :: "server \<Rightarrow> nat \<Rightarrow> server" where
  "started s g = loop_begin (snd (server_Start s None)) g \<lparr>lp_ticking = False, lp_cancelled = False\<rparr>"

definition halting :: "server \<Rightarrow> server" where
  "halting s = Stop_cancel (Stop_admin (Stop_listener (Stop_begin s) False) None)"

definition served_once :: "appConfig \<Rightarrow> server" where
  "served_once cfg = Stop_await (loop_return (halting (started (NewServer cfg (InjectBroker cfg 0 0)) 0)) 0) False"

text \<open>Ready to start: nothing runs. Ticking: one loop runs and the listener is idle.\<close>

definition ready :: "server \<Rightarrow> bool" where
  "ready s = (\<not> sv_panicked s \<and> sv_stop s \<in> {Idle, Finished} \<and> \<not> ls_started (sv_listener s) \<and> idle (sv_listener s)
     \<and> sv_loops s = [] \<and> sv_drained s \<and> \<not> startPanics (sv_cfg s))"

definition ticking :: "nat \<Rightarrow> server \<Rightarrow> bool" where
  "ticking g s = (\<not> sv_panicked s \<and> sv_stop s = Idle \<and> ls_started (sv_listener s) \<and> idle (sv_listener s)
     \<and> sv_cancel s = Some g \<and> sv_loops s = [(g, \<lparr>lp_ticking = True, lp_cancelled = False\<rparr>)] \<and> sv_drained s \<and> sv_starts s = Suc g)"

definition ending :: "nat \<Rightarrow> server \<Rightarrow> bool" where
  "ending g s = (\<not> sv_panicked s \<and> sv_stop s = AwaitingLoops \<and> \<not> ls_started (sv_listener s) \<and> idle (sv_listener s)
     \<and> sv_loops s = [(g, \<lparr>lp_ticking = True, lp_cancelled = True\<rparr>)] \<and> sv_drained s \<and> sv_starts s = Suc g)"

lemma started_reachable:
  assumes "sreachable cfg s" and "ready s"
  shows "sreachable cfg (started s (sv_starts s)) \<and> ticking (sv_starts s) (started s (sv_starts s))
    \<and> sv_background (started s (sv_starts s)) = sv_background s"
proof -
  let ?s = "snd (server_Start s None)"
  have 1: "sreachable cfg ?s" using assms by (intro s_move [OF assms(1) _ s_start]) (simp_all add: ready_def)
  have f: "\<not> sv_panicked ?s" "mget (sv_loops ?s) (sv_starts s) = Some \<lparr>lp_ticking = False, lp_cancelled = False\<rparr>"
    "sv_loops ?s = [(sv_starts s, \<lparr>lp_ticking = False, lp_cancelled = False\<rparr>)]" "sv_stop ?s = Idle"
    "ls_started (sv_listener ?s)" "idle (sv_listener ?s)" "sv_cancel ?s = Some (sv_starts s)" "sv_drained ?s"
    "sv_starts ?s = Suc (sv_starts s)" "sv_background ?s = sv_background s" "sv_cfg ?s = sv_cfg s"
    using assms(2) by (simp_all add: ready_def start_defs Let_def idle_def)
  have "sreachable cfg (started s (sv_starts s))"
    unfolding started_def by (rule s_move [OF 1 f(1) s_run [OF ru_begin [OF f(2)]]]) simp
  moreover have "\<not> startPanics (sv_cfg ?s)" using assms(2) f(11) by (simp add: ready_def)
  ultimately show ?thesis using f by (simp add: started_def loop_begin_def ticking_def)
qed

lemma halting_reachable:
  assumes "sreachable cfg s" and "ticking g s"
  shows "sreachable cfg (halting s) \<and> ending g (halting s) \<and> sv_background (halting s) = sv_background s"
proof -
  let ?a = "Stop_begin s" and ?b = "Stop_listener (Stop_begin s) False"
  have 1: "sreachable cfg ?a" using assms by (intro s_move [OF assms(1) _ s_begin]) (simp_all add: ticking_def)
  have f: "\<not> sv_panicked ?a" "sv_stop ?a = Draining" "idle (sv_listener ?a)" "sv_cancel ?a = Some g"
    "sv_loops ?a = [(g, \<lparr>lp_ticking = True, lp_cancelled = False\<rparr>)]" "sv_drained ?a" "sv_starts ?a = Suc g"
    "sv_background ?a = sv_background s"
    using assms(2) by (simp_all add: ticking_def Stop_begin_def listener_Stop_def idle_def)
  have 2: "sreachable cfg ?b" using f(3) by (intro s_move [OF 1 f(1) s_stop [OF st_listener [OF f(2)]]]) simp
  have g: "\<not> sv_panicked ?b" "sv_stop ?b = ClosingAdmin" "\<not> ls_started (sv_listener ?b)" "idle (sv_listener ?b)"
    using f by (simp_all add: Stop_listener_def stopDone_def idle_def)
  have 3: "sreachable cfg (Stop_admin ?b None)" by (rule s_move [OF 2 g(1) s_stop [OF st_admin [OF g(2)]]])
  have h: "\<not> sv_panicked (Stop_admin ?b None)" "sv_stop (Stop_admin ?b None) = CancellingLoops"
    "sv_listener (Stop_admin ?b None) = sv_listener ?b" "sv_cancel (Stop_admin ?b None) = Some g"
    "sv_loops (Stop_admin ?b None) = [(g, \<lparr>lp_ticking = True, lp_cancelled = False\<rparr>)]" "sv_drained (Stop_admin ?b None)"
    "sv_starts (Stop_admin ?b None) = Suc g" "sv_background (Stop_admin ?b None) = sv_background s"
    using f g by (simp_all add: Stop_admin_def Stop_listener_def split: option.split)
  have "sreachable cfg (halting s)" unfolding halting_def by (rule s_move [OF 3 h(1) s_stop [OF st_cancel [OF h(2)]]])
  then show ?thesis using g h by (simp add: halting_def Stop_cancel_def ending_def)
qed

lemma ending_return:
  assumes "sreachable cfg s" and "ending g s"
  shows "sreachable cfg (loop_return s g)"
    and "\<not> sv_background s \<Longrightarrow> sreachable cfg (Stop_await (loop_return s g) False)"
proof -
  have e: "\<not> sv_panicked s" "mget (sv_loops s) g = Some \<lparr>lp_ticking = True, lp_cancelled = True\<rparr>" "sv_stop s = AwaitingLoops"
    using assms(2) by (simp_all add: ending_def)
  show 1: "sreachable cfg (loop_return s g)"
    by (rule s_move [OF assms(1) e(1) s_run [OF ru_return [OF e(2)]]]) simp_all
  show "sreachable cfg (Stop_await (loop_return s g) False)" if "\<not> sv_background s"
    using e that by (intro s_move [OF 1 _ s_stop [OF st_await]]) (simp_all add: loop_return_def)
qed

lemma sreachable_cfg: "sreachable cfg s \<Longrightarrow> sv_cfg s = cfg"
  using sreachable_runs by blast

lemma served_once_reachable:
  assumes "\<not> startPanics cfg"
  shows "sreachable cfg (served_once cfg) \<and> ready (served_once cfg) \<and> sv_stop (served_once cfg) = Finished
    \<and> sv_starts (served_once cfg) = 1 \<and> sv_background (served_once cfg)"
proof -
  let ?s0 = "NewServer cfg (InjectBroker cfg 0 0)"
  have "ready ?s0" using assms by (simp add: ready_def NewServer_def InjectBroker_def NewListener_def idle_def)
  from started_reachable [OF s_init this]
  have s: "sreachable cfg (started ?s0 0)" "ticking 0 (started ?s0 0)" "\<not> sv_background (started ?s0 0)"
    by (simp_all add: NewServer_def InjectBroker_def)
  let ?h = "halting (started ?s0 0)"
  from halting_reachable [OF s(1,2)] s(3) have h: "sreachable cfg ?h" "ending 0 ?h" "\<not> sv_background ?h" by simp_all
  have r: "sreachable cfg (served_once cfg)" unfolding served_once_def by (rule ending_return(2) [OF h])
  moreover have "ready (served_once cfg) \<and> sv_stop (served_once cfg) = Finished
      \<and> sv_starts (served_once cfg) = 1 \<and> sv_background (served_once cfg)"
    using h(2,3) assms sreachable_cfg [OF r]
    unfolding ready_def by (simp add: served_once_def loop_return_def Stop_await_def ending_def)
  ultimately show ?thesis by blast
qed

lemma run_start_up_witness:
  "\<exists>s. run_start '''' (Inr []) (\<lambda>raw cfg. Inr cfg) (\<lambda>name. '''') ''1.2'' 0 0 None = Inr s \<and> ls_listening (sv_listener s)
    \<and> bc_Version (ac_Broker (sv_cfg s)) = ''1.2''"
proof -
  have "\<exists>s. run_start '''' (Inr []) (\<lambda>raw cfg. Inr cfg) (\<lambda>name. '''') ''1.2'' 0 0 None = Inr s"
    by (simp add: run_start_def Load_def andThen_def start_defs NewServer_def InjectBroker_def NewListener_def Let_def applyEnv_def envString_def
        envInt_def envBool_def envUsers_def Default_def Validate_def)
  then show ?thesis
    using run_start_up [of "''''" "Inr []" "\<lambda>raw cfg. Inr cfg" "\<lambda>name. ''''" None "''1.2''" 0 0] by auto
qed

lemma Default_no_panic: "\<not> startPanics Default"
  by (simp add: startPanics_def Default_def second_def)



lemma shutdown_final_witness: "sv_loops (served_once Default) = [] \<and> ConnectionCount (sv_listener (served_once Default)) = 0"
  using shutdown_final [of Default "served_once Default"] served_once_reachable [OF Default_no_panic] by (simp add: ready_def)

text \<open>A server cannot be started again, although the listener can: the channel \<open>background\<close> is made once, in \<open>NewServer\<close>, so the second
  life of the loop ends with closing a closed channel, which panics.\<close>

lemma restart_panics:
  assumes "\<not> startPanics cfg"
  shows "\<exists>s. sreachable cfg s \<and> sv_starts s = 2 \<and> sv_panicked s"
proof -
  note once = served_once_reachable [OF assms]
  let ?s = "started (served_once cfg) 1"
  have s: "sreachable cfg ?s" "ticking 1 ?s" "sv_background ?s"
    using started_reachable [of cfg "served_once cfg"] once by auto
  have h: "sreachable cfg (halting ?s)" "ending 1 (halting ?s)" "sv_background (halting ?s)"
    using halting_reachable [OF s(1,2)] s(3) by auto
  have "sv_panicked (loop_return (halting ?s) 1)" "sv_starts (loop_return (halting ?s) 1) = 2"
    using h(2,3) by (simp_all add: loop_return_def ending_def)
  with ending_return(1) [OF h(1,2)] show ?thesis by blast
qed

end
