(* ===== verification/Mqtt_Client.thy ===== *)
theory Mqtt_Client
  imports Connecting
begin

text \<open>
  The client library (\<open>pkg/client/client.go\<close>): the handshake, the requests that wait for an
  acknowledgement, and the read loop. The state of a \<open>Client\<close> is a record; a channel made by
  \<open>expect\<close> is a reference to a buffer of one packet; the socket is the list of the packets written to it.
  A request runs while the read loop of the same client handles packets: it takes as an argument what
  the read loop reads before the \<open>select\<close> fires and which of the ready cases fires, so that every
  interleaving of the two goroutines is a choice of these arguments. \<open>None\<close> says that the chosen case is not
  ready. The result of dialling and the clock are arguments.

  The lemmas show that identifiers are never 0 and come round only after 65535 allocations, that an
  acknowledgement wakes the request with its identifier and no other, that every message is handed to the handler once
  and acknowledged after that, and that the pings of a client keep it inside the window of the broker.
\<close>

subsection \<open>The state\<close>

record client_message =
  cm_Topic :: string
  cm_Payload :: bytes
  cm_QoS :: byte
  cm_Retained :: bool
  cm_DUP :: bool
  cm_PacketID :: u16
  cm_ReceivedAt :: time

record client_options =
  co_Address :: string
  co_ClientID :: string
  co_CleanSession :: bool
  co_KeepAlive :: u16
  co_Username :: string
  co_Password :: string
  co_ConnectTimeout :: duration
  co_AckTimeout :: duration
  co_OnMessage :: bool \<comment> \<open>whether a handler is set\<close>
  co_Will :: "will option"
  co_SuppressPing :: bool

datatype cli_error =
    ErrNotConnected
  | ErrConnectionRefused byte
  | ErrTimeout
  | DialFailed string
  | WriteFailed codec_error
  | SocketClosed
  | ReadingConnack codec_error
  | ExpectedConnack ptype
  | ReadFailed codec_error
  | MalformedSuback
  | SubscriptionRefused string

definition options_withDefaults :: "client_options \<Rightarrow> client_options" where
  "options_withDefaults opts =
     (let opts = (if co_ConnectTimeout opts \<le> 0 then opts\<lparr>co_ConnectTimeout := 10 * second\<rparr> else opts)
      in if co_AckTimeout opts \<le> 0 then opts\<lparr>co_AckTimeout := 10 * second\<rparr> else opts)"

type_synonym chan_ref = nat

record mqtt_client =
  mc_opts :: client_options
  mc_conn :: bool \<comment> \<open>\<open>conn\<close> is not nil\<close>
  mc_socketOpen :: bool
  mc_written :: "packet list"
  mc_pending :: "(u16, chan_ref) gomap"
  mc_chans :: "(chan_ref, packet option) gomap"
  mc_nextPacketID :: u32
  mc_done :: bool
  mc_readErr :: "codec_error option"
  mc_SessionPresent :: bool
  mc_received :: "client_message list" \<comment> \<open>the calls of \<open>OnMessage\<close>\<close>

definition cli_New :: "client_options \<Rightarrow> mqtt_client" where
  "cli_New opts =
     \<lparr>mc_opts = options_withDefaults opts, mc_conn = False, mc_socketOpen = False, mc_written = [], mc_pending = [],
      mc_chans = [], mc_nextPacketID = 0, mc_done = False, mc_readErr = None, mc_SessionPresent = False,
      mc_received = []\<rparr>"

subsection \<open>Writing, closing, identifiers and waiters\<close>

definition cli_write :: "mqtt_client \<Rightarrow> packet \<Rightarrow> cli_error option \<times> mqtt_client" where
  "cli_write c p =
     (case Encode [] p of
        Inl err \<Rightarrow> (Some (WriteFailed err), c)
      | Inr bs \<Rightarrow>
          if mc_socketOpen c then (None, c\<lparr>mc_written := mc_written c @ [p]\<rparr>)
          else (Some SocketClosed, c))"

definition cli_close :: "mqtt_client \<Rightarrow> mqtt_client" where
  "cli_close c = (if mc_done c then c else c\<lparr>mc_done := True, mc_socketOpen := False\<rparr>)"

definition closedError :: "mqtt_client \<Rightarrow> cli_error" where
  "closedError c = (case mc_readErr c of Some err \<Rightarrow> ReadFailed err | None \<Rightarrow> ErrNotConnected)"

function allocateLoop :: "u32 \<Rightarrow> u16 \<times> u32" where
  "allocateLoop n = (let next = n + 1; i = (ucast next :: u16) in if i \<noteq> 0 then (i, next) else allocateLoop next)"
  by pat_completeness auto

lemma ucast_Suc: "(ucast (n + 1 :: u32) :: u16) = ucast n + 1"
proof -
  have "(m + 1) mod 65536 = (m mod 4294967296 + 1) mod 65536" for m :: int
  proof -
    have "m mod 4294967296 mod 65536 = m mod 65536" by (rule mod_mod_cancel) simp
    then show ?thesis by (metis mod_add_left_eq)
  qed
  then show ?thesis by transfer (simp add: take_bit_eq_mod mod_simps mod_mod_cancel)
qed

termination allocateLoop
  by (relation "measure (\<lambda>n. if (ucast (n + 1) :: u16) = 0 then 1 else 0)") (auto simp: ucast_Suc)

declare allocateLoop.simps [simp del]

definition allocatePacketID :: "mqtt_client \<Rightarrow> u16 \<times> mqtt_client" where
  "allocatePacketID c = (let (i, next) = allocateLoop (mc_nextPacketID c) in (i, c\<lparr>mc_nextPacketID := next\<rparr>))"

definition expect :: "mqtt_client \<Rightarrow> u16 \<Rightarrow> chan_ref \<times> mqtt_client" where
  "expect c packetID =
     (let ch = fresh_ref (mc_chans c)
      in (ch, c\<lparr>mc_chans := mput ch None (mc_chans c), mc_pending := mput packetID ch (mc_pending c)\<rparr>))"

definition forget :: "mqtt_client \<Rightarrow> u16 \<Rightarrow> mqtt_client" where
  "forget c packetID = c\<lparr>mc_pending := mdel packetID (mc_pending c)\<rparr>"

text \<open>The cases of the \<open>select\<close> of a waiting request.\<close>

datatype wake = WAck | WTimer | WDone

fun select_ack :: "mqtt_client \<Rightarrow> chan_ref \<Rightarrow> wake \<Rightarrow> ((cli_error + packet) \<times> mqtt_client) option" where
  "select_ack c ch WAck =
     (case mget (mc_chans c) ch of
        Some (Some p) \<Rightarrow> Some (Inr p, c\<lparr>mc_chans := mput ch None (mc_chans c)\<rparr>)
      | _ \<Rightarrow> None)"
| "select_ack c ch WTimer = Some (Inl ErrTimeout, c)"
| "select_ack c ch WDone = (if mc_done c then Some (Inl (closedError c), c) else None)"

definition cli_await :: "mqtt_client \<Rightarrow> chan_ref \<Rightarrow> wake \<Rightarrow> (cli_error option \<times> mqtt_client) option" where
  "cli_await c ack wake =
     map_option (\<lambda>(r, c). (case r of Inl e \<Rightarrow> Some e | Inr p \<Rightarrow> None, c)) (select_ack c ack wake)"

subsection \<open>The read loop\<close>

definition cli_handlePublish :: "time \<Rightarrow> mqtt_client \<Rightarrow> publish \<Rightarrow> mqtt_client" where
  "cli_handlePublish now c p =
     (let c = (if co_OnMessage (mc_opts c)
               then c\<lparr>mc_received := mc_received c @
                 [\<lparr>cm_Topic = p_Topic p, cm_Payload = p_Payload p, cm_QoS = p_QoS p, cm_Retained = p_Retain p,
                   cm_DUP = p_DUP p, cm_PacketID = p_PacketID p, cm_ReceivedAt = now\<rparr>]\<rparr>
               else c)
      in if p_QoS p = 1 then snd (cli_write c (PAck (NewPuback (p_PacketID p)))) else c)"

definition cli_deliver :: "mqtt_client \<Rightarrow> u16 \<Rightarrow> packet \<Rightarrow> mqtt_client" where
  "cli_deliver c packetID p =
     (case mget (mc_pending c) packetID of
        None \<Rightarrow> c
      | Some ch \<Rightarrow>
          (case mget (mc_chans c) ch of
             Some None \<Rightarrow> c\<lparr>mc_chans := mput ch (Some p) (mc_chans c)\<rparr>
           | _ \<Rightarrow> c))"

fun cli_dispatch :: "time \<Rightarrow> mqtt_client \<Rightarrow> packet \<Rightarrow> mqtt_client" where
  "cli_dispatch now c (PPublish p) = cli_handlePublish now c p"
| "cli_dispatch now c (PAck a) = cli_deliver c (ack_PacketID a) (PAck a)"
| "cli_dispatch now c (PSuback s) = cli_deliver c (sa_PacketID s) (PSuback s)"
| "cli_dispatch now c p = c"

text \<open>Each element is what one call of \<open>ReadPacket\<close> returned, with the time of its return; the loop is blocked in the next
  call at the end of the list.\<close>

type_synonym reads = "(time \<times> (codec_error + packet)) list"

fun cli_readLoop :: "mqtt_client \<Rightarrow> reads \<Rightarrow> mqtt_client" where
  "cli_readLoop c [] = c"
| "cli_readLoop c ((now, Inl err) # rs) = cli_close (c\<lparr>mc_readErr := Some err\<rparr>)"
| "cli_readLoop c ((now, Inr p) # rs) = cli_readLoop (cli_dispatch now c p) rs"

subsection \<open>Requests\<close>

definition connect_packet :: "client_options \<Rightarrow> connect" where
  "connect_packet opts =
     \<lparr>c_ProtocolName = ProtocolName, c_ProtocolLevel = ProtocolLevel311, c_CleanSession = co_CleanSession opts,
      c_KeepAlive = co_KeepAlive opts, c_ClientID = co_ClientID opts, c_Will = co_Will opts,
      c_Username = co_Username opts, c_Password = bytes_of (co_Password opts),
      c_HasUsername = (co_Username opts \<noteq> ''''), c_HasPassword = (co_Password opts \<noteq> '''')\<rparr>"

definition cli_Connect ::
  "mqtt_client \<Rightarrow> string option \<Rightarrow> codec_error + packet \<Rightarrow> cli_error option \<times> mqtt_client" where
  "cli_Connect c dialled response =
     (case dialled of
        Some err \<Rightarrow> (Some (DialFailed err), c)
      | None \<Rightarrow>
          let c = c\<lparr>mc_conn := True, mc_socketOpen := True, mc_nextPacketID := 0\<rparr>;
              closed = (\<lambda>c. c\<lparr>mc_socketOpen := False\<rparr>) in
          (case cli_write c (PConnect (connect_packet (mc_opts c))) of
             (Some err, c) \<Rightarrow> (Some err, closed c)
           | (None, c) \<Rightarrow>
               (case response of
                  Inl err \<Rightarrow> (Some (ReadingConnack err), closed c)
                | Inr (PConnack connack) \<Rightarrow>
                    if ca_ReturnCode connack \<noteq> ConnectAccepted
                    then (Some (ErrConnectionRefused (ca_ReturnCode connack)), closed c)
                    else (None, c\<lparr>mc_SessionPresent := ca_SessionPresent connack\<rparr>)
                | Inr p \<Rightarrow> (Some (ExpectedConnack (packet_Type p)), closed c))))"

definition cli_Publish ::
  "mqtt_client \<Rightarrow> string \<Rightarrow> bytes \<Rightarrow> byte \<Rightarrow> bool \<Rightarrow> reads \<Rightarrow> wake \<Rightarrow> (cli_error option \<times> mqtt_client) option" where
  "cli_Publish c topic payload qos retain reads wake =
     (if \<not> mc_conn c then Some (Some ErrNotConnected, c)
      else
        let p = \<lparr>p_DUP = False, p_QoS = qos, p_Retain = retain, p_Topic = topic, p_PacketID = 0, p_Payload = payload\<rparr> in
        if qos = 0 then Some (cli_write c (PPublish p))
        else
          let (packetID, c) = allocatePacketID c;
              p = p\<lparr>p_PacketID := packetID\<rparr>;
              (ack, c) = expect c packetID in
          (case cli_write c (PPublish p) of
             (Some err, c) \<Rightarrow> Some (Some err, forget c packetID)
           | (None, c) \<Rightarrow>
               map_option (\<lambda>(r, c). (r, forget c packetID)) (cli_await (cli_readLoop c reads) ack wake)))"

definition cli_Subscribe ::
  "mqtt_client \<Rightarrow> string \<Rightarrow> byte \<Rightarrow> reads \<Rightarrow> wake \<Rightarrow> ((cli_error + byte) \<times> mqtt_client) option" where
  "cli_Subscribe c filt qos reads wake =
     (if \<not> mc_conn c then Some (Inl ErrNotConnected, c)
      else
        let (packetID, c) = allocatePacketID c;
            (ack, c) = expect c packetID in
        (case cli_write c (PSubscribe \<lparr>s_PacketID = packetID, s_Subscriptions = [\<lparr>ts_Filter = filt, ts_QoS = qos\<rparr>]\<rparr>) of
           (Some err, c) \<Rightarrow> Some (Inl err, forget c packetID)
         | (None, c) \<Rightarrow>
             map_option (\<lambda>(r, c).
               (case r of
                  Inl err \<Rightarrow> Inl err
                | Inr (PSuback suback) \<Rightarrow>
                    (case sa_ReturnCodes suback of
                       [] \<Rightarrow> Inl MalformedSuback
                     | code # _ \<Rightarrow> if code = SubackFailure then Inl (SubscriptionRefused filt) else Inr code)
                | Inr _ \<Rightarrow> Inl MalformedSuback, forget c packetID))
               (select_ack (cli_readLoop c reads) ack wake)))"

definition cli_Unsubscribe ::
  "mqtt_client \<Rightarrow> string \<Rightarrow> reads \<Rightarrow> wake \<Rightarrow> (cli_error option \<times> mqtt_client) option" where
  "cli_Unsubscribe c filt reads wake =
     (if \<not> mc_conn c then Some (Some ErrNotConnected, c)
      else
        let (packetID, c) = allocatePacketID c;
            (ack, c) = expect c packetID in
        (case cli_write c (PUnsubscribe \<lparr>u_PacketID = packetID, u_Filters = [filt]\<rparr>) of
           (Some err, c) \<Rightarrow> Some (Some err, forget c packetID)
         | (None, c) \<Rightarrow>
             map_option (\<lambda>(r, c). (r, forget c packetID)) (cli_await (cli_readLoop c reads) ack wake)))"

definition cli_Ping :: "mqtt_client \<Rightarrow> cli_error option \<times> mqtt_client" where
  "cli_Ping c = (if \<not> mc_conn c then (Some ErrNotConnected, c) else cli_write c (PSimple NewPingreq))"

definition cli_Disconnect :: "mqtt_client \<Rightarrow> cli_error option \<times> mqtt_client" where
  "cli_Disconnect c =
     (if \<not> mc_conn c then (None, c)
      else let (err, c) = cli_write c (PSimple NewDisconnect) in (err, cli_close c))"

definition cli_Close :: "mqtt_client \<Rightarrow> mqtt_client" where
  "cli_Close c = cli_close c"

text \<open>The interval of the ticker of \<open>keepAliveLoop\<close>, and one round of the loop; \<open>False\<close> says that it has returned.\<close>

definition pingInterval :: "client_options \<Rightarrow> duration" where
  "pingInterval opts =
     (let interval = uint (co_KeepAlive opts) * second div 2 in if interval < second then second else interval)"

definition cli_keepAliveTick :: "mqtt_client \<Rightarrow> bool \<times> mqtt_client" where
  "cli_keepAliveTick c =
     (if mc_done c then (False, c)
      else case cli_Ping c of (Some err, c) \<Rightarrow> (False, c) | (None, c) \<Rightarrow> (True, c))"

subsection \<open>Packet identifiers\<close>

lemma allocateLoop_unat:
  "unat (fst (allocateLoop n)) = 1 + unat (ucast n :: u16) mod 65535"
  "(ucast (snd (allocateLoop n)) :: u16) = fst (allocateLoop n)"
proof -
  let ?u = "ucast n :: u16"
  have wrap: "unat (?u + 1) = (if unat ?u = 65535 then 0 else unat ?u + 1)"
    using unsigned_less [of ?u, where 'a = nat] by (simp add: unat_word_ariths)
  have two: "(ucast (2 + n) :: u16) = ?u + 1 + 1" 
    using ucast_Suc [of "n + 1"] ucast_Suc [of n] by (simp add: add.commute)
  have lt: "unat ?u < 65536" using unsigned_less [of ?u, where 'a = nat] by simp
  show "unat (fst (allocateLoop n)) = 1 + unat (ucast n :: u16) mod 65535"
  proof (cases "?u + 1 = 0")
    case True
    then have "unat ?u = 65535" using wrap by (metis Suc_eq_plus1 nat.distinct(1) unat_0)
    with True show ?thesis by (simp add: allocateLoop.simps [of n] allocateLoop.simps [of "n + 1"] Let_def ucast_Suc two)
  next
    case False
    then have "unat ?u \<noteq> 65535" using wrap by (metis unat_eq_zero)
    with False wrap lt show ?thesis by (simp add: allocateLoop.simps [of n] Let_def ucast_Suc two)
  qed
  show "(ucast (snd (allocateLoop n)) :: u16) = fst (allocateLoop n)"
    by (cases "?u + 1 = 0")
      (simp_all add: allocateLoop.simps [of n] allocateLoop.simps [of "n + 1"] Let_def ucast_Suc two)
qed

fun allocateMany :: "nat \<Rightarrow> mqtt_client \<Rightarrow> u16 list" where
  "allocateMany 0 c = []"
| "allocateMany (Suc k) c = (let (i, c) = allocatePacketID c in i # allocateMany k c)"

lemma length_allocateMany [simp]: "length (allocateMany k c) = k"
  by (induction k arbitrary: c) (simp_all add: split_def Let_def)

lemma allocateMany_nth:
  "i < k \<Longrightarrow> unat (allocateMany k c ! i) = 1 + (unat (ucast (mc_nextPacketID c) :: u16) + i) mod 65535"
proof (induction k arbitrary: c i)
  case (Suc k)
  let ?u = "unat (ucast (mc_nextPacketID c) :: u16)"
  obtain j c' where j: "allocatePacketID c = (j, c')" by force
  have u: "unat j = 1 + ?u mod 65535" "(ucast (mc_nextPacketID c') :: u16) = j"
    using j allocateLoop_unat [of "mc_nextPacketID c"] by (auto simp: allocatePacketID_def Let_def split_def)
  show ?case
  proof (cases i)
    case 0
    with j u show ?thesis by simp
  next
    case (Suc i')
    with Suc.prems Suc.IH [of i' c'] j u show ?thesis by simp (metis add_Suc mod_Suc_eq mod_add_left_eq)
  qed
qed simp

lemma add_mod_inj:
  assumes "(u + i) mod n = (u + j) mod n" and "i < n" and "j < (n :: nat)"
  shows "i = j"
proof -
  have "i mod n = j mod n" using assms(1) unfolding nat_mod_eq_iff by (simp add: add.assoc)
  with assms(2,3) show ?thesis by simp
qed

text \<open>Claim C28. The identifiers that the client library hands out are never 0, and any 65535 consecutive
  ones are different from each other, whatever the 32-bit counter held, also when it wraps around.\<close>

theorem allocatePacketID_distinct:
  assumes "k \<le> 65535"
  shows "distinct (allocateMany k c) \<and> 0 \<notin> set (allocateMany k c)"
proof
  let ?u = "unat (ucast (mc_nextPacketID c) :: u16)"
  show "distinct (allocateMany k c)"
  proof (rule iffD2 [OF distinct_conv_nth], intro allI impI)
    fix i j assume ij: "i < length (allocateMany k c)" "j < length (allocateMany k c)" "i \<noteq> j"
    then have "(?u + i) mod 65535 \<noteq> (?u + j) mod 65535" using assms by (auto dest: add_mod_inj)
    then show "allocateMany k c ! i \<noteq> allocateMany k c ! j"
      using ij allocateMany_nth [of i k c] allocateMany_nth [of j k c] by (metis add_left_imp_eq length_allocateMany)
  qed
  show "0 \<notin> set (allocateMany k c)"
    using allocateMany_nth [of _ k c] by (fastforce simp: in_set_conv_nth)
qed

subsection \<open>Waiters\<close>

text \<open>Every waiter in the table has its own channel.\<close>

definition waiters_ok :: "mqtt_client \<Rightarrow> bool" where
  "waiters_ok c =
     ((\<forall>i ch. mget (mc_pending c) i = Some ch \<longrightarrow> mget (mc_chans c) ch \<noteq> None)
      \<and> (\<forall>i j ch. mget (mc_pending c) i = Some ch \<and> mget (mc_pending c) j = Some ch \<longrightarrow> i = j)
      \<and> map_ok (mc_pending c))"

definition waiting :: "mqtt_client \<Rightarrow> (u16, chan_ref) gomap \<times> (chan_ref, packet option) gomap" where
  "waiting c = (mc_pending c, mc_chans c)"

lemma waiters_ok_cong: "waiting c' = waiting c \<Longrightarrow> waiters_ok c' = waiters_ok c"
  by (simp add: waiters_ok_def waiting_def)

lemma waiting_frame [simp]:
  "waiting (snd (cli_write c p)) = waiting c" "waiting (cli_close c) = waiting c"
  "waiting (c\<lparr>mc_readErr := e\<rparr>) = waiting c" "waiting (snd (allocatePacketID c)) = waiting c"
  "waiting (cli_handlePublish now c q) = waiting c"
  by (simp_all add: waiting_def cli_write_def cli_close_def allocatePacketID_def cli_handlePublish_def Let_def split_def
      split: sum.split)

fun acknowledges :: "packet \<Rightarrow> u16 option" where
  "acknowledges (PAck a) = Some (ack_PacketID a)"
| "acknowledges (PSuback s) = Some (sa_PacketID s)"
| "acknowledges p = None"

text \<open>The first acknowledgement with an identifier, before the read loop ends.\<close>

fun first_ack :: "u16 \<Rightarrow> reads \<Rightarrow> packet option" where
  "first_ack i [] = None"
| "first_ack i ((now, Inl err) # rs) = None"
| "first_ack i ((now, Inr p) # rs) = (if acknowledges p = Some i then Some p else first_ack i rs)"

lemma cli_dispatch_cases:
  "waiting (cli_dispatch now c p) = (case acknowledges p of None \<Rightarrow> waiting c | Some i \<Rightarrow> waiting (cli_deliver c i p))"
  by (cases p) simp_all

lemma cli_deliver_pending [simp]: "mc_pending (cli_deliver c i p) = mc_pending c"
  by (simp add: cli_deliver_def split: option.split)

lemma cli_dispatch_pending [simp]: "mc_pending (cli_dispatch now c p) = mc_pending c"
  using cli_dispatch_cases [of now c p] by (auto simp: waiting_def split: option.splits)

lemma cli_deliver_chans:
  assumes "waiters_ok c" and "mget (mc_pending c) i = Some ch"
  shows "mget (mc_chans (cli_deliver c j p)) ch =
    (if j = i \<and> mget (mc_chans c) ch = Some None then Some (Some p) else mget (mc_chans c) ch)"
proof (cases "mget (mc_pending c) j")
  case None
  with assms(2) show ?thesis by (auto simp: cli_deliver_def)
next
  case (Some ch')
  then have "ch' = ch \<longleftrightarrow> j = i" using assms unfolding waiters_ok_def by auto
  with Some show ?thesis by (auto simp: cli_deliver_def split: option.splits)
qed

lemma cli_dispatch_chans:
  assumes "waiters_ok c" and "mget (mc_pending c) i = Some ch"
  shows "mget (mc_chans (cli_dispatch now c p)) ch =
    (if acknowledges p = Some i \<and> mget (mc_chans c) ch = Some None then Some (Some p) else mget (mc_chans c) ch)"
proof -
  have "mc_chans (cli_dispatch now c p) = (case acknowledges p of None \<Rightarrow> mc_chans c | Some j \<Rightarrow> mc_chans (cli_deliver c j p))"
    using cli_dispatch_cases [of now c p] by (auto simp: waiting_def split: option.splits)
  with cli_deliver_chans [OF assms] show ?thesis by (auto split: option.split)
qed

lemma cli_deliver_waiters: "waiters_ok c \<Longrightarrow> waiters_ok (cli_deliver c j p)"
  unfolding waiters_ok_def by (auto simp: cli_deliver_def split: option.splits if_splits)

lemma cli_dispatch_waiters:
  assumes "waiters_ok c"
  shows "waiters_ok (cli_dispatch now c p)"
  using cli_dispatch_cases [of now c p] assms cli_deliver_waiters [OF assms]
  by (cases "acknowledges p") (auto dest: waiters_ok_cong)

lemma cli_readLoop_waiters:
  "waiters_ok c \<Longrightarrow> waiters_ok (cli_readLoop c rs)" "mc_pending (cli_readLoop c rs) = mc_pending c"
proof (induction c rs rule: cli_readLoop.induct)
  case (2 c now err rs)
  {
    case 1
    then show ?case using waiters_ok_cong [of "cli_close (c\<lparr>mc_readErr := Some err\<rparr>)" c] by simp
  next
    case 2
    show ?case by (simp add: cli_close_def)
  }
qed (simp_all add: cli_dispatch_waiters)

text \<open>What the read loop leaves in the channel of a waiter.\<close>

lemma cli_readLoop_chan:
  assumes "waiters_ok c" and "mget (mc_pending c) i = Some ch" and "mget (mc_chans c) ch = Some buf"
  shows "mget (mc_chans (cli_readLoop c rs)) ch = Some (if buf = None then first_ack i rs else buf)"
  using assms
proof (induction c rs arbitrary: buf rule: cli_readLoop.induct)
  case (3 c now p rs)
  let ?c = "cli_dispatch now c p"
  have "mget (mc_chans ?c) ch = Some (if acknowledges p = Some i \<and> buf = None then Some p else buf)"
    using cli_dispatch_chans [OF "3.prems"(1,2), of now p] "3.prems"(3) by auto
  from "3.IH" [OF cli_dispatch_waiters [OF "3.prems"(1)] _ this] "3.prems"(2) show ?case by auto
qed (simp_all add: cli_close_def)

lemma expect_waiters:
  assumes "waiters_ok c" and "expect c i = (ch, c')"
  shows "waiters_ok c'" and "mget (mc_pending c') i = Some ch" and "mget (mc_chans c') ch = Some None"
    and "mc_pending c' = mput i ch (mc_pending c)"
proof -
  have "mget (mc_chans c) (fresh_ref (mc_chans c)) = None" by (rule fresh_ref_new)
  then have new: "mget (mc_pending c) j \<noteq> Some (fresh_ref (mc_chans c))" for j
    using assms(1) unfolding waiters_ok_def by metis
  then show "waiters_ok c'" using assms unfolding waiters_ok_def
    by (auto simp: expect_def Let_def split: if_splits)
qed (use assms in \<open>auto simp: expect_def Let_def\<close>)

lemma forget_waiters: "waiters_ok c \<Longrightarrow> waiters_ok (forget c i)"
  unfolding waiters_ok_def by (auto simp: forget_def split: if_splits)

lemma mdel_mput: "mdel k (mput k v m) = mdel k m"
  by (induction m) auto

lemma select_ack_waiters:
  assumes "select_ack c ch w = Some (r, c')" and "waiters_ok c"
  shows "waiters_ok c'" and "mc_pending c' = mc_pending c"
  using assms by (cases w; auto simp: waiters_ok_def split: option.splits if_splits)+

text \<open>The state of a request between its write and its \<open>select\<close>.\<close>

lemma request_waits:
  assumes "waiters_ok c" and "allocatePacketID c = (i, c1)" and "expect c1 i = (ch, c2)" and "cli_write c2 p = (e, c3)"
  shows "waiters_ok (cli_readLoop c3 rs)" and "mc_pending (cli_readLoop c3 rs) = mput i ch (mc_pending c)"
    and "mget (mc_chans (cli_readLoop c3 rs)) ch = Some (first_ack i rs)"
    and "waiters_ok c3" and "mc_pending c3 = mput i ch (mc_pending c)"
proof -
  have w1: "waiting c1 = waiting c" using waiting_frame(4) [of c] assms(2) by simp
  have ok1: "waiters_ok c1" using waiters_ok_cong [OF w1] assms(1) by simp
  note e = expect_waiters [OF ok1 assms(3)]
  have w3: "waiting c3 = waiting c2" using waiting_frame(1) [of c2 p] assms(4) by simp
  then show ok3: "waiters_ok c3" using waiters_ok_cong [OF w3] e(1) by simp
  show p3: "mc_pending c3 = mput i ch (mc_pending c)" using w3 w1 e(4) by (simp add: waiting_def)
  show "waiters_ok (cli_readLoop c3 rs)" "mc_pending (cli_readLoop c3 rs) = mput i ch (mc_pending c)"
    using cli_readLoop_waiters [of c3 rs] ok3 p3 by simp_all
  have "mget (mc_chans c3) ch = Some None" using w3 e(3) by (simp add: waiting_def)
  from cli_readLoop_chan [OF ok3 _ this, of i rs] p3 show "mget (mc_chans (cli_readLoop c3 rs)) ch = Some (first_ack i rs)"
    by simp
qed

lemma cli_write_ok: "Encode [] p = Inr bs \<Longrightarrow> mc_socketOpen c \<Longrightarrow> cli_write c p = (None, c\<lparr>mc_written := mc_written c @ [p]\<rparr>)"
  by (simp add: cli_write_def)

lemma allocate_expect_frame:
  assumes "allocatePacketID c = (i, c1)" and "expect c1 i = (ch, c2)"
  shows "mc_conn c2 = mc_conn c" "mc_socketOpen c2 = mc_socketOpen c" "mc_written c2 = mc_written c" "i \<noteq> 0"
proof -
  have "unat (fst (allocateLoop (mc_nextPacketID c))) \<noteq> 0" by (simp add: allocateLoop_unat)
  then show "i \<noteq> 0" using assms(1) by (auto simp: allocatePacketID_def Let_def split_def)
qed (use assms in \<open>auto simp: allocatePacketID_def expect_def Let_def split_def\<close>)

subsection \<open>Requests\<close>

text \<open>The packet that \<open>Publish\<close> writes at level 1.\<close>

definition request_packet :: "u16 \<Rightarrow> string \<Rightarrow> bytes \<Rightarrow> bool \<Rightarrow> publish" where
  "request_packet i topic payload retain =
     \<lparr>p_DUP = False, p_QoS = 1, p_Retain = retain, p_Topic = topic, p_PacketID = i, p_Payload = payload\<rparr>"

lemma request_packet_Encode: "i \<noteq> 0 \<Longrightarrow> \<exists>bs. Encode [] (PPublish (request_packet i topic payload retain)) = Inr bs"
  by (simp add: request_packet_def publish_Encode_def Let_def)

lemma cli_Publish_run:
  assumes "waiters_ok c" and "mc_conn c" and "mc_socketOpen c" and "allocatePacketID c = (i, c1)"
  obtains ch c3 where "waiters_ok (cli_readLoop c3 rs)" and "mc_pending (cli_readLoop c3 rs) = mput i ch (mc_pending c)"
    and "mget (mc_chans (cli_readLoop c3 rs)) ch = Some (first_ack i rs)"
    and "mc_written c3 = mc_written c @ [PPublish (request_packet i topic payload retain)]"
    and "cli_Publish c topic payload 1 retain rs w =
      map_option (\<lambda>(r, c). (r, forget c i)) (cli_await (cli_readLoop c3 rs) ch w)"
proof -
  obtain ch c2 where e: "expect c1 i = (ch, c2)" by force
  note f = allocate_expect_frame [OF assms(4) e]
  let ?p = "PPublish (request_packet i topic payload retain)"
  obtain bs where "Encode [] ?p = Inr bs" using request_packet_Encode [OF f(4)] by blast
  then have w: "cli_write c2 ?p = (None, c2\<lparr>mc_written := mc_written c2 @ [?p]\<rparr>)" using assms(3) f(2) by (simp add: cli_write_ok)
  note r = request_waits [OF assms(1,4) e w]
  show thesis
    by (rule that [OF r(1,2,3)]) (use w assms(2,4) e f in \<open>simp_all add: cli_Publish_def request_packet_def Let_def\<close>)
qed

text \<open>Claim C27. A publish at level 1 returns successfully exactly when the read loop saw an acknowledgement with
  the identifier of the request: no other acknowledgement wakes it, and none with its identifier is lost, however many
  requests are waiting. However it ends, it leaves the table of waiters as it was without its own entry.\<close>

theorem cli_Publish_completes:
  assumes "waiters_ok c" and "mc_conn c" and "mc_socketOpen c" and "allocatePacketID c = (i, c1)"
  shows "((\<exists>c'. cli_Publish c topic payload 1 retain rs WAck = Some (None, c')) \<longleftrightarrow> first_ack i rs \<noteq> None)
    \<and> (\<forall>w res c'. cli_Publish c topic payload 1 retain rs w = Some (res, c') \<longrightarrow>
         waiters_ok c' \<and> mc_pending c' = mdel i (mc_pending c))"
proof (intro conjI allI impI)
  obtain ch c3 where r: "mget (mc_chans (cli_readLoop c3 rs)) ch = Some (first_ack i rs)"
    "cli_Publish c topic payload 1 retain rs WAck = map_option (\<lambda>(r, c). (r, forget c i)) (cli_await (cli_readLoop c3 rs) ch WAck)"
    by (rule cli_Publish_run [OF assms])
  then show "(\<exists>c'. cli_Publish c topic payload 1 retain rs WAck = Some (None, c')) \<longleftrightarrow> first_ack i rs \<noteq> None"
    by (cases "first_ack i rs") (auto simp: cli_await_def)
next
  fix w res c' assume run: "cli_Publish c topic payload 1 retain rs w = Some (res, c')"
  obtain ch c3 where r: "waiters_ok (cli_readLoop c3 rs)" "mc_pending (cli_readLoop c3 rs) = mput i ch (mc_pending c)"
    "cli_Publish c topic payload 1 retain rs w = map_option (\<lambda>(r, c). (r, forget c i)) (cli_await (cli_readLoop c3 rs) ch w)"
    by (rule cli_Publish_run [OF assms])
  with run obtain r' c4 where c4: "select_ack (cli_readLoop c3 rs) ch w = Some (r', c4)" "c' = forget c4 i"
    by (auto simp: cli_await_def)
  note s = select_ack_waiters [OF c4(1) r(1)]
  show "waiters_ok c'" using forget_waiters [OF s(1)] c4(2) by simp
  show "mc_pending c' = mdel i (mc_pending c)" using s(2) r(2) c4(2) by (simp add: forget_def mdel_mput)
qed

definition sample_options :: client_options where
  "sample_options = \<lparr>co_Address = ''broker:1883'', co_ClientID = ''c'', co_CleanSession = True, co_KeepAlive = 30,
     co_Username = '''', co_Password = '''', co_ConnectTimeout = 0, co_AckTimeout = 0, co_OnMessage = True, co_Will = None,
     co_SuppressPing = False\<rparr>"

definition sample_mqtt_client :: mqtt_client where
  "sample_mqtt_client = (cli_New sample_options)\<lparr>mc_conn := True, mc_socketOpen := True, mc_nextPacketID := 65534\<rparr>"

lemma sample_mqtt_client_ok: "waiters_ok sample_mqtt_client"
  by (simp add: sample_mqtt_client_def cli_New_def waiters_ok_def)

lemma sample_allocate: "\<exists>c1. allocatePacketID sample_mqtt_client = (65535, c1)"
  by (simp add: allocatePacketID_def sample_mqtt_client_def allocateLoop.simps Let_def)

lemma allocatePacketID_distinct_witness: "distinct (allocateMany 3 sample_mqtt_client)"
  using allocatePacketID_distinct [of 3] by simp

lemma cli_Publish_completes_witness:
  "\<exists>c'. cli_Publish sample_mqtt_client ''a/b'' [1] 1 False [(5, Inr (PAck (NewPuback 65535)))] WAck = Some (None, c')"
proof -
  obtain c1 where "allocatePacketID sample_mqtt_client = (65535, c1)" using sample_allocate by blast
  from cli_Publish_completes [OF sample_mqtt_client_ok _ _ this] show ?thesis
    by (auto simp: sample_mqtt_client_def NewPuback_def)
qed

text \<open>What a subscribe makes of the acknowledgement it waited for.\<close>

definition suback_result :: "string \<Rightarrow> packet \<Rightarrow> cli_error + byte" where
  "suback_result filt p =
     (case p of
        PSuback suback \<Rightarrow>
          (case sa_ReturnCodes suback of
             [] \<Rightarrow> Inl MalformedSuback
           | code # _ \<Rightarrow> if code = SubackFailure then Inl (SubscriptionRefused filt) else Inr code)
      | _ \<Rightarrow> Inl MalformedSuback)"

lemma cli_Subscribe_run:
  assumes "waiters_ok c" and "mc_conn c" and "mc_socketOpen c" and "allocatePacketID c = (i, c1)"
    and "Encode [] (PSubscribe \<lparr>s_PacketID = i, s_Subscriptions = [\<lparr>ts_Filter = filt, ts_QoS = qos\<rparr>]\<rparr>) = Inr bs"
  obtains c' where "cli_Subscribe c filt qos rs WAck = map_option (\<lambda>p. (suback_result filt p, c')) (first_ack i rs)"
proof -
  obtain ch c2 where e: "expect c1 i = (ch, c2)" by force
  note f = allocate_expect_frame [OF assms(4) e]
  let ?p = "PSubscribe \<lparr>s_PacketID = i, s_Subscriptions = [\<lparr>ts_Filter = filt, ts_QoS = qos\<rparr>]\<rparr>"
  let ?c3 = "cli_readLoop (c2\<lparr>mc_written := mc_written c2 @ [?p]\<rparr>) rs"
  have w: "cli_write c2 ?p = (None, c2\<lparr>mc_written := mc_written c2 @ [?p]\<rparr>)" using assms(3,5) f(2) by (intro cli_write_ok) simp_all
  note r = request_waits(3) [OF assms(1,4) e w, of rs]
  have "cli_Subscribe c filt qos rs WAck =
      map_option (\<lambda>p. (suback_result filt p, forget (?c3\<lparr>mc_chans := mput ch None (mc_chans ?c3)\<rparr>) i)) (first_ack i rs)"
    using assms(2,4) e w r by (cases "first_ack i rs") (auto simp: cli_Subscribe_def suback_result_def Let_def)
  then show ?thesis by (rule that)
qed

text \<open>A subscribe returns a granted level exactly when the first acknowledgement with its identifier is a
  SUBACK whose first code is that level. A refusal, an acknowledgement of another kind and an empty SUBACK are errors;
  they never count as a granted subscription.\<close>

theorem cli_Subscribe_granted:
  assumes "waiters_ok c" and "mc_conn c" and "mc_socketOpen c" and "allocatePacketID c = (i, c1)"
    and "Encode [] (PSubscribe \<lparr>s_PacketID = i, s_Subscriptions = [\<lparr>ts_Filter = filt, ts_QoS = qos\<rparr>]\<rparr>) = Inr bs"
  shows "(\<exists>c'. cli_Subscribe c filt qos rs WAck = Some (Inr code, c')) \<longleftrightarrow>
    (\<exists>s codes. first_ack i rs = Some (PSuback s) \<and> sa_ReturnCodes s = code # codes \<and> code \<noteq> SubackFailure)"
proof -
  obtain c' where "cli_Subscribe c filt qos rs WAck = map_option (\<lambda>p. (suback_result filt p, c')) (first_ack i rs)"
    by (rule cli_Subscribe_run [OF assms])
  then show ?thesis
    by (cases "first_ack i rs") (auto simp: suback_result_def split: packet.splits list.splits if_splits)
qed

lemma cli_Subscribe_granted_witness:
  "\<exists>c'. cli_Subscribe sample_mqtt_client ''a'' 1
    [(5, Inr (PSuback \<lparr>sa_PacketID = 65535, sa_ReturnCodes = [1]\<rparr>))] WAck = Some (Inr 1, c')"
proof -
  obtain c1 where a: "allocatePacketID sample_mqtt_client = (65535, c1)" using sample_allocate by blast
  have "\<exists>bs. Encode [] (PSubscribe \<lparr>s_PacketID = 65535, s_Subscriptions = [\<lparr>ts_Filter = ''a'', ts_QoS = 1\<rparr>]\<rparr>) = Inr bs"
    by (simp add: subscribe_Encode_def Let_def)
  then obtain bs where
    bs: "Encode [] (PSubscribe \<lparr>s_PacketID = 65535, s_Subscriptions = [\<lparr>ts_Filter = ''a'', ts_QoS = 1\<rparr>]\<rparr>) = Inr bs" ..
  from cli_Subscribe_granted [OF sample_mqtt_client_ok _ _ a bs, of _ 1] show ?thesis
    by (auto simp: sample_mqtt_client_def SubackFailure_def)
qed

subsection \<open>Inbound messages\<close>

text \<open>The messages among the packets that were read before an error, with the time of each.\<close>

fun inbound_publishes :: "reads \<Rightarrow> (time \<times> publish) list" where
  "inbound_publishes [] = []"
| "inbound_publishes ((now, Inl err) # rs) = []"
| "inbound_publishes ((now, Inr (PPublish p)) # rs) = (now, p) # inbound_publishes rs"
| "inbound_publishes ((now, Inr q) # rs) = inbound_publishes rs"

definition as_message :: "time \<times> publish \<Rightarrow> client_message" where
  "as_message tp = (case tp of (now, p) \<Rightarrow>
     \<lparr>cm_Topic = p_Topic p, cm_Payload = p_Payload p, cm_QoS = p_QoS p, cm_Retained = p_Retain p, cm_DUP = p_DUP p,
      cm_PacketID = p_PacketID p, cm_ReceivedAt = now\<rparr>)"

definition pubacks :: "(time \<times> publish) list \<Rightarrow> packet list" where
  "pubacks tps = map (\<lambda>(now, p). PAck (NewPuback (p_PacketID p)))
     (filter (\<lambda>(now, p). p_QoS p = 1 \<and> p_PacketID p \<noteq> 0) tps)"

lemma cli_handlePublish_effect:
  assumes "mc_socketOpen c" and "co_OnMessage (mc_opts c)"
  shows "mc_received (cli_handlePublish now c p) = mc_received c @ [as_message (now, p)]"
    and "mc_written (cli_handlePublish now c p) = mc_written c @ pubacks [(now, p)]"
    and "mc_socketOpen (cli_handlePublish now c p)" and "mc_opts (cli_handlePublish now c p) = mc_opts c"
  using assms
  by (auto simp: cli_handlePublish_def as_message_def pubacks_def Let_def cli_write_def ack_Encode_def NewPuback_def split: sum.split)

lemma cli_deliver_frame [simp]:
  "mc_received (cli_deliver c i p) = mc_received c" "mc_written (cli_deliver c i p) = mc_written c"
  "mc_socketOpen (cli_deliver c i p) = mc_socketOpen c" "mc_opts (cli_deliver c i p) = mc_opts c"
  by (simp_all add: cli_deliver_def split: option.split)

text \<open>The read loop hands every message to the handler, once and in the order of arrival, up to the read
  error that ends it, and writes one PUBACK for each message of level 1 in the same order; messages of other levels are
  not acknowledged. As this holds for every beginning of the input, no message is acknowledged before it was handled.\<close>

theorem cli_readLoop_messages:
  assumes "mc_socketOpen c" and "co_OnMessage (mc_opts c)"
  shows "mc_received (cli_readLoop c rs) = mc_received c @ map as_message (inbound_publishes rs)
    \<and> mc_written (cli_readLoop c rs) = mc_written c @ pubacks (inbound_publishes rs)"
  using assms
proof (induction rs arbitrary: c rule: inbound_publishes.induct)
  case (3 now p rs)
  note e = cli_handlePublish_effect [OF "3.prems", of now p]
  show ?case using "3.IH" [OF e(3)] e "3.prems"(2) by (simp add: pubacks_def)
qed (simp_all add: cli_close_def pubacks_def)

lemma cli_readLoop_messages_witness:
  "length (mc_received (cli_readLoop sample_mqtt_client
      [(5, Inr (PPublish (request_packet 7 ''a'' [1] False))), (6, Inl (ReadErr ''EOF''))])) = 1"
  using cli_readLoop_messages [of sample_mqtt_client "[(5, Inr (PPublish (request_packet 7 ''a'' [1] False))), (6, Inl (ReadErr ''EOF''))]"]
  by (simp add: sample_mqtt_client_def cli_New_def sample_options_def options_withDefaults_def Let_def)

subsection \<open>Keeping alive\<close>

text \<open>A client of this library that is idle but for its pings stays inside the window of the broker, if the
  broker uses the interval that the client asked for: one ping interval after its last packet the client is not expired, for every
  interval but 0, also for 1 second, where the ticker is not allowed to go below a second. If the broker
  is configured with a ceiling of less than a third of what the client asked for, the first ping comes too late: the client
  is not told of the lower value, and is declared dead although it keeps its own promise.\<close>

theorem ping_keeps_alive:
  assumes "co_KeepAlive opts \<noteq> 0" and "cl_keepAlive cl = NewKeepAlive (capKeepAlive b (co_KeepAlive opts))"
    and "now = cl_lastActivityAt cl + pingInterval opts"
  shows "(capKeepAlive b (co_KeepAlive opts) = co_KeepAlive opts \<longrightarrow> \<not> IsKeepAliveExpired cl now)
    \<and> (cf_MaxKeepAlive (b_cfg b) \<noteq> 0 \<and> 3 * uint (cf_MaxKeepAlive (b_cfg b)) < uint (co_KeepAlive opts)
        \<longrightarrow> IsKeepAliveExpired cl now)"
proof -
  let ?k = "co_KeepAlive opts" and ?m = "cf_MaxKeepAlive (b_cfg b)" and ?c = "capKeepAlive b (co_KeepAlive opts)"
  have gap: "IsKeepAliveExpired cl now \<longleftrightarrow> ?c \<noteq> 0 \<and> pingInterval opts > Timeout (NewKeepAlive ?c)"
    using assms(2,3) by (simp add: IsKeepAliveExpired_gap NewKeepAlive_def)
  have k: "uint ?k \<ge> 1" using assms(1) by (simp add: uint_ge_0 int_one_le_iff_zero_less word_neq_0_conv word_less_def)
  have "Timeout (NewKeepAlive ?c) = uint ?c * second + uint ?c * second div 2" if "?c \<noteq> 0"
    using that by (simp add: Timeout_def Duration_def IsDisabled_def NewKeepAlive_def)
  moreover have "?c = ?m" if "?m \<noteq> 0" "3 * uint ?m < uint ?k"
  proof -
    have "uint ?m < uint ?k" using that(2) uint_ge_0 [of ?m] by linarith
    with that(1) assms(1) show ?thesis by (simp add: capKeepAlive_def Let_def word_less_def)
  qed
  moreover have "pingInterval opts \<le> uint ?k * second + uint ?k * second div 2"
    using k by (auto simp: pingInterval_def Let_def second_def)
  moreover have "3 * m < uint ?k \<Longrightarrow> pingInterval opts > m * second + m * second div 2" if "m \<ge> 0" for m
    using k that by (auto simp: pingInterval_def Let_def second_def)
  ultimately show ?thesis
    using gap assms(1) uint_ge_0 [of ?m] by auto
qed

lemma ping_keeps_alive_witness:
  "\<not> IsKeepAliveExpired (sample_client\<lparr>cl_keepAlive := NewKeepAlive 30, cl_lastActivityAt := 0\<rparr>) (15 * second)"
proof -
  have "capKeepAlive sample_broker 30 = 30"
    by (simp add: capKeepAlive_def sample_broker_def NewBroker_def publishing_withDefaults_def sample_config_def)
  moreover have "pingInterval sample_options = 15 * second"
    by (simp add: pingInterval_def sample_options_def second_def Let_def)
  ultimately show ?thesis
    using ping_keeps_alive [of sample_options "sample_client\<lparr>cl_keepAlive := NewKeepAlive 30, cl_lastActivityAt := 0\<rparr>" sample_broker]
    by (simp add: sample_options_def)
qed

subsection \<open>The handshake\<close>

text \<open>\<open>Connect\<close> of the client library succeeds exactly when the connection could be dialled and the broker answered
  with a CONNACK that accepts; the CONNECT is the first packet on the socket. In every other case the socket is closed or was
  never opened, so a failed client cannot send.\<close>

theorem cli_Connect_handshake:
  assumes "cli_Connect c dialled response = (err, c')" and "mc_socketOpen c = False" and "mc_written c = []"
  shows "(err = None \<longleftrightarrow> dialled = None \<and> (\<exists>k. response = Inr (PConnack k) \<and> ca_ReturnCode k = ConnectAccepted))
    \<and> (if err = None then mc_written c' = [PConnect (connect_packet (mc_opts c))] \<and> mc_socketOpen c' \<and> mc_conn c'
       else \<not> mc_socketOpen c')"
proof -
  obtain bs where "Encode [] (PConnect (connect_packet (mc_opts c))) = Inr bs" by (simp add: connect_Encode_def Let_def)
  then show ?thesis
    using assms
    by (cases dialled; cases response) (auto simp: cli_Connect_def cli_write_def Let_def split: packet.splits if_splits)
qed

lemma cli_Connect_handshake_witness:
  "fst (cli_Connect (cli_New sample_options) None (Inr (PConnack \<lparr>ca_SessionPresent = False, ca_ReturnCode = 0\<rparr>))) = None"
  using cli_Connect_handshake [OF prod.collapse [symmetric],
      of "cli_New sample_options" None "Inr (PConnack \<lparr>ca_SessionPresent = False, ca_ReturnCode = 0\<rparr>)"]
  by (simp add: cli_New_def)

end
