(* ===== verification/Latency.thy ===== *)
theory Latency
  imports Prelude "HOL-Library.Signed_Division"
begin

text \<open>
  The latency samples of the load generator (\<open>cmd/loadgen/main.go\<close>): recorders, their merge, and the percentiles of
  the report. A sample is an \<open>int64\<close>, kept as a word and read with sign; the sum behind the mean wraps around as in the
  source. The index of a percentile is computed in floating point, \<open>int(float64(len-1) * q)\<close>: the doubles are
  modelled exactly, as integers scaled by a power of two that are rounded to 53 significant bits, ties to even.

  The lemmas show that rounding is monotone, that the index is always inside the slice, and that it is the integer
  rank that the exact quotient would give for every number of samples up to \<open>2 ^ 44\<close>.
\<close>

subsection \<open>Latency samples\<close>

type_synonym i64 = "64 word" \<comment> \<open>\<open>int64\<close> and \<open>time.Duration\<close>, read by \<open>sint\<close>\<close>

definition timestampBytes :: nat where "timestampBytes = 8"

record latencyRecorder = lr_samples :: "i64 list"

definition newLatencyRecorder :: latencyRecorder where
  "newLatencyRecorder = \<lparr>lr_samples = []\<rparr>"

definition record_sample :: "latencyRecorder \<Rightarrow> i64 \<Rightarrow> latencyRecorder" where
  "record_sample r d = r\<lparr>lr_samples := lr_samples r @ [d]\<rparr>"

definition mergeRecorders :: "latencyRecorder list \<Rightarrow> latencyRecorder" where
  "mergeRecorders recorders =
     foldl (\<lambda>merged r. merged\<lparr>lr_samples := lr_samples merged @ lr_samples r\<rparr>) \<lparr>lr_samples = []\<rparr> recorders"

text \<open>A \<open>float64\<close> that is not negative, as an integer number of units of some power of two: it has 53 significant bits, and a
  result with more is rounded to the nearest such number, ties to the even one.\<close>

fun bit_size :: "nat \<Rightarrow> nat" where
  "bit_size n = (if n = 0 then 0 else Suc (bit_size (n div 2)))"

declare bit_size.simps [simp del]

lemma bit_size_0 [simp]: "bit_size 0 = 0"
  by (simp add: bit_size.simps)

definition round_at :: "nat \<Rightarrow> nat \<Rightarrow> nat" where
  "round_at k n = (let q = n div 2 ^ k; r = n mod 2 ^ k
     in (if 2 * r > 2 ^ k \<or> 2 * r = 2 ^ k \<and> odd q then q + 1 else q) * 2 ^ k)"

definition roundDouble :: "nat \<Rightarrow> nat" where
  "roundDouble n = round_at (bit_size n - 53) n"

text \<open>The index \<open>int(float64(n-1) * q)\<close>; \<open>q\<close> is given by its significand, in units of \<open>2 ^ -53\<close>. Below are the
  doubles nearest to 0.50, 0.95 and 0.99.\<close>

definition rank :: "nat \<Rightarrow> nat \<Rightarrow> nat" where
  "rank n q = roundDouble (roundDouble (n - 1) * q) div 2 ^ 53"

definition q50 :: nat where "q50 = 4503599627370496"
definition q95 :: nat where "q95 = 8556839292003942"
definition q99 :: nat where "q99 = 8917127262193582"

text \<open>\<open>None\<close> is a panic: an index out of range.\<close>

definition at :: "i64 list \<Rightarrow> nat \<Rightarrow> i64 option" where
  "at samples q = (let idx = rank (length samples) q in if idx < length samples then Some (samples ! idx) else None)"

record summary =
  su_p50 :: i64
  su_p95 :: i64
  su_p99 :: i64
  su_max :: i64
  su_mean :: i64
  su_count :: nat

definition percentiles :: "latencyRecorder \<Rightarrow> summary option" where
  "percentiles r =
     (if lr_samples r = [] then Some \<lparr>su_p50 = 0, su_p95 = 0, su_p99 = 0, su_max = 0, su_mean = 0, su_count = 0\<rparr>
      else
        let samples = sort_key sint (lr_samples r);
            total = foldl (+) 0 samples
        in (case (at samples q50, at samples q95, at samples q99) of
              (Some p50, Some p95, Some p99) \<Rightarrow>
                Some \<lparr>su_p50 = p50, su_p95 = p95, su_p99 = p99, su_max = samples ! (length samples - 1),
                      su_mean = word_of_int (sint total sdiv sint (word_of_nat (length samples) :: i64)),
                      su_count = length samples\<rparr>
            | _ \<Rightarrow> None))"

subsection \<open>Rounding\<close>

lemma bit_size_bounds: "n < 2 ^ bit_size n" "n \<noteq> 0 \<Longrightarrow> 2 ^ (bit_size n - 1) \<le> n"
proof (induction n rule: bit_size.induct)
  case (1 n)
  { case 1 show ?case
    proof (cases "n = 0")
      case False
      with "1.IH"(1) show ?thesis by (subst bit_size.simps) simp
    qed (simp add: bit_size.simps)
  next
    case 2 show ?case
    proof (cases "n div 2 = 0")
      case True
      with 2 show ?thesis by (simp add: bit_size.simps [of n] bit_size.simps [of 0])
    next
      case False
      then have "2 ^ (bit_size (n div 2) - 1) \<le> n div 2" "bit_size (n div 2) \<noteq> 0"
        using "1.IH"(2) 2 by (auto simp: bit_size.simps [of "n div 2"])
      moreover from this(2) obtain k where "bit_size (n div 2) = Suc k" using not0_implies_Suc by blast
      ultimately show ?thesis using 2 by (simp add: bit_size.simps [of n])
    qed }
qed

lemma bit_size_le: "n < 2 ^ k \<Longrightarrow> bit_size n \<le> k"
proof (rule ccontr)
  assume "n < 2 ^ k" "\<not> bit_size n \<le> k"
  then have "n \<noteq> 0" "(2::nat) ^ k \<le> 2 ^ (bit_size n - 1)" by (auto intro: power_increasing intro!: gr0I)
  with bit_size_bounds(2) [of n] \<open>n < 2 ^ k\<close> show False by linarith
qed

lemma bit_size_mono: "m \<le> n \<Longrightarrow> bit_size m \<le> bit_size n"
  using bit_size_bounds(1) [of n] by (intro bit_size_le) simp

lemma round_at_dvd: "2 ^ k dvd n \<Longrightarrow> round_at k n = n"
  by (auto simp: round_at_def Let_def elim: dvdE)

lemma round_at_mono:
  assumes "m \<le> n"
  shows "round_at k m \<le> round_at k n"
proof -
  let ?up = "\<lambda>n. if 2 * (n mod 2 ^ k) > (2::nat) ^ k \<or> 2 * (n mod 2 ^ k) = 2 ^ k \<and> odd (n div 2 ^ k) then n div 2 ^ k + 1 else n div 2 ^ k"
  have q: "m div 2 ^ k \<le> n div 2 ^ k" using assms by (rule div_le_mono)
  have "?up m \<le> ?up n"
  proof (cases "m div 2 ^ k = n div 2 ^ k")
    case True
    then have "m mod 2 ^ k \<le> n mod 2 ^ k" using assms by (metis add_le_cancel_left div_mult_mod_eq)
    with True show ?thesis by auto
  qed (use q in auto)
  then show ?thesis by (simp add: round_at_def Let_def)
qed

lemma roundDouble_le:
  assumes "n \<le> m" and "2 ^ (bit_size n - 53) dvd m"
  shows "roundDouble n \<le> m"
  using round_at_mono [OF assms(1)] round_at_dvd [OF assms(2)] by (metis roundDouble_def)

lemma roundDouble_ge:
  assumes "m \<le> n" and "2 ^ (bit_size n - 53) dvd m"
  shows "m \<le> roundDouble n"
  using round_at_mono [OF assms(1)] round_at_dvd [OF assms(2)] by (metis roundDouble_def)

lemma roundDouble_mono:
  assumes "m \<le> n"
  shows "roundDouble m \<le> roundDouble n"
proof (cases "bit_size m = bit_size n")
  case True
  then show ?thesis by (simp add: roundDouble_def round_at_mono [OF assms])
next
  case False
  then have s: "bit_size m < bit_size n" using bit_size_mono [OF assms] by simp
  then have "n \<noteq> 0" by (auto intro!: gr0I)
  have "roundDouble m \<le> 2 ^ bit_size m"
    using bit_size_bounds(1) [of m] by (intro roundDouble_le) (auto intro: le_imp_power_dvd)
  also have "\<dots> \<le> 2 ^ (bit_size n - 1)" using s by (intro power_increasing) auto
  also have "\<dots> \<le> roundDouble n"
    using bit_size_bounds(2) [OF \<open>n \<noteq> 0\<close>] by (intro roundDouble_ge) (auto intro: le_imp_power_dvd)
  finally show ?thesis .
qed

lemma roundDouble_exact: "n \<le> 2 ^ 53 \<Longrightarrow> roundDouble n = n"
proof (cases "n = 2 ^ 53")
  case False
  moreover assume "n \<le> 2 ^ 53"
  ultimately have "bit_size n \<le> 53" by (intro bit_size_le) simp
  then show ?thesis by (simp add: roundDouble_def round_at_dvd)
next
  case True
  have "bit_size n \<le> 54" by (intro bit_size_le) (simp add: True)
  then have "(2::nat) ^ (bit_size n - 53) dvd 2 ^ 53" by (intro le_imp_power_dvd) simp
  then show ?thesis unfolding roundDouble_def by (intro round_at_dvd) (simp add: True)
qed

lemma rank_mono: "p \<le> q \<Longrightarrow> rank n p \<le> rank n q"
  unfolding rank_def by (intro div_le_mono roundDouble_mono mult_left_mono) auto

lemma rank_less:
  assumes "0 < n" and "n \<le> 2 ^ 53" and "q \<le> 2 ^ 53"
  shows "rank n q < n"
proof -
  let ?N = "n - 1"
  have "bit_size (?N * q) \<le> 106"
  proof (rule bit_size_le)
    have "?N * q \<le> ?N * 2 ^ 53" using assms(3) by simp
    also have "\<dots> < 2 ^ 53 * 2 ^ 53" using assms(1,2) by (intro mult_strict_right_mono) auto
    finally have "?N * q < 2 ^ 53 * 2 ^ 53" .
    then show "?N * q < 2 ^ 106" by (simp flip: power_add)
  qed
  then have "(2::nat) ^ (bit_size (?N * q) - 53) dvd 2 ^ 53" by (intro le_imp_power_dvd) simp
  then have "2 ^ (bit_size (?N * q) - 53) dvd ?N * 2 ^ 53" by (rule dvd_mult)
  then have "roundDouble (?N * q) \<le> ?N * 2 ^ 53" using assms(3) by (intro roundDouble_le mult_left_mono) simp_all
  then have "roundDouble (?N * q) div 2 ^ 53 \<le> ?N" using div_le_mono by fastforce
  moreover have "roundDouble ?N = ?N" using assms(2) by (intro roundDouble_exact) simp
  ultimately show ?thesis using assms(1) by (simp add: rank_def)
qed

lemma round_at_near:
  assumes "2 ^ k dvd m" and "2 * (m - n) < 2 ^ k"
  shows "m \<le> round_at k n"
proof (cases "m \<le> n")
  case True
  then show ?thesis using round_at_mono [OF True, of k] by (simp add: round_at_dvd [OF assms(1)])
next
  case False
  define d where "d = m - n"
  obtain M where M: "m = 2 ^ k * M" using assms(1) by (elim dvdE)
  have d: "0 < d" "2 * d < 2 ^ k" using False assms(2) by (auto simp: d_def)
  have "M \<noteq> 0" using False M by (intro notI) simp
  then obtain M' where M': "M = Suc M'" using not0_implies_Suc by blast
  define r where "r = 2 ^ k - d"
  have r: "r < 2 ^ k" "2 ^ k < 2 * r" using d by (auto simp: r_def)
  have n: "n = r + 2 ^ k * M'" using False d by (simp add: r_def d_def M M')
  have "n div 2 ^ k = M'" "n mod 2 ^ k = r" unfolding n using r(1) by simp_all
  with r show ?thesis by (simp add: round_at_def Let_def M M')
qed

lemma round_at_error: "round_at k n \<le> n + 2 ^ k" "n \<le> round_at k n + 2 ^ k"
proof -
  have n: "n = n div 2 ^ k * 2 ^ k + n mod 2 ^ k" by (rule div_mult_mod_eq [symmetric])
  have r: "n mod 2 ^ k < 2 ^ k" by simp
  have "round_at k n \<le> n div 2 ^ k * 2 ^ k + 2 ^ k" "n div 2 ^ k * 2 ^ k \<le> round_at k n"
    by (simp_all add: round_at_def Let_def)
  with n r show "round_at k n \<le> n + 2 ^ k" "n \<le> round_at k n + 2 ^ k" by linarith+
qed

text \<open>\<open>P\<close> is below \<open>(b * i + t) / b\<close> by \<open>E / b\<close>, in units of \<open>2 ^ -53\<close>: rounding does not leave the interval from \<open>i\<close> to \<open>i + 1\<close>.\<close>

lemma quantile_upper:
  fixes b P :: nat
  assumes "b * P + E = 2 ^ 53 * (b * i) + 2 ^ 53 * t" and "t < b" and "b * 2 ^ k < 2 ^ 53"
  shows "round_at k P < (i + 1) * 2 ^ 53"
proof -
  have "b * round_at k P \<le> b * P + b * 2 ^ k" using round_at_error(1) [of k P] by (simp flip: distrib_left)
  also have "\<dots> < 2 ^ 53 * (b * i) + 2 ^ 53 * t + 2 ^ 53" using assms(1,3) by linarith
  also have "\<dots> \<le> 2 ^ 53 * (b * i) + 2 ^ 53 * b" using assms(2) by simp
  finally have "b * round_at k P < b * ((i + 1) * 2 ^ 53)" by (simp add: algebra_simps)
  then show ?thesis by simp
qed

lemma quantile_lower:
  fixes b P :: nat
  assumes "b * P + E = 2 ^ 53 * (b * i) + 2 ^ 53 * t" and "t < b" and "E + b * 2 ^ k \<le> 2 ^ 53" and "2 * E < b * 2 ^ k"
    and "k \<le> 53"
  shows "i * 2 ^ 53 \<le> round_at k P"
proof (cases "t = 0")
  case False
  then have "b * (i * 2 ^ 53) + b * 2 ^ k \<le> b * P" using assms(1,3) by simp
  also have "\<dots> \<le> b * round_at k P + b * 2 ^ k" using round_at_error(2) [of P k] by (simp flip: distrib_left)
  finally show ?thesis using assms(2) by simp
next
  case True
  then have eq: "b * (2 * (i * 2 ^ 53 - P)) = 2 * E" using assms(1) by (simp add: diff_mult_distrib2 algebra_simps)
  have "b * (2 * (i * 2 ^ 53 - P)) < b * 2 ^ k" unfolding eq by (rule assms(4))
  then have "2 * (i * 2 ^ 53 - P) < 2 ^ k" unfolding mult_less_cancel1 by (rule conjunct2)
  moreover have "(2::nat) ^ k dvd i * 2 ^ 53" using assms(5) by (intro dvd_mult le_imp_power_dvd)
  ultimately show ?thesis by (intro round_at_near)
qed

text \<open>\<open>q\<close> is the significand of the double nearest to \<open>a / b\<close>, below it by \<open>e / b\<close> units in the last place.\<close>

definition nearest_below :: "nat \<Rightarrow> nat \<Rightarrow> nat \<Rightarrow> bool" where
  "nearest_below q a b = (0 < b \<and> b \<le> 100 \<and> 0 < q \<and> q \<le> 2 ^ 53 \<and>
     (\<exists>e \<le> 100. b * q + e = a * 2 ^ 53 \<and> 2 ^ 54 * e < b * q))"

lemma quantile_gap:
  fixes N q :: nat
  assumes "2 ^ 54 * e < b * q" and "0 < q"
  shows "2 * (N * e) < b * 2 ^ (bit_size (N * q) - 53)"
proof -
  define k where "k = bit_size (N * q) - 53"
  have "(2::nat) ^ bit_size (N * q) \<le> 2 ^ (k + 53)" by (intro power_increasing) (simp_all add: k_def)
  with bit_size_bounds(1) [of "N * q"] have "N * q \<le> 2 ^ (k + 53)" by linarith
  then have "2 * e * (N * q) \<le> 2 * e * 2 ^ (k + 53)" by (rule mult_left_mono) simp
  also have "\<dots> = 2 ^ 54 * e * 2 ^ k" by (simp add: power_add)
  also have "\<dots> < b * q * 2 ^ k" using assms(1) by (intro mult_strict_right_mono) simp_all
  finally have "q * (2 * (N * e)) < q * (b * 2 ^ k)" by (simp add: algebra_simps)
  then show ?thesis unfolding k_def mult_less_cancel1 by (rule conjunct2)
qed

lemma rank_exact:
  assumes "nearest_below q a b" and "0 < n" and "n \<le> 2 ^ 44"
  shows "rank n q = (n - 1) * a div b"
proof -
  obtain e where e: "e \<le> 100" "b * q + e = a * 2 ^ 53" "2 ^ 54 * e < b * q"
    and b: "0 < b" "b \<le> 100" "0 < q" "q \<le> 2 ^ 53" using assms(1) by (auto simp: nearest_below_def)
  define N where "N = n - 1"
  define k where "k = bit_size (N * q) - 53"
  define i where "i = N * a div b"
  have N: "N < 2 ^ 44" "roundDouble N = N" using assms(2,3) by (auto simp: N_def intro!: roundDouble_exact)
  have "N * q < 2 ^ 44 * 2 ^ 53" using N(1) b(3,4) by (intro mult_less_le_imp_less) auto
  then have k: "k \<le> 44" using bit_size_le [of "N * q" 97] by (simp add: k_def)
  have kb: "b * 2 ^ k \<le> 100 * 2 ^ 44" using b(2) k by (intro mult_mono power_increasing) auto
  have Ne: "N * e \<le> 2 ^ 44 * 100" using N(1) e(1) by (intro mult_mono) auto
  have "b * (N * q) + N * e = N * (b * q + e)" by (simp add: algebra_simps)
  also have "\<dots> = 2 ^ 53 * (N * a)" unfolding e(2) by simp
  also have "N * a = b * i + N * a mod b" by (simp add: i_def)
  finally have P: "b * (N * q) + N * e = 2 ^ 53 * (b * i) + 2 ^ 53 * (N * a mod b)" by (simp only: distrib_left)
  have t: "N * a mod b < b" using b(1) by simp
  have "i * 2 ^ 53 \<le> roundDouble (N * q)" "roundDouble (N * q) < (i + 1) * 2 ^ 53"
    using quantile_lower [OF P t _ quantile_gap [OF e(3) b(3)], folded k_def] quantile_upper [OF P t, of k] kb Ne k
    by (simp_all add: roundDouble_def k_def)
  then have "roundDouble (N * q) div 2 ^ 53 = i" by (intro div_nat_eqI) (simp_all add: mult.commute)
  then show ?thesis unfolding rank_def N_def [symmetric] N(2) i_def .
qed

lemma quantiles: "nearest_below q50 1 2" "nearest_below q95 19 20" "nearest_below q99 99 100"
proof -
  show "nearest_below q50 1 2" unfolding nearest_below_def q50_def by (intro conjI exI [of _ 0]) simp_all
  show "nearest_below q95 19 20" unfolding nearest_below_def q95_def by (intro conjI exI [of _ 8]) simp_all
  show "nearest_below q99 99 100" unfolding nearest_below_def q99_def by (intro conjI exI [of _ 8]) simp_all
qed

subsection \<open>Percentiles\<close>

lemma mergeRecorders_samples: "lr_samples (mergeRecorders rs) = concat (map lr_samples rs)"
proof -
  have "lr_samples (foldl (\<lambda>m r. m\<lparr>lr_samples := lr_samples m @ lr_samples r\<rparr>) m rs) = lr_samples m @ concat (map lr_samples rs)"
    for m :: latencyRecorder
    by (induction rs arbitrary: m) simp_all
  then show ?thesis by (simp add: mergeRecorders_def)
qed

lemma sort_key_sint_cong: "mset ys = mset xs \<Longrightarrow> sort_key (sint :: i64 \<Rightarrow> int) ys = sort_key sint xs"
  by (rule sort_key_inj_key_eq) (auto simp: inj_on_def intro: signed_word_eqI)

lemma percentiles_Some:
  assumes "lr_samples r = xs" and "xs \<noteq> []" and "length xs \<le> 2 ^ 53"
  shows "percentiles r = Some
    \<lparr>su_p50 = sort_key sint xs ! rank (length xs) q50, su_p95 = sort_key sint xs ! rank (length xs) q95,
     su_p99 = sort_key sint xs ! rank (length xs) q99, su_max = sort_key sint xs ! (length xs - 1),
     su_mean = word_of_int (sint (foldl (+) 0 (sort_key sint xs)) sdiv sint (word_of_nat (length xs) :: i64)),
     su_count = length xs\<rparr>"
proof -
  have "rank (length xs) q < length xs" if "q \<le> 2 ^ 53" for q
    using assms(2,3) that by (intro rank_less) simp_all
  then have "rank (length xs) q50 < length xs" "rank (length xs) q95 < length xs" "rank (length xs) q99 < length xs"
    by (simp_all add: q50_def q95_def q99_def)
  then show ?thesis using assms(1,2) by (simp add: percentiles_def at_def Let_def)
qed

lemma sdiv_between:
  fixes S n lo hi :: int
  assumes "0 < n" and "n * lo \<le> S" and "S \<le> n * hi"
  shows "lo \<le> S sdiv n" and "S sdiv n \<le> hi"
proof -
  have d: "l \<le> T div n \<and> T div n \<le> h" if "n * l \<le> T" "T \<le> n * h" for T l h
    using zdiv_mono1 [OF that(1) assms(1)] zdiv_mono1 [OF that(2) assms(1)] assms(1) by simp
  have "S sdiv n = (if 0 \<le> S then S div n else - (- S div n))"
    using assms(1) by (simp add: signed_divide_int_def sgn_if)
  then show "lo \<le> S sdiv n" "S sdiv n \<le> hi"
    using d [OF assms(2,3)] d [of "- hi" "- S" "- lo"] assms(2,3) by (auto split: if_splits)
qed

lemma sint_of_int: "- (2 ^ 63) \<le> x \<Longrightarrow> x < 2 ^ 63 \<Longrightarrow> sint (word_of_int x :: i64) = x"
  by (simp add: sint_sbintrunc' signed_take_bit_int_eq_self)

lemma sint_sum:
  assumes "- (2 ^ 63) \<le> sum_list (map sint xs)" and "sum_list (map sint xs) < 2 ^ 63"
  shows "sint (foldl (+) 0 xs :: i64) = sum_list (map sint xs)"
proof -
  have "foldl (+) a xs = a + word_of_int (sum_list (map sint xs))" for a :: i64
    by (induction xs arbitrary: a) (simp_all add: add.assoc)
  then have "foldl (+) 0 xs = (word_of_int (sum_list (map sint xs)) :: i64)" by simp
  then show ?thesis using sint_of_int [OF assms] by simp
qed


lemma sint_range: "- (2 ^ 63) \<le> sint (w :: i64)" "sint (w :: i64) < 2 ^ 63"
  using sint_ge [of w] sint_lt [of w] by simp_all

lemma sum_list_between:
  fixes lo hi :: int
  assumes "\<And>x. x \<in> set xs \<Longrightarrow> lo \<le> f x \<and> f x \<le> hi"
  shows "int (length xs) * lo \<le> sum_list (map f xs)" "sum_list (map f xs) \<le> int (length xs) * hi"
  using assms by (induction xs) (force simp: algebra_simps)+

lemma mean_between:
  fixes xs :: "i64 list" and lo hi :: i64
  assumes "xs \<noteq> []" and "length xs \<le> 2 ^ 53" and "- (2 ^ 63) \<le> sum_list (map sint xs)" and "sum_list (map sint xs) < 2 ^ 63"
    and "\<And>x. x \<in> set xs \<Longrightarrow> sint lo \<le> sint x \<and> sint x \<le> sint hi"
  defines "mean \<equiv> word_of_int (sint (foldl (+) 0 xs) sdiv sint (word_of_nat (length xs) :: i64)) :: i64"
  shows "sint mean = sum_list (map sint xs) sdiv int (length xs)" and "sint lo \<le> sint mean \<and> sint mean \<le> sint hi"
proof -
  let ?S = "sum_list (map sint xs)" and ?n = "int (length xs)"
  have "sint (word_of_nat (length xs) :: i64) = ?n"
    using sint_of_int [of ?n] assms(2) by simp
  then have mean: "mean = word_of_int (?S sdiv ?n)" by (simp add: mean_def sint_sum [OF assms(3,4)])
  have between: "sint lo \<le> ?S sdiv ?n" "?S sdiv ?n \<le> sint hi"
    using sdiv_between [of ?n "sint lo" ?S "sint hi"] sum_list_between [of xs "sint lo" sint "sint hi"] assms(1,5) by simp_all
  show "sint mean = ?S sdiv ?n"
    unfolding mean using between sint_range [of lo] sint_range [of hi] by (intro sint_of_int) linarith+
  with between show "sint lo \<le> sint mean \<and> sint mean \<le> sint hi" by simp
qed

lemma sorted_at_mono:
  assumes "i \<le> j" and "j < length xs"
  shows "sint (sort_key sint xs ! i) \<le> sint (sort_key (sint :: i64 \<Rightarrow> int) xs ! j)"
proof -
  have "map sint (sort_key sint xs) ! i \<le> map sint (sort_key (sint :: i64 \<Rightarrow> int) xs) ! j"
    using assms by (intro sorted_nth_mono sorted_sort_key) simp_all
  then show ?thesis using assms by simp
qed

lemma sorted_ends:
  assumes "x \<in> set xs"
  shows "sint (sort_key sint xs ! 0) \<le> sint x" and "sint x \<le> sint (sort_key (sint :: i64 \<Rightarrow> int) xs ! (length xs - 1))"
proof -
  from assms obtain i where "i < length xs" "x = sort_key sint xs ! i" by (metis in_set_conv_nth length_sort set_sort)
  then show "sint (sort_key sint xs ! 0) \<le> sint x" "sint x \<le> sint (sort_key sint xs ! (length xs - 1))"
    using sorted_at_mono [of 0 i xs] sorted_at_mono [of i "length xs - 1" xs] by simp_all
qed

text \<open>Claim C33. The percentiles of the report, for up to \<open>2 ^ 44\<close> samples: the computation does not panic; in spite of the
  floating-point arithmetic the 50th, 95th and 99th percentile are the samples at the integer ranks \<open>(n-1)/2\<close>, \<open>19(n-1)/20\<close> and
  \<open>99(n-1)/100\<close> of the sorted list; they are in order and bounded by the maximum, which is the largest sample; and if the sum of
  the samples does not overflow, the mean is the truncated quotient and no larger than the maximum.\<close>

theorem percentiles_exact:
  assumes "lr_samples r = xs" and "xs \<noteq> []" and "length xs \<le> 2 ^ 44"
  shows "\<exists>s. percentiles r = Some s \<and> su_count s = length xs
    \<and> su_p50 s = sort_key sint xs ! ((length xs - 1) div 2)
    \<and> su_p95 s = sort_key sint xs ! ((length xs - 1) * 19 div 20)
    \<and> su_p99 s = sort_key sint xs ! ((length xs - 1) * 99 div 100)
    \<and> sint (su_p50 s) \<le> sint (su_p95 s) \<and> sint (su_p95 s) \<le> sint (su_p99 s) \<and> sint (su_p99 s) \<le> sint (su_max s)
    \<and> su_max s \<in> set xs \<and> (\<forall>x \<in> set xs. sint x \<le> sint (su_max s))
    \<and> (- (2 ^ 63) \<le> sum_list (map sint xs) \<and> sum_list (map sint xs) < 2 ^ 63 \<longrightarrow>
         sint (su_mean s) = sum_list (map sint xs) sdiv int (length xs) \<and> sint (su_mean s) \<le> sint (su_max s))"
proof -
  let ?s = "sort_key sint xs" and ?n = "length xs"
  have n: "0 < ?n" using assms(2) by simp
  have ranks: "rank ?n q50 = (?n - 1) div 2" "rank ?n q95 = (?n - 1) * 19 div 20" "rank ?n q99 = (?n - 1) * 99 div 100"
    using rank_exact [OF quantiles(1) n assms(3)] rank_exact [OF quantiles(2) n assms(3)]
      rank_exact [OF quantiles(3) n assms(3)] by simp_all
  have le: "rank ?n q50 \<le> rank ?n q95" "rank ?n q95 \<le> rank ?n q99" "rank ?n q99 \<le> ?n - 1"
    using rank_mono [of q50 q95 ?n] rank_mono [of q95 q99 ?n] rank_less [OF n, of q99] assms(3)
    by (simp_all add: q50_def q95_def q99_def)
  have max: "?s ! (?n - 1) \<in> set xs" using n nth_mem [of "?n - 1" ?s] by simp
  have sum: "sum_list (map sint ?s) = sum_list (map sint xs)"
    using sum_mset_sum_list [of "map sint ?s"] sum_mset_sum_list [of "map sint xs"] by simp
  note ends = sorted_ends [of _ xs]
  have ne: "?s \<noteq> []" using assms(2) by (metis length_0_conv length_sort)
  define mean where "mean = (word_of_int (sint (foldl (+) 0 ?s) sdiv sint (word_of_nat ?n :: i64)) :: i64)"
  have mean: "sint mean = sum_list (map sint xs) sdiv int ?n" "sint mean \<le> sint (?s ! (?n - 1))"
    if "- (2 ^ 63) \<le> sum_list (map sint xs) \<and> sum_list (map sint xs) < 2 ^ 63"
    using mean_between [of ?s "?s ! 0" "?s ! (?n - 1)"] that ends ne assms(3) by (simp_all add: sum mean_def)
  have order: "sint (?s ! rank ?n q50) \<le> sint (?s ! rank ?n q95)" "sint (?s ! rank ?n q95) \<le> sint (?s ! rank ?n q99)"
    "sint (?s ! rank ?n q99) \<le> sint (?s ! (?n - 1))"
    by (rule sorted_at_mono; use le n in linarith)+
  have "length xs \<le> 2 ^ 53" using assms(3) by simp
  from percentiles_Some [OF assms(1,2) this, folded mean_def] show ?thesis
    unfolding ranks [symmetric] using max ends(2) mean order by (intro exI conjI) (assumption | simp)+
qed

lemma percentiles_exact_witness:
  "\<exists>s. percentiles \<lparr>lr_samples = [30, 10, 20]\<rparr> = Some s \<and> su_count s = 3 \<and> su_p50 s = 20 \<and> sint (su_mean s) = 20"
  using percentiles_exact [of "\<lparr>lr_samples = [30, 10, 20]\<rparr>" "[30, 10, 20]"] by (auto simp: signed_divide_int_def)

end
