(* ===== verification/Load_Generator.thy ===== *)
theory Load_Generator
  imports Mqtt_Client Latency
begin

text \<open>
  The load generator (\<open>cmd/loadgen/main.go\<close>): its configuration, the connections it sets up with the client library, the
  publishing loops, the message handlers of the subscribers and the measurement window. A run is a step relation: the clock
  advances, a publisher takes one step of its loop, a subscriber handles a message that some publisher has sent (in any
  order, any number of times, or never: nothing is assumed of the broker under test), and the main goroutine moves the window.
  Pacing is the argument \<open>interval\<close>, the result of a floating-point quotient; the ratios and rates of the report are
  quotients of the counters below and are not modelled.

  The lemmas show that every sample is the age of a message sent inside the window, that the counter of
  received messages is the number of samples, and that a publisher returns soon after the window closes.
\<close>

subsection \<open>Stamps and payloads\<close>

definition PutUint64 :: "u64 \<Rightarrow> bytes" where
  "PutUint64 v = map (\<lambda>s. ucast (drop_bit s v)) [56, 48, 40, 32, 24, 16, 8, 0]"

definition Uint64 :: "bytes \<Rightarrow> u64" where
  "Uint64 b = ucast (b ! 7) OR push_bit 8 (ucast (b ! 6)) OR push_bit 16 (ucast (b ! 5)) OR push_bit 24 (ucast (b ! 4))
     OR push_bit 32 (ucast (b ! 3)) OR push_bit 40 (ucast (b ! 2)) OR push_bit 48 (ucast (b ! 1)) OR push_bit 56 (ucast (b ! 0))"

definition stamp :: "bytes \<Rightarrow> u64 \<Rightarrow> bytes" where
  "stamp buf now = PutUint64 now @ drop timestampBytes buf"

definition initialPayload :: "nat \<Rightarrow> bytes" where
  "initialPayload n = replicate timestampBytes 0 @ map (\<lambda>i. word_of_nat (97 + i mod 26)) [timestampBytes..<n]"

subsection \<open>The configuration\<close>

record lg_config =
  lo_Address :: string
  lo_Publishers :: nat
  lo_Subscribers :: nat
  lo_Rate :: int
  lo_Duration :: duration
  lo_QoS :: byte
  lo_PayloadSize :: int
  lo_TopicPrefix :: string
  lo_Warmup :: duration
  lo_JSON :: bool
  lo_Label :: string

definition lg_main_config :: "lg_config \<Rightarrow> int \<Rightarrow> lg_config" where
  "lg_main_config cfg qos =
     (let cfg = cfg\<lparr>lo_QoS := word_of_int qos\<rparr>;
          cfg = (if lo_PayloadSize cfg < int timestampBytes then cfg\<lparr>lo_PayloadSize := int timestampBytes\<rparr> else cfg)
      in if lo_Label cfg = '''' then cfg\<lparr>lo_Label := lo_Address cfg\<rparr> else cfg)"

subsection \<open>Connecting the clients\<close>

definition sub_options :: "lg_config \<Rightarrow> nat \<Rightarrow> nat \<Rightarrow> client_options" where
  "sub_options cfg pid i =
     \<lparr>co_Address = lo_Address cfg, co_ClientID = ''loadgen-sub-'' @ decimal pid @ ''-'' @ decimal i, co_CleanSession = True,
      co_KeepAlive = 60, co_Username = '''', co_Password = '''', co_ConnectTimeout = 0, co_AckTimeout = 0,
      co_OnMessage = True, co_Will = None, co_SuppressPing = False\<rparr>"

definition pub_options :: "lg_config \<Rightarrow> nat \<Rightarrow> nat \<Rightarrow> client_options" where
  "pub_options cfg pid i =
     \<lparr>co_Address = lo_Address cfg, co_ClientID = ''loadgen-pub-'' @ decimal pid @ ''-'' @ decimal i, co_CleanSession = True,
      co_KeepAlive = 60, co_Username = '''', co_Password = '''', co_ConnectTimeout = 0, co_AckTimeout = 30 * second,
      co_OnMessage = False, co_Will = None, co_SuppressPing = False\<rparr>"

text \<open>What the network does to one connection attempt: the result of dialling, the answer to the CONNECT, and what the read loop
  sees while the subscription waits.\<close>

record attempt =
  at_dialled :: "string option"
  at_response :: "codec_error + packet"
  at_reads :: reads
  at_wake :: wake

definition connectSubscriber :: "lg_config \<Rightarrow> nat \<Rightarrow> nat \<Rightarrow> attempt \<Rightarrow> (cli_error + mqtt_client) option" where
  "connectSubscriber cfg pid i a =
     (case cli_Connect (cli_New (sub_options cfg pid i)) (at_dialled a) (at_response a) of
        (Some err, c) \<Rightarrow> Some (Inl err)
      | (None, c) \<Rightarrow>
          (case cli_Subscribe c (lo_TopicPrefix cfg @ ''/#'') (lo_QoS cfg) (at_reads a) (at_wake a) of
             None \<Rightarrow> None
           | Some (Inl err, c) \<Rightarrow> Some (Inl err)
           | Some (Inr level, c) \<Rightarrow> Some (Inr c)))"

definition connectPublisher :: "lg_config \<Rightarrow> nat \<Rightarrow> nat \<Rightarrow> attempt \<Rightarrow> (cli_error + mqtt_client) option" where
  "connectPublisher cfg pid i a =
     (case cli_Connect (cli_New (pub_options cfg pid i)) (at_dialled a) (at_response a) of
        (Some err, c) \<Rightarrow> Some (Inl err)
      | (None, c) \<Rightarrow> Some (Inr c))"

fun connectAll ::
  "(nat \<Rightarrow> attempt \<Rightarrow> (cli_error + mqtt_client) option) \<Rightarrow> nat \<Rightarrow> attempt list \<Rightarrow> (nat \<times> cli_error + mqtt_client list) option" where
  "connectAll f i [] = Some (Inr [])"
| "connectAll f i (a # as) =
     (case f i a of
        None \<Rightarrow> None
      | Some (Inl err) \<Rightarrow> Some (Inl (i, err))
      | Some (Inr c) \<Rightarrow>
          (case connectAll f (Suc i) as of
             Some (Inr cs) \<Rightarrow> Some (Inr (c # cs))
           | r \<Rightarrow> r))"

datatype lg_error = SubscriberFailed nat cli_error | PublisherFailed nat cli_error

subsection \<open>Publishers and subscribers\<close>

definition onMessage :: "i64 \<Rightarrow> i64 \<Rightarrow> client_message \<Rightarrow> u64 \<Rightarrow> latencyRecorder \<Rightarrow> u64 \<times> latencyRecorder" where
  "onMessage now from m received recorder =
     (if from = 0 \<or> length (cm_Payload m) < timestampBytes then (received, recorder)
      else
        let sentAt = Uint64 (take timestampBytes (cm_Payload m)) in
        if sint sentAt < sint from then (received, recorder)
        else (received + 1, record_sample recorder (now - sentAt)))"

datatype pub_phase = PubTop | PubTick | PubStamp | PubSend | PubAdd | PubDone

record publisher =
  pb_client :: mqtt_client
  pb_topic :: string
  pb_buf :: bytes
  pb_phase :: pub_phase

definition newPublisher :: "lg_config \<Rightarrow> nat \<Rightarrow> mqtt_client \<Rightarrow> publisher" where
  "newPublisher cfg index c =
     \<lparr>pb_client = c, pb_topic = lo_TopicPrefix cfg @ ''/'' @ decimal index,
      pb_buf = initialPayload (nat (lo_PayloadSize cfg)), pb_phase = PubTop\<rparr>"

text \<open>What decides the next step of a publisher besides its own state.\<close>

record pub_event =
  ev_now :: i64 \<comment> \<open>\<open>time.Now().UnixNano()\<close>\<close>
  ev_tick :: bool \<comment> \<open>the ticker fires, and its case is chosen\<close>
  ev_reads :: reads
  ev_wake :: wake

definition publishLoop_step ::
  "lg_config \<Rightarrow> duration \<Rightarrow> bool \<Rightarrow> pub_event \<Rightarrow> publisher \<Rightarrow> u64 \<Rightarrow> (publisher \<times> u64) option" where
  "publishLoop_step cfg interval stop ev pb published =
     (case pb_phase pb of
        PubTop \<Rightarrow>
          Some (pb\<lparr>pb_phase := (if stop then PubDone else if interval > 0 then PubTick else PubStamp)\<rparr>, published)
      | PubTick \<Rightarrow>
          if ev_tick ev then Some (pb\<lparr>pb_phase := PubStamp\<rparr>, published)
          else if stop then Some (pb\<lparr>pb_phase := PubDone\<rparr>, published)
          else None
      | PubStamp \<Rightarrow> Some (pb\<lparr>pb_buf := stamp (pb_buf pb) (ev_now ev), pb_phase := PubSend\<rparr>, published)
      | PubSend \<Rightarrow>
          (case cli_Publish (pb_client pb) (pb_topic pb) (pb_buf pb) (lo_QoS cfg) False (ev_reads ev) (ev_wake ev) of
             None \<Rightarrow> None
           | Some (Some err, c) \<Rightarrow> Some (pb\<lparr>pb_client := c, pb_phase := PubDone\<rparr>, published)
           | Some (None, c) \<Rightarrow> Some (pb\<lparr>pb_client := c, pb_phase := PubAdd\<rparr>, published))
      | PubAdd \<Rightarrow> Some (pb\<lparr>pb_phase := PubTop\<rparr>, published + 1)
      | PubDone \<Rightarrow> None)"

subsection \<open>A run\<close>

datatype run_phase = Warming | Opened | Measuring | Stopping | Settling | Counted | Closed

record loadgen =
  lg_now :: i64
  lg_published :: u64
  lg_received :: u64
  lg_measureFrom :: i64
  lg_publishedAtStart :: u64
  lg_publishedDuring :: u64
  lg_receivedDuring :: u64
  lg_stop :: bool
  lg_phase :: run_phase
  lg_recorders :: "latencyRecorder list"
  lg_publishers :: "publisher list"

definition lg_start :: "lg_config \<Rightarrow> i64 \<Rightarrow> nat \<Rightarrow> mqtt_client list \<Rightarrow> loadgen" where
  "lg_start cfg now k clients =
     \<lparr>lg_now = now, lg_published = 0, lg_received = 0, lg_measureFrom = 0, lg_publishedAtStart = 0,
      lg_publishedDuring = 0, lg_receivedDuring = 0, lg_stop = False, lg_phase = Warming,
      lg_recorders = replicate k newLatencyRecorder,
      lg_publishers = map (\<lambda>(i, c). newPublisher cfg i c) (enumerate 0 clients)\<rparr>"

definition lg_setup ::
  "lg_config \<Rightarrow> nat \<Rightarrow> i64 \<Rightarrow> attempt list \<Rightarrow> attempt list \<Rightarrow> (lg_error + mqtt_client list \<times> loadgen) option" where
  "lg_setup cfg pid now subs pubs =
     (case connectAll (connectSubscriber cfg pid) 0 subs of
        None \<Rightarrow> None
      | Some (Inl (i, err)) \<Rightarrow> Some (Inl (SubscriberFailed i err))
      | Some (Inr ss) \<Rightarrow>
          (case connectAll (connectPublisher cfg pid) 0 pubs of
             None \<Rightarrow> None
           | Some (Inl (i, err)) \<Rightarrow> Some (Inl (PublisherFailed i err))
           | Some (Inr ps) \<Rightarrow> Some (Inr (ss, lg_start cfg now (length ss) ps))))"

definition sent_by :: "mqtt_client \<Rightarrow> bytes set" where
  "sent_by c = {p_Payload p | p. PPublish p \<in> set (mc_written c)}"

inductive lg_step :: "lg_config \<Rightarrow> duration \<Rightarrow> loadgen \<Rightarrow> loadgen \<Rightarrow> bool" for cfg interval where
  tick: "sint (lg_now w) \<le> sint t \<Longrightarrow> lg_step cfg interval w (w\<lparr>lg_now := t\<rparr>)"
| publisher: "i < length (lg_publishers w) \<Longrightarrow> ev_now ev = lg_now w \<Longrightarrow>
    publishLoop_step cfg interval (lg_stop w) ev (lg_publishers w ! i) (lg_published w) = Some (pb, n) \<Longrightarrow>
    lg_step cfg interval w (w\<lparr>lg_publishers := (lg_publishers w)[i := pb], lg_published := n\<rparr>)"
| deliver: "lg_phase w \<noteq> Closed \<Longrightarrow> i < length (lg_recorders w) \<Longrightarrow>
    pb \<in> set (lg_publishers w) \<Longrightarrow> cm_Payload m \<in> sent_by (pb_client pb) \<Longrightarrow>
    onMessage (lg_now w) (lg_measureFrom w) m (lg_received w) (lg_recorders w ! i) = (n, r) \<Longrightarrow>
    lg_step cfg interval w (w\<lparr>lg_received := n, lg_recorders := (lg_recorders w)[i := r]\<rparr>)"
| opens: "lg_phase w = Warming \<Longrightarrow>
    lg_step cfg interval w (w\<lparr>lg_measureFrom := lg_now w, lg_phase := Opened\<rparr>)"
| load: "lg_phase w = Opened \<Longrightarrow>
    lg_step cfg interval w (w\<lparr>lg_publishedAtStart := lg_published w, lg_phase := Measuring\<rparr>)"
| stop: "lg_phase w = Measuring \<Longrightarrow> lg_step cfg interval w (w\<lparr>lg_stop := True, lg_phase := Stopping\<rparr>)"
| waited: "lg_phase w = Stopping \<Longrightarrow> list_all (\<lambda>pb. pb_phase pb = PubDone) (lg_publishers w) \<Longrightarrow>
    lg_step cfg interval w (w\<lparr>lg_publishedDuring := lg_published w - lg_publishedAtStart w, lg_phase := Settling\<rparr>)"
| settled: "lg_phase w = Settling \<Longrightarrow>
    lg_step cfg interval w (w\<lparr>lg_receivedDuring := lg_received w, lg_phase := Counted\<rparr>)"
| closes: "lg_phase w = Counted \<Longrightarrow> lg_step cfg interval w (w\<lparr>lg_phase := Closed\<rparr>)"

record lg_Result =
  re_Label :: string
  re_Broker :: string
  re_Publishers :: nat
  re_Subscribers :: nat
  re_QoS :: nat
  re_PayloadSize :: int
  re_TargetRate :: int
  re_Published :: u64
  re_Received :: u64
  re_Expected :: u64
  re_Latency :: summary \<comment> \<open>in nanoseconds; the report divides by a million\<close>

definition lg_Result_of :: "lg_config \<Rightarrow> loadgen \<Rightarrow> lg_Result option" where
  "lg_Result_of cfg w =
     (let expected = lg_publishedDuring w * word_of_nat (length (lg_recorders w)) in
      map_option (\<lambda>latency.
        \<lparr>re_Label = lo_Label cfg, re_Broker = lo_Address cfg, re_Publishers = lo_Publishers cfg,
         re_Subscribers = lo_Subscribers cfg, re_QoS = unat (lo_QoS cfg), re_PayloadSize = lo_PayloadSize cfg,
         re_TargetRate = lo_Rate cfg, re_Published = lg_publishedDuring w, re_Received = lg_receivedDuring w,
         re_Expected = expected, re_Latency = latency\<rparr>)
        (percentiles (mergeRecorders (lg_recorders w))))"

subsection \<open>What the samples are\<close>

lemma length_PutUint64 [simp]: "length (PutUint64 v) = 8"
  by (simp add: PutUint64_def)

lemma bit_byte_at:
  "bit (push_bit s (ucast (ucast (drop_bit s v) :: byte)) :: u64) n \<longleftrightarrow> s \<le> n \<and> n < s + 8 \<and> n < 64 \<and> bit (v :: u64) n"
  by (auto simp: bit_push_bit_iff bit_ucast_iff bit_drop_bit_eq)

lemma Uint64_PutUint64: "Uint64 (PutUint64 v) = v"
proof (rule bit_word_eqI)
  fix n
  assume "n < LENGTH(64)"
  then show "bit (Uint64 (PutUint64 v)) n = bit v n"
    using bit_byte_at [of 0 v n] by (simp add: Uint64_def PutUint64_def bit_or_iff bit_byte_at) linarith
qed

lemma stamp_read: "Uint64 (take timestampBytes (stamp buf now)) = now"
  by (simp add: stamp_def timestampBytes_def Uint64_PutUint64)

lemma length_stamp: "timestampBytes \<le> length (stamp buf now)"
  by (simp add: stamp_def timestampBytes_def)

lemma cli_write_sent: "sent_by (snd (cli_write c p)) \<subseteq> sent_by c \<union> {p_Payload q | q. p = PPublish q}"
  by (auto simp: cli_write_def sent_by_def split: sum.split)

lemma cli_dispatch_sent: "sent_by (cli_dispatch now c p) = sent_by c"
  by (cases p) (auto simp: cli_handlePublish_def cli_deliver_def cli_write_def Let_def sent_by_def
      split: option.split sum.split)

lemma cli_readLoop_sent: "sent_by (cli_readLoop c rs) = sent_by c"
  by (induction c rs rule: cli_readLoop.induct) (simp_all add: cli_dispatch_sent, simp add: cli_close_def sent_by_def)

lemma cli_await_sent: "cli_await d ack wake = Some (e, d') \<Longrightarrow> sent_by d' = sent_by d"
  by (cases wake) (auto simp: cli_await_def sent_by_def split: option.splits if_splits)

lemma request_sent:
  "allocatePacketID c = (i, c1) \<Longrightarrow> sent_by c1 = sent_by c" "expect c1 i = (ack, c2) \<Longrightarrow> sent_by c2 = sent_by c1"
  "sent_by (forget c i) = sent_by c"
  by (auto simp: expect_def allocatePacketID_def forget_def sent_by_def Let_def split: prod.splits)

lemma cli_Publish_sent:
  assumes "cli_Publish c topic payload qos retain rs wake = Some (e, c')"
  shows "sent_by c' \<subseteq> insert payload (sent_by c)"
proof -
  let ?p = "\<lambda>i. \<lparr>p_DUP = False, p_QoS = qos, p_Retain = retain, p_Topic = topic, p_PacketID = i, p_Payload = payload\<rparr>"
  have wrote: "sent_by d' \<subseteq> insert payload (sent_by d)" if "cli_write d (PPublish (?p i)) = (e, d')" for d d' e i
    using cli_write_sent [of d "PPublish (?p i)"] that by auto
  obtain i c1 ack c2 e3 c3 where r: "allocatePacketID c = (i, c1)" "expect c1 i = (ack, c2)"
    "cli_write c2 (PPublish (?p i)) = (e3, c3)" by (metis surj_pair)
  have c3: "sent_by c3 \<subseteq> insert payload (sent_by c)"
    using wrote [OF r(3)] request_sent(1) [OF r(1)] request_sent(2) [OF r(2)] by simp
  consider "\<not> mc_conn c" | "mc_conn c" "qos = 0" | "mc_conn c" "qos \<noteq> 0" by blast
  then show ?thesis
  proof cases
    case 1
    with assms show ?thesis by (auto simp: cli_Publish_def)
  next
    case 2
    with assms wrote [of c 0] show ?thesis by (simp add: cli_Publish_def)
  next
    case 3
    show ?thesis
    proof (cases e3)
      case None
      with 3 assms r obtain c4 where "cli_await (cli_readLoop c3 rs) ack wake = Some (e, c4)" "c' = forget c4 i"
        by (auto simp: cli_Publish_def)
      with c3 show ?thesis using cli_await_sent cli_readLoop_sent by (fastforce simp: request_sent(3))
    next
      case (Some err)
      with 3 assms r c3 show ?thesis by (auto simp: cli_Publish_def request_sent(3))
    qed
  qed
qed

subsection \<open>The invariant of a run\<close>

definition stamped :: "i64 \<Rightarrow> bytes \<Rightarrow> bool" where
  "stamped now payload = (timestampBytes \<le> length payload \<and> sint (Uint64 (take timestampBytes payload)) \<le> sint now)"

definition samples_of :: "loadgen \<Rightarrow> i64 list" where
  "samples_of w = concat (map lr_samples (lg_recorders w))"

definition lg_ok :: "loadgen \<Rightarrow> bool" where
  "lg_ok w = (0 < sint (lg_now w) \<and> 0 \<le> sint (lg_measureFrom w) \<and> sint (lg_measureFrom w) \<le> sint (lg_now w)
     \<and> (lg_phase w = Warming \<longleftrightarrow> lg_measureFrom w = 0)
     \<and> lg_received w = word_of_nat (length (samples_of w))
     \<and> (\<forall>s \<in> set (samples_of w). 0 \<le> sint s \<and> sint s \<le> sint (lg_now w) - sint (lg_measureFrom w))
     \<and> (lg_phase w = Warming \<longrightarrow> samples_of w = [])
     \<and> (\<forall>pb \<in> set (lg_publishers w). (pb_phase pb = PubSend \<longrightarrow> stamped (lg_now w) (pb_buf pb))
          \<and> (\<forall>payload \<in> sent_by (pb_client pb). stamped (lg_now w) payload)))"

lemma stamped_later: "stamped now payload \<Longrightarrow> sint now \<le> sint t \<Longrightarrow> stamped t payload"
  by (simp add: stamped_def)

lemma publishLoop_step_stamped:
  assumes "publishLoop_step cfg interval stop ev pb published = Some (pb', n)"
    and "pb_phase pb = PubSend \<longrightarrow> stamped (ev_now ev) (pb_buf pb)" and "\<forall>payload \<in> sent_by (pb_client pb). stamped (ev_now ev) payload"
  shows "(pb_phase pb' = PubSend \<longrightarrow> stamped (ev_now ev) (pb_buf pb')) \<and> (\<forall>payload \<in> sent_by (pb_client pb'). stamped (ev_now ev) payload)"
proof (cases "pb_phase pb = PubSend")
  case True
  with assms(1) obtain e c where c: "cli_Publish (pb_client pb) (pb_topic pb) (pb_buf pb) (lo_QoS cfg) False (ev_reads ev) (ev_wake ev) = Some (e, c)"
    "pb_client pb' = c" "pb_phase pb' \<noteq> PubSend"
    by (auto simp: publishLoop_step_def split: option.splits)
  with cli_Publish_sent [OF c(1)] assms(2,3) True show ?thesis by blast
next
  case False
  with assms show ?thesis
    by (auto simp: publishLoop_step_def stamped_def stamp_read length_stamp split: pub_phase.splits if_splits)
qed

lemma sint_diff: "0 \<le> sint b \<Longrightarrow> sint b \<le> sint a \<Longrightarrow> sint (a - b :: i64) = sint a - sint b"
  using sint_of_int [of "sint a - sint b"] sint_range [of a] by simp

text \<open>Each rule keeps the invariant.\<close>

lemma onMessage_sample:
  assumes "onMessage now from m received recorder = (n, r)" and "stamped now (cm_Payload m)" and "0 \<le> sint from"
  obtains "n = received" "r = recorder"
  | s where "n = received + 1" "r = record_sample recorder s" "0 \<le> sint s" "sint s \<le> sint now - sint from" "from \<noteq> 0"
proof (cases "(n, r) = (received, recorder)")
  case False
  define sentAt where "sentAt = Uint64 (take timestampBytes (cm_Payload m))"
  have "sint sentAt \<le> sint now" using assms(2) by (simp add: stamped_def sentAt_def)
  moreover have "from \<noteq> 0" "sint from \<le> sint sentAt" "n = received + 1" "r = record_sample recorder (now - sentAt)"
    using assms(1) False by (auto simp: onMessage_def Let_def sentAt_def split: if_splits)
  ultimately show thesis using assms(3) sint_diff [of sentAt now] by (intro that(2) [of "now - sentAt"]) simp_all
qed (use that(1) in simp)

lemma samples_add:
  assumes "i < length rs"
  shows "set (concat (map lr_samples (rs[i := record_sample (rs ! i) s]))) = insert s (set (concat (map lr_samples rs)))"
    and "length (concat (map lr_samples (rs[i := record_sample (rs ! i) s]))) = Suc (length (concat (map lr_samples rs)))"
proof -
  from assms have rs: "rs = take i rs @ rs ! i # drop (Suc i) rs" by (simp add: id_take_nth_drop)
  have eq: "rs[i := record_sample (rs ! i) s] = take i rs @ record_sample (rs ! i) s # drop (Suc i) rs"
    using assms by (rule upd_conv_take_nth_drop)
  show "set (concat (map lr_samples (rs[i := record_sample (rs ! i) s]))) = insert s (set (concat (map lr_samples rs)))"
    unfolding eq by (subst (3) rs) (auto simp: record_sample_def)
  show "length (concat (map lr_samples (rs[i := record_sample (rs ! i) s]))) = Suc (length (concat (map lr_samples rs)))"
    unfolding eq by (subst (3) rs) (simp add: record_sample_def)
qed

lemma lg_step_ok:
  assumes "lg_step cfg interval w w'" and "lg_ok w"
  shows "lg_ok w'"
  using assms
proof (induction rule: lg_step.induct)
  case (tick w t)
  then show ?case by (fastforce simp: lg_ok_def samples_of_def intro: stamped_later)
next
  case (publisher i w ev pb n)
  then have "(pb_phase pb = PubSend \<longrightarrow> stamped (lg_now w) (pb_buf pb)) \<and> (\<forall>payload \<in> sent_by (pb_client pb). stamped (lg_now w) payload)"
    using publishLoop_step_stamped [OF publisher(3)] nth_mem [OF publisher(1)] by (auto simp: lg_ok_def)
  with publisher(4) show ?case
    using set_update_subset_insert [of "lg_publishers w" i pb] by (auto simp: lg_ok_def samples_of_def)
next
  case (deliver w i pb m n r)
  then have "stamped (lg_now w) (cm_Payload m)" "0 \<le> sint (lg_measureFrom w)" by (auto simp: lg_ok_def)
  with deliver(5) show ?case
  proof (cases rule: onMessage_sample)
    case 1
    with deliver(6) show ?thesis by (simp add: lg_ok_def samples_of_def)
  next
    case (2 s)
    with deliver(6) samples_add [OF deliver(2), of s] show ?thesis
      by (auto simp: lg_ok_def samples_of_def)
  qed
next
  case (opens w)
  then show ?case by (auto simp: lg_ok_def samples_of_def)
qed (simp_all add: lg_ok_def samples_of_def)

lemma lg_start_ok:
  assumes "0 < sint now" and "\<forall>c \<in> set clients. sent_by c = {}"
  shows "lg_ok (lg_start cfg now k clients)"
proof -
  have "samples_of (lg_start cfg now k clients) = []"
    by (simp add: samples_of_def lg_start_def newLatencyRecorder_def)
  moreover have "pb_phase pb = PubTop \<and> sent_by (pb_client pb) = {}" if "pb \<in> set (lg_publishers (lg_start cfg now k clients))" for pb
    using that assms(2) in_set_enumerate_eq [of _ 0 clients] by (auto simp: lg_start_def newPublisher_def)
  ultimately show ?thesis using assms(1) by (auto simp: lg_ok_def lg_start_def)
qed

lemma connected_sent:
  "cli_Connect (cli_New opts) dialled response = (e, c) \<Longrightarrow> sent_by c = {}"
  by (auto simp: cli_Connect_def cli_New_def cli_write_def sent_by_def Let_def split: option.splits sum.splits packet.splits if_splits)

lemma connectAll_clients:
  assumes "connectAll f i as = Some (Inr cs)" and "\<And>j a c. f j a = Some (Inr c) \<Longrightarrow> P c"
  shows "length cs = length as" and "\<forall>c \<in> set cs. P c"
  using assms by (induction f i as arbitrary: cs rule: connectAll.induct) (auto split: option.splits sum.splits)

lemma lg_setup_ok:
  assumes "lg_setup cfg pid now subs pubs = Some (Inr (ss, w))" and "0 < sint now"
  shows "lg_ok w" and "length (lg_recorders w) = length subs" and "length (lg_publishers w) = length pubs"
proof -
  obtain ps where ss: "connectAll (connectSubscriber cfg pid) 0 subs = Some (Inr ss)"
    and ps: "connectAll (connectPublisher cfg pid) 0 pubs = Some (Inr ps)" and w: "w = lg_start cfg now (length ss) ps"
    using assms(1) by (auto simp: lg_setup_def split: option.splits sum.splits)
  have fresh: "sent_by c = {}" if "connectPublisher cfg pid j a = Some (Inr c)" for j a c
    using that connected_sent by (auto simp: connectPublisher_def split: prod.splits option.splits)
  note pubs = connectAll_clients [OF ps, where P = "\<lambda>c. sent_by c = {}", OF fresh]
  show "lg_ok w" unfolding w by (rule lg_start_ok [OF assms(2) pubs(2)])
  show "length (lg_recorders w) = length subs"
    using connectAll_clients(1) [OF ss, where P = "\<lambda>c. True"] by (simp add: w lg_start_def)
  show "length (lg_publishers w) = length pubs" using pubs(1) by (simp add: w lg_start_def)
qed

lemma lg_steps_ok: "(lg_step cfg interval)\<^sup>*\<^sup>* w w' \<Longrightarrow> lg_ok w \<Longrightarrow> lg_ok w'"
  by (induction rule: rtranclp_induct) (auto intro: lg_step_ok)


definition sample_lg_config :: lg_config where
  "sample_lg_config =
     \<lparr>lo_Address = ''broker:1883'', lo_Publishers = 1, lo_Subscribers = 0, lo_Rate = 0, lo_Duration = 0, lo_QoS = 0,
      lo_PayloadSize = 8, lo_TopicPrefix = ''bench'', lo_Warmup = 0, lo_JSON = False, lo_Label = ''run''\<rparr>"

definition accepted_attempt :: attempt where
  "accepted_attempt =
     \<lparr>at_dialled = None, at_response = Inr (PConnack \<lparr>ca_SessionPresent = False, ca_ReturnCode = ConnectAccepted\<rparr>),
      at_reads = [], at_wake = WTimer\<rparr>"

lemma sample_setup: "\<exists>w. lg_setup sample_lg_config 7 100 [] [accepted_attempt] = Some (Inr ([], w))"
proof -
  obtain c where c: "cli_Connect (cli_New (pub_options sample_lg_config 7 0)) None
      (Inr (PConnack \<lparr>ca_SessionPresent = False, ca_ReturnCode = ConnectAccepted\<rparr>)) = (None, c)"
    by (auto simp: cli_Connect_def cli_New_def cli_write_def connect_Encode_def Let_def)
  show ?thesis by (simp add: lg_setup_def connectPublisher_def accepted_attempt_def c)
qed


subsection \<open>Closing the window\<close>

fun publishLoop :: "lg_config \<Rightarrow> duration \<Rightarrow> bool \<Rightarrow> pub_event list \<Rightarrow> publisher \<Rightarrow> u64 \<Rightarrow> (publisher \<times> u64) option" where
  "publishLoop cfg interval stop [] pb n = Some (pb, n)"
| "publishLoop cfg interval stop (ev # evs) pb n =
     (case publishLoop_step cfg interval stop ev pb n of
        None \<Rightarrow> None
      | Some (pb, n) \<Rightarrow> publishLoop cfg interval stop evs pb n)"

primrec steps_left :: "pub_phase \<Rightarrow> nat" where
  "steps_left PubTick = 5"
| "steps_left PubStamp = 4"
| "steps_left PubSend = 3"
| "steps_left PubAdd = 2"
| "steps_left PubTop = 1"
| "steps_left PubDone = 0"

lemma publishLoop_step_left:
  "publishLoop_step cfg interval True ev pb n = Some (pb', n') \<Longrightarrow>
     steps_left (pb_phase pb') < steps_left (pb_phase pb)
     \<and> (n' = n \<or> n' = n + 1 \<and> 2 \<le> steps_left (pb_phase pb) \<and> steps_left (pb_phase pb') < 2)"
  by (auto simp: publishLoop_step_def split: pub_phase.splits option.splits if_splits)

lemma publishLoop_left:
  "publishLoop cfg interval True evs pb n = Some (pb', n') \<Longrightarrow>
     length evs + steps_left (pb_phase pb') \<le> steps_left (pb_phase pb)
     \<and> (n' = n \<or> n' = n + 1 \<and> 2 \<le> steps_left (pb_phase pb))"
proof (induction evs arbitrary: pb n)
  case (Cons ev evs)
  then obtain pb1 n1 where "publishLoop_step cfg interval True ev pb n = Some (pb1, n1)"
    and "publishLoop cfg interval True evs pb1 n1 = Some (pb', n')" by (auto split: option.splits)
  with Cons.IH [OF this(2)] publishLoop_step_left [OF this(1)] show ?case by auto
qed simp

text \<open>Once the window is closed, a publisher takes at most five more steps, whatever the ticker, the network
  and the broker do, it is done after the fifth, and it counts at most one more message: so waiting for the
  publishers ends as soon as their pending \<open>Publish\<close> calls have returned.\<close>

theorem publishLoop_drains:
  assumes "publishLoop cfg interval True evs pb n = Some (pb', n')"
  shows "length evs \<le> 5 \<and> (length evs = 5 \<longrightarrow> pb_phase pb' = PubDone) \<and> (n' = n \<or> n' = n + 1)"
proof -
  have "steps_left (pb_phase pb) \<le> 5" by (cases "pb_phase pb") simp_all
  moreover have "steps_left p = 0 \<Longrightarrow> p = PubDone" for p by (cases p) simp_all
  ultimately show ?thesis using publishLoop_left [OF assms] by auto
qed

definition ticking_publisher :: publisher where
  "ticking_publisher =
     \<lparr>pb_client = sample_mqtt_client, pb_topic = ''bench/0'', pb_buf = initialPayload 8, pb_phase = PubTick\<rparr>"

definition quiet_event :: pub_event where
  "quiet_event = \<lparr>ev_now = 100, ev_tick = True, ev_reads = [], ev_wake = WTimer\<rparr>"

lemma ticking_run:
  "\<exists>pb. publishLoop sample_lg_config 1 True (replicate 5 quiet_event) ticking_publisher 0 = Some (pb, 1)"
proof -
  obtain c where "cli_Publish sample_mqtt_client ''bench/0'' (stamp (initialPayload 8) 100) 0 False [] WTimer = Some (None, c)"
    by (simp add: cli_Publish_def cli_write_def sample_mqtt_client_def publish_Encode_def Let_def)
  then show ?thesis
    by (simp add: numeral_eq_Suc publishLoop_step_def ticking_publisher_def quiet_event_def sample_lg_config_def)
qed

lemma publishLoop_drains_witness:
  "\<exists>pb. publishLoop sample_lg_config 1 True (replicate 5 quiet_event) ticking_publisher 0 = Some (pb, 1) \<and> pb_phase pb = PubDone"
  using ticking_run publishLoop_drains by (metis length_replicate)

subsection \<open>The opening of the window\<close>

text \<open>The steps of one publisher are steps of the run.\<close>

lemma publishLoop_steps:
  assumes "publishLoop cfg interval (lg_stop w) evs pb (lg_published w) = Some (pb', n)" and "lg_publishers w = [pb]"
    and "\<forall>ev \<in> set evs. ev_now ev = lg_now w"
  shows "(lg_step cfg interval)\<^sup>*\<^sup>* w (w\<lparr>lg_publishers := [pb'], lg_published := n\<rparr>)"
  using assms
proof (induction evs arbitrary: w pb)
  case Nil
  then show ?case by (cases w) auto
next
  case (Cons ev evs)
  then obtain pb1 n1 where step: "publishLoop_step cfg interval (lg_stop w) ev pb (lg_published w) = Some (pb1, n1)"
    and rest: "publishLoop cfg interval (lg_stop w) evs pb1 n1 = Some (pb', n)" by (auto split: option.splits)
  let ?w = "w\<lparr>lg_publishers := [pb1], lg_published := n1\<rparr>"
  have "lg_step cfg interval w ?w"
    using lg_step.publisher [of 0 w ev cfg interval pb1 n1] step Cons.prems by simp
  moreover have "(lg_step cfg interval)\<^sup>*\<^sup>* ?w (?w\<lparr>lg_publishers := [pb'], lg_published := n\<rparr>)"
    using Cons.prems(3) rest by (intro Cons.IH) simp_all
  ultimately show ?case by (simp add: converse_rtranclp_into_rtranclp)
qed

definition round_of :: "i64 \<Rightarrow> pub_event list" where
  "round_of now = replicate 4 \<lparr>ev_now = now, ev_tick = False, ev_reads = [], ev_wake = WTimer\<rparr>"

definition bench_packet :: "publisher \<Rightarrow> bytes \<Rightarrow> publish" where
  "bench_packet pb payload =
     \<lparr>p_DUP = False, p_QoS = 0, p_Retain = False, p_Topic = pb_topic pb, p_PacketID = 0, p_Payload = payload\<rparr>"

definition one_round :: "publisher \<Rightarrow> i64 \<Rightarrow> publisher" where
  "one_round pb now = pb\<lparr>pb_buf := stamp (pb_buf pb) now,
     pb_client := (pb_client pb)\<lparr>mc_written := mc_written (pb_client pb) @ [PPublish (bench_packet pb (stamp (pb_buf pb) now))]\<rparr>\<rparr>"

lemma publishLoop_round:
  assumes "pb_phase pb = PubTop" and "lo_QoS cfg = 0" and "mc_conn (pb_client pb)" and "mc_socketOpen (pb_client pb)"
  shows "publishLoop cfg 0 False (round_of now) pb n = Some (one_round pb now, n + 1)"
proof -
  have "cli_Publish (pb_client pb) (pb_topic pb) payload 0 False [] WTimer =
      Some (None, (pb_client pb)\<lparr>mc_written := mc_written (pb_client pb) @ [PPublish (bench_packet pb payload)]\<rparr>)" for payload
    using assms(3,4) by (simp add: cli_Publish_def cli_write_def publish_Encode_def bench_packet_def Let_def)
  with assms(1,2) show ?thesis
    by (cases pb) (simp add: round_of_def numeral_eq_Suc publishLoop_step_def one_round_def)
qed

lemma onMessage_counts:
  assumes "payload = stamp buf t" and "from \<noteq> 0" and "sint from \<le> sint t"
  shows "onMessage now from (\<lparr>cm_Topic = topic, cm_Payload = payload, cm_QoS = 0, cm_Retained = False, cm_DUP = False,
      cm_PacketID = 0, cm_ReceivedAt = at'\<rparr>) n r = (n + 1, record_sample r (now - t))"
  using assms length_stamp [of buf t] by (auto simp: onMessage_def stamp_read Let_def)

lemma deliver_sent:
  assumes "lg_phase w \<noteq> Closed" and "lg_recorders w = [r]" and "lg_publishers w = [pb]"
    and "stamp buf t \<in> sent_by (pb_client pb)" and "lg_measureFrom w \<noteq> 0" and "sint (lg_measureFrom w) \<le> sint t"
  shows "lg_step cfg interval w (w\<lparr>lg_received := lg_received w + 1, lg_recorders := [record_sample r (lg_now w - t)]\<rparr>)"
proof -
  obtain m where m: "cm_Payload m = stamp buf t"
    and on: "onMessage (lg_now w) (lg_measureFrom w) m (lg_received w) r = (lg_received w + 1, record_sample r (lg_now w - t))"
    using onMessage_counts [OF refl assms(5,6)] by (metis client_message.select_convs(2))
  show ?thesis using lg_step.deliver [of w 0 pb m] assms m on by simp
qed

lemma one_round_fields [simp]:
  "pb_phase (one_round pb now) = pb_phase pb" "mc_conn (pb_client (one_round pb now)) = mc_conn (pb_client pb)"
  "mc_socketOpen (pb_client (one_round pb now)) = mc_socketOpen (pb_client pb)"
  "stamp (pb_buf pb) now \<in> sent_by (pb_client (one_round pb now))"
  "payload \<in> sent_by (pb_client pb) \<Longrightarrow> payload \<in> sent_by (pb_client (one_round pb now))"
  by (simp_all add: one_round_def sent_by_def) (auto simp: bench_packet_def intro: exI [of _ "bench_packet pb (stamp (pb_buf pb) now)"])

lemma round_steps:
  assumes "lg_publishers w = [pb]" and "pb_phase pb = PubTop" and "mc_conn (pb_client pb)" and "mc_socketOpen (pb_client pb)"
    and "lo_QoS cfg = 0" and "\<not> lg_stop w"
  shows "(lg_step cfg 0)\<^sup>*\<^sup>* w (w\<lparr>lg_publishers := [one_round pb (lg_now w)], lg_published := lg_published w + 1\<rparr>)"
  using publishLoop_steps [of cfg 0 w "round_of (lg_now w)" pb] publishLoop_round [OF assms(2,5,3,4)] assms(1,6)
  by (simp add: round_of_def)

definition bench_state ::
  "i64 \<Rightarrow> u64 \<Rightarrow> u64 \<Rightarrow> i64 \<Rightarrow> u64 \<Rightarrow> u64 \<Rightarrow> u64 \<Rightarrow> bool \<Rightarrow> run_phase \<Rightarrow> i64 list \<Rightarrow> publisher \<Rightarrow> loadgen" where
  "bench_state now published received start atStart during receivedDuring stop phase samples pb =
     \<lparr>lg_now = now, lg_published = published, lg_received = received, lg_measureFrom = start, lg_publishedAtStart = atStart,
      lg_publishedDuring = during, lg_receivedDuring = receivedDuring, lg_stop = stop, lg_phase = phase,
      lg_recorders = [\<lparr>lr_samples = samples\<rparr>], lg_publishers = [pb]\<rparr>"

lemma bench_closes:
  assumes "pb_phase pb = PubTop" and "d = pb\<lparr>pb_phase := PubDone\<rparr>"
  shows "(lg_step cfg 0)\<^sup>*\<^sup>* (bench_state now n m start k 0 0 False Measuring xs pb) (bench_state now n m start k (n - k) m True Closed xs d)"
proof -
  let ?s = "bench_state now n m start k"
  have "(lg_step cfg 0)\<^sup>*\<^sup>* (?s 0 0 False Measuring xs pb) (?s 0 0 True Stopping xs pb)"
    using lg_step.stop [of "?s 0 0 False Measuring xs pb"] by (simp add: bench_state_def r_into_rtranclp)
  also have "(lg_step cfg 0)\<^sup>*\<^sup>* \<dots> (?s 0 0 True Stopping xs d)"
    using publishLoop_steps [of cfg 0 "?s 0 0 True Stopping xs pb" "[quiet_event\<lparr>ev_now := now\<rparr>]" pb d n] assms
    by (simp add: bench_state_def publishLoop_step_def)
  also have "(lg_step cfg 0)\<^sup>*\<^sup>* \<dots> (?s (n - k) 0 True Settling xs d)"
    using lg_step.waited [of "?s 0 0 True Stopping xs d"] assms(2) by (simp add: bench_state_def r_into_rtranclp)
  also have "(lg_step cfg 0)\<^sup>*\<^sup>* \<dots> (?s (n - k) m True Counted xs d)"
    using lg_step.settled [of "?s (n - k) 0 True Settling xs d"] by (simp add: bench_state_def r_into_rtranclp)
  also have "(lg_step cfg 0)\<^sup>*\<^sup>* \<dots> (?s (n - k) m True Closed xs d)"
    using lg_step.closes [of "?s (n - k) m True Counted xs d"] by (simp add: bench_state_def r_into_rtranclp)
  finally show ?thesis .
qed

lemma bench_deliver:
  assumes "stamp buf t \<in> sent_by (pb_client pb)" and "0 < sint start" and "sint start \<le> sint t"
  shows "(lg_step cfg 0)\<^sup>*\<^sup>* (bench_state now n m start k 0 0 False Measuring xs pb)
    (bench_state now n (m + 1) start k 0 0 False Measuring (xs @ [now - t]) pb)"
proof -
  have "start \<noteq> 0" using assms(2) by auto
  then show ?thesis
    using deliver_sent [of "bench_state now n m start k 0 0 False Measuring xs pb" "\<lparr>lr_samples = xs\<rparr>" pb buf t cfg 0] assms(1,3)
    by (simp add: bench_state_def record_sample_def r_into_rtranclp)
qed

text \<open>The comment on \<open>measureFrom\<close> says that counting messages by their stamp keeps the delivery ratio at or below one. It does
  not: \<open>measureFrom\<close> is stored before \<open>publishedAtStart\<close> is loaded, and a message that a publisher
  stamps and counts between the two is in the received count and not in the published one. One
  publisher, one subscriber and one delivery of each message suffice for a ratio of two.\<close>

theorem delivery_ratio_above_one:
  assumes "mc_conn c" and "mc_socketOpen c" and "lo_QoS cfg = 0"
  shows "\<exists>w r. (lg_step cfg 0)\<^sup>*\<^sup>* (lg_start cfg 100 1 [c]) w \<and> lg_phase w = Closed
    \<and> lg_Result_of cfg w = Some r \<and> re_Received r = 2 \<and> re_Expected r = 1 \<and> su_count (re_Latency r) = 2"
proof -
  define p0 where "p0 = newPublisher cfg 0 c"
  define p1 where "p1 = one_round p0 100"
  define p2 where "p2 = one_round p1 101"
  have p: "pb_phase p0 = PubTop" "mc_conn (pb_client p0)" "mc_socketOpen (pb_client p0)"
    using assms by (simp_all add: p0_def newPublisher_def)
  have sent: "stamp (pb_buf p0) 100 \<in> sent_by (pb_client p2)" "stamp (pb_buf p1) 101 \<in> sent_by (pb_client p2)"
    by (simp_all add: p2_def p1_def)
  have "lg_start cfg 100 1 [c] = bench_state 100 0 0 0 0 0 0 False Warming [] p0"
    by (simp add: bench_state_def lg_start_def p0_def newLatencyRecorder_def)
  also have "(lg_step cfg 0)\<^sup>*\<^sup>* \<dots> (bench_state 100 0 0 100 0 0 0 False Opened [] p0)"
    using lg_step.opens [of "bench_state 100 0 0 0 0 0 0 False Warming [] p0"] by (simp add: bench_state_def r_into_rtranclp)
  also have "(lg_step cfg 0)\<^sup>*\<^sup>* \<dots> (bench_state 100 1 0 100 0 0 0 False Opened [] p1)"
    using round_steps [of "bench_state 100 0 0 100 0 0 0 False Opened [] p0" p0 cfg] p assms(3) by (simp add: bench_state_def p1_def)
  also have "(lg_step cfg 0)\<^sup>*\<^sup>* \<dots> (bench_state 100 1 0 100 1 0 0 False Measuring [] p1)"
    using lg_step.load [of "bench_state 100 1 0 100 0 0 0 False Opened [] p1"] by (simp add: bench_state_def r_into_rtranclp)
  also have "(lg_step cfg 0)\<^sup>*\<^sup>* \<dots> (bench_state 101 1 0 100 1 0 0 False Measuring [] p1)"
    using lg_step.tick [of "bench_state 100 1 0 100 1 0 0 False Measuring [] p1" 101] by (simp add: bench_state_def r_into_rtranclp)
  also have "(lg_step cfg 0)\<^sup>*\<^sup>* \<dots> (bench_state 101 2 0 100 1 0 0 False Measuring [] p2)"
    using round_steps [of "bench_state 101 1 0 100 1 0 0 False Measuring [] p1" p1 cfg] p assms(3)
    by (simp add: bench_state_def p2_def p1_def)
  also have "(lg_step cfg 0)\<^sup>*\<^sup>* \<dots> (bench_state 101 2 1 100 1 0 0 False Measuring [1] p2)"
    using bench_deliver [OF sent(1), of 100 cfg 101 2 0 1 "[]"] by simp
  also have "(lg_step cfg 0)\<^sup>*\<^sup>* \<dots> (bench_state 101 2 2 100 1 0 0 False Measuring [1, 0] p2)"
    using bench_deliver [OF sent(2), of 100 cfg 101 2 1 1 "[1]"] by simp
  also have "(lg_step cfg 0)\<^sup>*\<^sup>* \<dots> (bench_state 101 2 2 100 1 1 2 True Closed [1, 0] (p2\<lparr>pb_phase := PubDone\<rparr>))"
    using bench_closes [of p2 _ cfg 101 2 2 100 1 "[1, 0]"] p(1) by (simp add: p2_def p1_def)
  finally show ?thesis
    by (intro exI conjI) (auto simp: bench_state_def lg_Result_of_def Let_def mergeRecorders_def percentiles_Some)
qed

end
