(* ===== verification/Observability.thy ===== *)
theory Observability
  imports Metrics Serving
begin

text \<open>
  What can be observed of a running broker: the metrics that its recorder has accumulated, over any run. Every step of the broker is
  labelled with the calls that it makes on the metrics port; the calls of the services are in \<open>Metrics\<close>, those of the
  connection (\<open>pkg/infrastructure/transport/connection.go\<close>) are defined here. Erasing the labels gives exactly the steps of
  \<open>Transport\<close>.

  The lemmas show that in every state of every run the counters that the inspection API reports are the totals that were recorded,
  and the gauges of clients, sessions and retained messages are exact, although they are set where the state changes and not
  computed from it.
\<close>

subsection \<open>What a scrape shows\<close>

text \<open>The total of a counter over all its labels, the value of a gauge that started at \<open>v\<close>, and the bytes counted.\<close>

definition op_incs :: "string \<Rightarrow> metric_op \<Rightarrow> bool" where
  "op_incs n op = (case op of OpInc n' ls \<Rightarrow> n' = n | _ \<Rightarrow> False)"

definition counter_total :: "string \<Rightarrow> recorder_call list \<Rightarrow> nat" where
  "counter_total n calls = length (filter (op_incs n) (concat (map perform calls)))"

definition setGauge :: "string \<Rightarrow> int \<Rightarrow> metric_op \<Rightarrow> int" where
  "setGauge n v op = (case op of OpSet n' x \<Rightarrow> if n' = n then x else v | _ \<Rightarrow> v)"

definition gauge_value :: "string \<Rightarrow> int \<Rightarrow> recorder_call list \<Rightarrow> int" where
  "gauge_value n v calls = foldl (setGauge n) v (concat (map perform calls))"

definition byte_total :: "recorder_call list \<Rightarrow> int" where
  "byte_total calls = (\<Sum>op \<leftarrow> concat (map perform calls). case op of OpAdd n v \<Rightarrow> v | _ \<Rightarrow> 0)"

lemma byte_total_simps [simp]:
  "byte_total [] = 0" "byte_total (xs @ ys) = byte_total xs + byte_total ys"
  "byte_total (c # cs) = (case c of RecordPacketReceived t n \<Rightarrow> max 0 n | RecordPacketSent t n \<Rightarrow> max 0 n | _ \<Rightarrow> 0) + byte_total cs"
  by (cases c; simp add: byte_total_def)+

lemma counter_total_append [simp]: "counter_total n (xs @ ys) = counter_total n xs + counter_total n ys"
  by (simp add: counter_total_def)

lemma gauge_value_append [simp]: "gauge_value n v (xs @ ys) = gauge_value n (gauge_value n v xs) ys"
  by (simp add: gauge_value_def)

lemma counter_total_Nil [simp]: "counter_total n [] = 0" and gauge_value_Nil [simp]: "gauge_value n v [] = v"
  by (simp_all add: counter_total_def gauge_value_def)

lemma counter_total_Cons [simp]:
  "counter_total ''messages_published_total'' (c # cs) =
     (case c of RecordMessagePublished q n \<Rightarrow> 1 | _ \<Rightarrow> 0) + counter_total ''messages_published_total'' cs"
  "counter_total ''messages_delivered_total'' (c # cs) =
     (case c of RecordMessageDelivered q \<Rightarrow> 1 | _ \<Rightarrow> 0) + counter_total ''messages_delivered_total'' cs"
  "counter_total ''messages_dropped_total'' (c # cs) =
     (case c of RecordMessageDropped reason \<Rightarrow> 1 | _ \<Rightarrow> 0) + counter_total ''messages_dropped_total'' cs"
  "counter_total ''retransmissions_total'' (c # cs) =
     (case c of RecordRetransmission \<Rightarrow> 1 | _ \<Rightarrow> 0) + counter_total ''retransmissions_total'' cs"
  by (cases c; simp add: counter_total_def op_incs_def)+

lemma gauge_value_Cons [simp]:
  "gauge_value ''connected_clients'' v (c # cs) =
     gauge_value ''connected_clients'' (case c of SetConnectedClients n \<Rightarrow> n | _ \<Rightarrow> v) cs"
  "gauge_value ''sessions'' v (c # cs) = gauge_value ''sessions'' (case c of SetSessionCount n \<Rightarrow> n | _ \<Rightarrow> v) cs"
  "gauge_value ''retained_messages'' v (c # cs) =
     gauge_value ''retained_messages'' (case c of SetRetainedCount n \<Rightarrow> n | _ \<Rightarrow> v) cs"
  by (cases c; simp add: gauge_value_def setGauge_def)+

subsection \<open>Calls compose\<close>

text \<open>
  A relation between two states and the calls made in between that composes: what holds of every round of a loop holds of the loop.
  \<open>p\<close> is the part of the loop's state that the relation is about.
\<close>

locale composable =
  fixes R :: "'s \<Rightarrow> 'l list \<Rightarrow> 's \<Rightarrow> bool"
  assumes refl [simp]: "R s [] s"
    and trans: "R s xs s' \<Longrightarrow> R s' ys s'' \<Longrightarrow> R s (xs @ ys) s''"
begin

lemma fold_rule:
  assumes "\<And>s x. R (p s) (g s x) (p (f s x))"
  shows "R (p s) (trace_fold f g s xs) (p (foldl f s xs))"
proof (induction xs arbitrary: s)
  case Nil
  show ?case by simp
next
  case (Cons x xs)
  show ?case using trans [OF assms Cons.IH] by simp
qed

end

text \<open>Counters and gauges have moved with the state, and no byte was counted.\<close>

definition metered :: "broker \<Rightarrow> recorder_call list \<Rightarrow> broker \<Rightarrow> bool" where
  "metered b calls b' \<longleftrightarrow>
     byte_total calls = 0
     \<and> b_published b' = b_published b + word_of_nat (counter_total ''messages_published_total'' calls)
     \<and> b_delivered b' = b_delivered b + word_of_nat (counter_total ''messages_delivered_total'' calls)
     \<and> b_dropped b' = b_dropped b + word_of_nat (counter_total ''messages_dropped_total'' calls)
     \<and> gauge_value ''connected_clients'' (int (registry_Count (b_registry b))) calls = int (registry_Count (b_registry b'))
     \<and> gauge_value ''sessions'' (int (session_Count (b_sessions b))) calls = int (session_Count (b_sessions b'))
     \<and> gauge_value ''retained_messages'' (int (retained_Count (b_retained b))) calls = int (retained_Count (b_retained b'))"

interpretation metering: composable metered
  by unfold_locales (simp_all add: metered_def)

text \<open>Under the lock of a session the store itself does not change.\<close>

definition metered_locked :: "broker \<Rightarrow> recorder_call list \<Rightarrow> broker \<Rightarrow> bool" where
  "metered_locked b calls b' \<longleftrightarrow> metered b calls b' \<and> b_sessions b' = b_sessions b"

interpretation locked: composable metered_locked
  by unfold_locales (auto simp: metered_locked_def intro: metering.trans)

subsection \<open>The publishing service\<close>

lemma sink_Send_only_conns: "sink_Send b k p = (e, b') \<Longrightarrow> \<exists>cs. b' = b\<lparr>b_conns := cs\<rparr>"
  by (auto simp: sink_Send_def Let_def split: option.splits prod.splits intro: exI [of _ "b_conns b"])

lemma sendPublish_metered: "metered_locked b (sendPublish_calls b sink m) (sendPublish b sink m)"
  by (auto simp: metered_locked_def metered_def sendPublish_calls_def sendPublish_def dest!: sink_Send_only_conns
      split: option.split prod.split)

lemma length_Update: "length (fst (snd (Update ss c fn x))) = length ss"
  by (simp add: Update_def length_mput split: option.split prod.split)

lemma updateSession_metered:
  assumes "\<And>s. session_Get (b_sessions b) c = Some s \<Longrightarrow> metered_locked b (calls s) (snd (snd (fn s b)))"
  shows "metered b (case session_Get (b_sessions b) c of None \<Rightarrow> [] | Some s \<Rightarrow> calls s) (snd (updateSession b c fn))"
proof (cases "session_Get (b_sessions b) c")
  case None
  then show ?thesis by (simp add: updateSession_def Update_def session_Get_def)
next
  case (Some s)
  with assms [OF Some] show ?thesis
    by (auto simp: updateSession_def Update_def session_Get_def metered_locked_def metered_def session_Count_def length_mput
        split: prod.split)
qed

lemma dropOne_metered: "metered_locked b [RecordMessageDropped reason] (dropOne b)"
  by (simp add: metered_locked_def metered_def dropOne_def)

lemma deliverTo_metered: "metered_locked b (deliverTo_calls sink m q s b) (snd (snd (deliverTo sink m q s b)))"
  by (auto simp: deliverTo_def deliverTo_calls_def Let_def dropOne_metered sendPublish_metered
      split: prod.split sum.split option.split)

lemma deliver_metered: "metered b (deliver_calls b c m q) (deliver b c m q)"
proof (cases "q = QoSAtMostOnce")
  case True
  then show ?thesis using sendPublish_metered [of b] by (simp add: deliver_def deliver_calls_def Let_def metered_locked_def)
next
  case False
  let ?u = "updateSession b c (deliverTo (sinkFor b c) m q)"
  have no_err: "fst (deliverTo k m q s b') = None" for k s b'
    by (auto simp: deliverTo_def Let_def split: prod.split sum.split option.split)
  show ?thesis
  proof (cases "session_Get (b_sessions b) c")
    case None
    with False dropOne_metered [of b "''no_session''"] show ?thesis
      by (simp add: deliver_def deliver_calls_def updateSession_def Update_def session_Get_def metered_locked_def)
  next
    case (Some s)
    have "fst ?u = None" using Some no_err [of "sinkFor b c" s b]
      by (auto simp: updateSession_def Update_def session_Get_def split: prod.split)
    with False Some updateSession_metered [of b c "\<lambda>s. deliverTo_calls (sinkFor b c) m q s b" "deliverTo (sinkFor b c) m q"]
    show ?thesis by (auto simp: deliver_def deliver_calls_def deliverTo_metered Let_def split: prod.split)
  qed
qed

lemma Publish_metered: "metered b (Publish_calls elapsed b m) (Publish b m)"
proof -
  let ?b = "b\<lparr>b_published := b_published b + 1\<rparr>"
  have r: "metered b (RecordMessagePublished (m_qos m) (int (PayloadSize m)) # applyRetention_calls ?b m) (applyRetention ?b m)"
    by (simp add: metered_def applyRetention_calls_def applyRetention_def)
  have l: "metered b' [RecordDeliveryLatency elapsed] b'" for b' by (simp add: metered_def)
  have f: "metered b' (fanOut_calls m b' ss)
     (foldl (\<lambda>b s. deliver b (sr_ClientID s) (AsLiveDelivery m) (Downgrade (m_qos m) (sr_GrantedQoS s))) b' ss)" for b' ss
    unfolding fanOut_calls_def
    by (rule metering.fold_rule [where p = "\<lambda>b. b"]) (rule deliver_metered)
  show ?thesis
    using metering.trans [OF r metering.trans [OF f l]] r
    by (simp add: Publish_calls_def Publish_def Let_def)
qed

lemma promoteStep_metered: "metered_locked b (promoteStep_calls s b k) (snd (snd (promoteStep s b k)))"
  by (auto simp: promoteStep_def promoteStep_calls_def Let_def sendPublish_metered split: prod.split sum.split option.split list.split)

lemma promoteQueued_metered: "metered_locked b (promoteQueued_calls s b k) (snd (promoteQueued s b k))"
proof (induction s b k rule: promoteQueued.induct)
  case (1 s b k)
  obtain c s' b' where st: "promoteStep s b k = (c, s', b')" by (metis prod_cases3)
  have m: "metered_locked b (promoteStep_calls s b k) b'" using promoteStep_metered [of b s k] st by simp
  show ?case
  proof (cases c)
    case True
    with "1.IH" [OF st [symmetric]] have "metered_locked b' (promoteQueued_calls s' b' k) (snd (promoteQueued s' b' k))" by simp
    from locked.trans [OF m this] show ?thesis using st True
      by (simp add: promoteQueued.simps [of s b k] promoteQueued_calls.simps [of s b k])
  next
    case False
    with m st show ?thesis by (simp add: promoteQueued.simps [of s b k] promoteQueued_calls.simps [of s b k])
  qed
qed

lemma Acknowledge_metered: "metered b (Acknowledge_calls b c p) (snd (Acknowledge b c p))"
proof (cases "NewPacketID p")
  case (Inl e)
  then show ?thesis by (simp add: Acknowledge_calls_def Acknowledge_def)
next
  case (Inr packetID)
  let ?k = "sinkFor b c"
  let ?calls = "\<lambda>s. case session_Acknowledge s packetID of (Inl err, s') \<Rightarrow> []
    | (Inr m, s') \<Rightarrow> if ?k \<noteq> None then promoteQueued_calls s' b ?k else []"
  let ?fn = "\<lambda>s b. case session_Acknowledge s packetID of (Inl err, s') \<Rightarrow> (Some err, s', b)
    | (Inr m, s') \<Rightarrow> if ?k \<noteq> None then (case promoteQueued s' b ?k of (s', b) \<Rightarrow> (None, s', b)) else (None, s', b)"
  have "metered_locked b (?calls s) (snd (snd (?fn s b)))" for s
    using promoteQueued_metered [of b _ ?k] by (auto simp: split_beta split: sum.split)
  from updateSession_metered [of b c ?calls ?fn, OF this] Inr show ?thesis
    by (simp add: Acknowledge_calls_def Acknowledge_def Let_def)
qed

lemma deliverRetainedTo_metered:
  "metered_locked b (deliverRetainedTo_calls k m q s b) (snd (snd (deliverRetainedTo k m q s b)))"
  by (auto simp: deliverRetainedTo_def deliverRetainedTo_calls_def Let_def sendPublish_metered split: prod.split sum.split option.split)

lemma deliverRetainedOne_metered: "metered b (deliverRetainedOne_calls k c q b m) (deliverRetainedOne k c q b m)"
  using sendPublish_metered [of b "Some k"]
    updateSession_metered [of b c "\<lambda>s. deliverRetainedTo_calls k (AsRetainedDelivery m) (Downgrade (m_qos m) q) s b"
      "deliverRetainedTo k (AsRetainedDelivery m) (Downgrade (m_qos m) q)", OF deliverRetainedTo_metered]
  by (simp add: deliverRetainedOne_def deliverRetainedOne_calls_def Let_def metered_locked_def)

lemma DeliverRetained_metered: "metered b (DeliverRetained_calls b k f q) (DeliverRetained b k f q)"
  unfolding DeliverRetained_calls_def DeliverRetained_def Let_def
  by (rule metering.fold_rule [where p = "\<lambda>b. b"]) (rule deliverRetainedOne_metered)

lemma retransmit_metered: "metered_locked (snd sb) (retransmit_calls k sb m) (snd (retransmit k now sb m))"
  using sendPublish_metered [of "snd sb" k "AsRedelivery (im_Message m)"]
  by (simp add: retransmit_def retransmit_calls_def metered_locked_def metered_def)

lemma retransmits_metered:
  "metered_locked (snd sb) (trace_fold (retransmit k now) (retransmit_calls k) sb ms) (snd (foldl (retransmit k now) sb ms))"
  by (rule locked.fold_rule [where p = snd]) (rule retransmit_metered)

lemma resumeLoop_metered: "metered_locked b (resumeLoop_calls n s b k) (snd (resumeLoop n s b k))"
proof (induction n s b k rule: resumeLoop.induct)
  case (1 n s b k)
  obtain s' b' where p: "promoteQueued s b k = (s', b')" by force
  have m: "metered_locked b (promoteQueued_calls s b k) b'" using promoteQueued_metered [of b s k] p by simp
  show ?case
  proof (cases "HasInflightCapacity s \<and> n < cf_ResumeBatchSize (b_cfg b) \<and> QueuedCount s' \<noteq> QueuedCount s")
    case True
    with "1.IH" [OF _ refl p [symmetric]] 
    have "metered_locked b' (resumeLoop_calls (n + int (QueuedCount s) - int (QueuedCount s')) s' b' k)
       (snd (resumeLoop (n + int (QueuedCount s) - int (QueuedCount s')) s' b' k))" by simp
    from locked.trans [OF m this] show ?thesis using p True
      by (simp add: resumeLoop.simps [of n s b k] resumeLoop_calls.simps [of n s b k])
  next
    case False
    with m p show ?thesis by (auto simp: resumeLoop.simps [of n s b k] resumeLoop_calls.simps [of n s b k])
  qed
qed

lemma ResumeSession_metered: "metered b (ResumeSession_calls b k) (snd (ResumeSession b k))"
  unfolding ResumeSession_calls_def ResumeSession_def Let_def
proof (rule updateSession_metered)
  fix s
  let ?f = "foldl (retransmit (Some k) (b_now b)) (s, b) (InflightMessages s)"
  show "metered_locked b
          (case ?f of (session', b') \<Rightarrow>
             trace_fold (retransmit (Some k) (b_now b)) (retransmit_calls (Some k)) (s, b) (InflightMessages s)
             @ resumeLoop_calls 0 session' b' (Some k))
          (snd (snd (case ?f of (session, b) \<Rightarrow> case resumeLoop 0 session b (Some k) of (session, b) \<Rightarrow> (None, session, b))))"
    using locked.trans [OF retransmits_metered [of "(s, b)" "Some k" "b_now b" "InflightMessages s"] resumeLoop_metered]
    by (simp add: split_beta)
qed

lemma retransmitExpiredFor_metered:
  "metered (fst bt) (retransmitExpiredFor_calls timeout bt s) (fst (retransmitExpiredFor timeout bt s))"
proof (cases "sinkFor (fst bt) (se_clientID s)")
  case None
  then show ?thesis by (simp add: retransmitExpiredFor_calls_def retransmitExpiredFor_def split_beta Let_def)
next
  case (Some k)
  let ?b = "fst bt"
  let ?ms = "\<lambda>sess. ExpiredInflight sess (b_now ?b) timeout"
  have "metered ?b (case session_Get (b_sessions ?b) (se_clientID s) of None \<Rightarrow> []
      | Some sess \<Rightarrow> trace_fold (retransmit (Some k) (b_now ?b)) (retransmit_calls (Some k)) (sess, ?b) (?ms sess))
     (snd (updateSession ?b (se_clientID s) (\<lambda>sess b.
        case foldl (retransmit (Some k) (b_now b)) (sess, b) (ExpiredInflight sess (b_now b) timeout) of
          (sess, b) \<Rightarrow> (None, sess, b))))"
    by (rule updateSession_metered)
      (use retransmits_metered [of "(_, ?b)" "Some k" "b_now ?b"] in \<open>auto simp: split_beta\<close>)
  then show ?thesis using Some
    by (cases "mget (b_sessions ?b) (se_clientID s)")
      (auto simp: retransmitExpiredFor_calls_def retransmitExpiredFor_def split_beta Let_def session_Get_def)
qed

lemma RetransmitExpired_metered: "metered b (RetransmitExpired_calls b timeout) (fst (RetransmitExpired b timeout))"
  unfolding RetransmitExpired_calls_def RetransmitExpired_def
  using metering.fold_rule [where p = fst, OF retransmitExpiredFor_metered, of "(b, 0)"] by simp

text \<open>The periodic retransmission returns the number of retransmissions that it has recorded.\<close>

lemma RetransmitExpired_counted:
  "counter_total ''retransmissions_total'' (RetransmitExpired_calls b timeout) = snd (RetransmitExpired b timeout)"
proof -
  have send: "counter_total ''retransmissions_total'' (sendPublish_calls b k m) = 0" for b k m
    by (simp add: sendPublish_calls_def split: option.split prod.split)
  have one: "counter_total ''retransmissions_total'' (trace_fold (retransmit k now) (retransmit_calls k) sb ms) = length ms" for k now sb ms
    by (induction ms arbitrary: sb) (simp_all add: retransmit_calls_def send)
  have "snd (retransmitExpiredFor timeout bt s) =
      snd bt + counter_total ''retransmissions_total'' (retransmitExpiredFor_calls timeout bt s)" for bt s
    by (auto simp: retransmitExpiredFor_def retransmitExpiredFor_calls_def Let_def split_beta one session_Get_def split: option.split)
  then have "snd (foldl (retransmitExpiredFor timeout) bt ss) = snd bt + counter_total ''retransmissions_total''
      (trace_fold (retransmitExpiredFor timeout) (retransmitExpiredFor_calls timeout) bt ss)" for bt ss
    by (induction ss arbitrary: bt) simp_all
  then show ?thesis by (simp add: RetransmitExpired_def RetransmitExpired_calls_def)
qed

subsection \<open>The subscription and the connection service\<close>

text \<open>The loops of SUBSCRIBE and UNSUBSCRIBE change only the index.\<close>

definition reindexed :: "broker \<Rightarrow> broker \<Rightarrow> bool" where
  "reindexed b b' \<longleftrightarrow> (\<exists>i. b' = b\<lparr>b_index := i\<rparr>)"

lemma reindexed_refl [simp]: "reindexed b b"
  by (auto simp: reindexed_def intro: exI [of _ "b_index b"])

lemma reindexed_update [simp]: "reindexed b b' \<Longrightarrow> reindexed b (b'\<lparr>b_index := i\<rparr>)"
  by (auto simp: reindexed_def)

lemma reindexed_fields:
  assumes "reindexed b b'"
  shows "b_sessions b' = b_sessions b" "b_published b' = b_published b" "b_delivered b' = b_delivered b"
    "b_dropped b' = b_dropped b" "b_registry b' = b_registry b" "b_retained b' = b_retained b"
  using assms by (auto simp: reindexed_def)

lemma reindexed_metered: "reindexed b b' \<Longrightarrow> metered_locked b [] b'"
  by (simp add: metered_locked_def metered_def reindexed_fields)

lemma subscribe_loop_reindexed:
  "reindexed b (fst (snd st)) \<Longrightarrow> reindexed b (fst (snd (foldl (subscribeOne c now) st rs)))"
proof (induction rs arbitrary: st)
  case (Cons r rs)
  have "reindexed b (fst (snd (subscribeOne c now st r)))"
    using Cons.prems by (auto simp: subscribeOne_def split: prod.split sum.split)
  with Cons.IH show ?case by simp
qed simp

lemma unsubscribe_loop_reindexed:
  "reindexed b (snd st) \<Longrightarrow> reindexed b (snd (foldl (unsubscribeOne c) st rs))"
proof (induction rs arbitrary: st)
  case (Cons r rs)
  have "reindexed b (snd (unsubscribeOne c st r))"
    using Cons.prems by (auto simp: unsubscribeOne_def split: prod.split sum.split)
  with Cons.IH show ?case by simp
qed simp

lemma Subscribe_metered: "metered b (Subscribe_calls b client req k) (snd (Subscribe b client req k))"
proof -
  let ?fn = "\<lambda>session x. (None, foldl (subscribeOne (cl_id client) (b_now b)) (session, x) (s_Subscriptions req))"
  obtain err ss b1 codes registered where
    u: "Update (b_sessions b) (cl_id client) ?fn (b, [], []) = (err, ss, b1, codes, registered)"
    by (metis prod_cases5)
  have "length ss = length (b_sessions b)" using length_Update [of "b_sessions b" "cl_id client" ?fn "(b, [], [])"] u by simp
  moreover have "reindexed b (fst (snd (foldl (subscribeOne (cl_id client) (b_now b)) (s, b, [], []) (s_Subscriptions req))))" for s
    by (rule subscribe_loop_reindexed) simp
  from this u have "reindexed b b1"
    by (cases "mget (b_sessions b) (cl_id client)") (auto simp: Update_def split: prod.splits, metis fst_conv snd_conv)
  ultimately have start: "metered b [] (b1\<lparr>b_sessions := ss\<rparr>)" by (simp add: metered_def session_Count_def reindexed_fields)
  have loop: "metered b' (trace_fold (\<lambda>b (f, q). DeliverRetained b k f q) (\<lambda>b (f, q). DeliverRetained_calls b k f q) b' rs)
      (foldl (\<lambda>b (f, q). DeliverRetained b k f q) b' rs)" for b' rs
    by (rule metering.fold_rule [where p = "\<lambda>b. b"]) (simp add: split_beta DeliverRetained_metered)
  have final: "metered b' [SetSubscriptionCount n] b'" for b' n by (simp add: metered_def)
  show ?thesis
    using metering.trans [OF start metering.trans [OF loop final]] start
    by (simp add: Subscribe_calls_def Subscribe_def u Let_def split: option.split)
qed

lemma Unsubscribe_metered: "metered b (Unsubscribe_calls b client req) (snd (Unsubscribe b client req))"
proof -
  let ?fn = "\<lambda>s b. case foldl (unsubscribeOne (cl_id client)) (s, b) (u_Filters req) of (s, b) \<Rightarrow> (None, s, b)"
  have "metered_locked b [] (snd (snd (?fn s b)))" for s
    using unsubscribe_loop_reindexed [of b "(s, b)"] by (simp add: split_beta reindexed_metered)
  from updateSession_metered [of b "cl_id client" "\<lambda>s. []" ?fn, OF this]
  have "metered b [] (snd (Unsubscribe b client req))" by (simp add: Unsubscribe_def Let_def split: option.splits)
  then show ?thesis by (auto simp: Unsubscribe_calls_def metered_def split: prod.split option.split)
qed

lemma resolveSession_counters:
  "b_published (snd (resolveSession b c clean now)) = b_published b"
  "b_delivered (snd (resolveSession b c clean now)) = b_delivered b"
  "b_dropped (snd (resolveSession b c clean now)) = b_dropped b"
  "b_retained (snd (resolveSession b c clean now)) = b_retained b"
  by (auto simp: resolveSession_def updateSession_def Update_def Let_def split: option.split prod.split)

lemma Connect_metered:
  "metered b (Connect_calls auth newID b req addr k) (snd (Connect auth newID b req addr k))"
proof (cases "Accepted (fst (Connect auth newID b req addr k))")
  case True
  then have "\<exists>c cl. Connect auth newID b req addr k = enter b req c cl k"
    by (auto simp: Connect_checks refused_fields split: if_splits sum.splits prod.splits)
  with True Connect_recorded [of auth newID b req addr k] show ?thesis
    by (auto simp: metered_def enter_def Let_def split_beta resolveSession_counters)
next
  case False
  have "snd (Connect auth newID b req addr k) = b"
    using False by (auto simp: Connect_checks enter_accepted split: if_splits sum.splits prod.splits)
  with False Connect_recorded [of auth newID b req addr k] show ?thesis
    by (auto simp: metered_def)
qed

text \<open>What \<open>Disconnect\<close> records: the calls of the will, the reason, and the gauges if the client was still registered.\<close>

definition will_calls :: "duration \<Rightarrow> broker \<Rightarrow> client_ref \<Rightarrow> client \<Rightarrow> disconnect_reason \<Rightarrow> recorder_call list" where
  "will_calls elapsed b ref cl reason =
     (if fst (client_Disconnect cl reason) then
        (case cl_will cl of None \<Rightarrow> [] | Some w \<Rightarrow>
           Publish_calls elapsed (b\<lparr>b_clients := mput ref (snd (client_Disconnect cl reason)) (b_clients b),
             b_registry := snd (Unregister (b_registry b) (cl_id cl) ref)\<rparr>) w) else [])"

lemma Disconnect_calls_parts:
  assumes "mget (b_clients b) ref = Some cl"
  shows "Disconnect_calls elapsed b ref reason = will_calls elapsed b ref cl reason @ RecordDisconnection (reason_String reason) #
    (if fst (Unregister (b_registry b) (cl_id cl) ref) then
       [SetConnectedClients (int (registry_Count (b_registry (Disconnect b ref reason)))),
        SetSessionCount (int (session_Count (b_sessions (Disconnect b ref reason)))),
        SetSubscriptionCount (index_SubscriptionCount (b_index (Disconnect b ref reason)))] else [])"
  using assms by (auto simp: Disconnect_calls_def will_calls_def Let_def split_beta split: option.split)

lemma leave_metered:
  "metered (b\<lparr>b_registry := snd (Unregister (b_registry b) (cl_id cl) ref)\<rparr>) (will_calls elapsed b ref cl reason) (leave b ref cl reason)"
proof -
  let ?b = "b\<lparr>b_clients := mput ref (snd (client_Disconnect cl reason)) (b_clients b),
    b_registry := snd (Unregister (b_registry b) (cl_id cl) ref)\<rparr>"
  have "metered ?b (will_calls elapsed b ref cl reason) (leave b ref cl reason)"
    by (auto simp: will_calls_def leave_def publishWill_def Let_def Publish_metered split: option.split)
  then show ?thesis by (simp add: metered_def)
qed

lemma Disconnect_frame:
  assumes "mget (b_clients b) ref = Some cl"
  shows "b_published (Disconnect b ref reason) = b_published (leave b ref cl reason)"
    and "b_delivered (Disconnect b ref reason) = b_delivered (leave b ref cl reason)"
    and "b_dropped (Disconnect b ref reason) = b_dropped (leave b ref cl reason)"
    and "b_retained (Disconnect b ref reason) = b_retained (leave b ref cl reason)"
  unfolding Disconnect_leave [OF assms]
  by (simp_all add: discard_def updateSession_def Update_def split: option.split)

lemma Disconnect_metered: "metered b (Disconnect_calls elapsed b ref reason) (Disconnect b ref reason)"
proof (cases "mget (b_clients b) ref")
  case None
  then show ?thesis by (simp add: Disconnect_calls_def Disconnect_def)
next
  case (Some cl)
  have will: "metered (b\<lparr>b_registry := snd (Unregister (b_registry b) (cl_id cl) ref)\<rparr>) (will_calls elapsed b ref cl reason)
    (leave b ref cl reason)" by (rule leave_metered)
  show ?thesis
  proof (cases "fst (Unregister (b_registry b) (cl_id cl) ref)")
    case True
    with will show ?thesis
      by (simp add: metered_def Disconnect_calls_parts [OF Some] Disconnect_frame [OF Some])
  next
    case False
    then have "Disconnect b ref reason = leave b ref cl reason"
      using Some by (simp add: Disconnect_leave registry.unregister_current)
    moreover have "snd (Unregister (b_registry b) (cl_id cl) ref) = b_registry b"
      using False by (auto simp: Unregister_def split: if_splits)
    ultimately show ?thesis
      using will False by (simp add: metered_def Disconnect_calls_parts [OF Some])
  qed
qed

subsection \<open>The calls of a connection\<close>

definition handlePublish_calls :: "duration \<Rightarrow> broker \<Rightarrow> publish \<Rightarrow> recorder_call list" where
  "handlePublish_calls elapsed b p =
     (case NewQoS (p_QoS p) of
        Inl err \<Rightarrow> []
      | Inr qos \<Rightarrow>
          if \<not> IsSupported qos then []
          else
            (case NewTopicName (p_Topic p) of
               Inl err \<Rightarrow> []
             | Inr topic \<Rightarrow>
                 (case NewMessage (b_wall b)
                     \<lparr>mp_Topic = topic, mp_Payload = p_Payload p, mp_QoS = qos, mp_Retain = p_Retain p,
                      mp_DUP = p_DUP p, mp_PacketID = p_PacketID p, mp_Now = b_now b,
                      mp_MaxPayloadBytes = cf_TransportMaxPayloadBytes (b_cfg b)\<rparr> of
                    Inl err \<Rightarrow> []
                  | Inr message \<Rightarrow> Publish_calls elapsed b message)))"

definition handleAck_calls :: "broker \<Rightarrow> client \<Rightarrow> ack \<Rightarrow> recorder_call list" where
  "handleAck_calls b client p =
     (if ack_packetType p = PUBACK then Acknowledge_calls b (cl_id client) (ack_PacketID p) else [])"

definition dispatch_calls :: "duration \<Rightarrow> broker \<Rightarrow> conn_ref \<Rightarrow> packet \<Rightarrow> recorder_call list" where
  "dispatch_calls elapsed b k p =
     (case Option.bind (currentClient b k) (mget (b_clients b)) of
        None \<Rightarrow> []
      | Some client \<Rightarrow>
          (case p of
             PPublish pkt \<Rightarrow> handlePublish_calls elapsed b pkt
           | PSubscribe pkt \<Rightarrow> Subscribe_calls b client pkt k
           | PUnsubscribe pkt \<Rightarrow> Unsubscribe_calls b client pkt
           | PAck pkt \<Rightarrow> handleAck_calls b client pkt
           | _ \<Rightarrow> []))"

definition onPacket_calls :: "duration \<Rightarrow> broker \<Rightarrow> conn_ref \<Rightarrow> packet \<Rightarrow> recorder_call list" where
  "onPacket_calls elapsed b k p =
     RecordPacketReceived (ptype_String (packet_Type p)) 0 # dispatch_calls elapsed (recordActivity b k) k p"

definition handleConnect_calls :: "authenticator \<Rightarrow> string \<Rightarrow> broker \<Rightarrow> conn_ref \<Rightarrow> connect \<Rightarrow> recorder_call list" where
  "handleConnect_calls auth newID b k req =
     (case conn_of b k of
        None \<Rightarrow> []
      | Some c0 \<Rightarrow>
          let connecting = Connect_calls auth newID b req (cn_remoteAddr c0) k;
              (result, b) = Connect auth newID b req (cn_remoteAddr c0) k;
              connack = \<lparr>ca_SessionPresent = cr_SessionPresent result, ca_ReturnCode = cr_ReturnCode result\<rparr>
          in (case conn_of b k of
                None \<Rightarrow> connecting
              | Some c \<Rightarrow>
                  let (ok, c) = writePacketNow c (PConnack connack) in
                  if \<not> ok \<or> \<not> Accepted result then connecting
                  else
                    let client = Option.bind (cr_Client result) (mget (b_clients b));
                        c = c\<lparr>cn_client := cr_Client result,
                              cn_clientID := (case client of None \<Rightarrow> '''' | Some cl \<Rightarrow> cl_id cl)\<rparr>;
                        b = setConn b k c;
                        b = (case cr_Displaced result of
                               None \<Rightarrow> b | Some d \<Rightarrow> closeConn b d ReasonSessionTakenOver)
                    in connecting @ (if cr_SessionPresent result then ResumeSession_calls b k else [])))"

definition awaitConnect_calls ::
  "authenticator \<Rightarrow> string \<Rightarrow> broker \<Rightarrow> conn_ref \<Rightarrow> codec_error + packet \<Rightarrow> recorder_call list" where
  "awaitConnect_calls auth newID b k r =
     (case r of Inr (PConnect req) \<Rightarrow> handleConnect_calls auth newID b k req | _ \<Rightarrow> [])"

definition teardown_calls :: "duration \<Rightarrow> broker \<Rightarrow> conn_ref \<Rightarrow> recorder_call list" where
  "teardown_calls elapsed b k =
     (case conn_of b k of
        None \<Rightarrow> []
      | Some c \<Rightarrow>
          (case cn_client c of
             None \<Rightarrow> []
           | Some ref \<Rightarrow>
               (case mget (b_clients b) ref of
                  None \<Rightarrow> []
                | Some client \<Rightarrow>
                    Disconnect_calls elapsed (UnregisterSink b (cl_id client) k) ref (conn_reason c))))"

text \<open>The writer records a packet that it has written, except while it drains the queue of a closed connection.\<close>

definition writeConn_calls :: "broker \<Rightarrow> conn_ref \<Rightarrow> recorder_call list" where
  "writeConn_calls b k =
     (case conn_of b k of
        None \<Rightarrow> []
      | Some c \<Rightarrow>
          if cn_done c then []
          else case cn_outbound c of
            [] \<Rightarrow> []
          | p # ps \<Rightarrow>
              if \<not> fst (writePacket (c\<lparr>cn_outbound := ps\<rparr>) p) then []
              else [RecordPacketSent (ptype_String (packet_Type p)) 0])"

subsection \<open>Runs with their calls\<close>

text \<open>The steps of \<open>Transport\<close>, each with its calls. The listener also refuses connections over its limit, and the
  gauges are sampled; neither changes the state of the broker.\<close>

inductive traced_conn_step :: "authenticator \<Rightarrow> world \<Rightarrow> recorder_call list \<Rightarrow> world \<Rightarrow> bool" for auth where
  first: "mget (w_phase w) k = Some Awaiting \<Longrightarrow>
    traced_conn_step auth w (awaitConnect_calls auth newID (w_broker w) k r)
      (runPhase w k (awaitConnect auth newID (w_broker w) k r))"
| packet: "mget (w_phase w) k = Some Reading \<Longrightarrow>
    traced_conn_step auth w (onPacket_calls elapsed (w_broker w) k p) (runPhase w k (onPacket (w_broker w) k p))"
| read_error: "mget (w_phase w) k = Some Reading \<Longrightarrow>
    traced_conn_step auth w [] (runPhase w k (False, handleReadError (w_broker w) k err timeout))"
| read_done: "mget (w_phase w) k = Some Reading \<Longrightarrow> conn_of (w_broker w) k = Some c \<Longrightarrow> cn_done c \<Longrightarrow>
    traced_conn_step auth w [] (runPhase w k (False, w_broker w))"
| keep_alive: "mget (w_phase w) k = Some Reading \<Longrightarrow>
    traced_conn_step auth w [] (w\<lparr>w_broker := keepAliveTick (w_broker w) k\<rparr>)"
| write_packet: "traced_conn_step auth w (writeConn_calls (w_broker w) k) (w\<lparr>w_broker := writeConn (w_broker w) k\<rparr>)"
| break_socket: "traced_conn_step auth w [] (w\<lparr>w_broker := breakSocket (w_broker w) k\<rparr>)"
| tear_down: "mget (w_phase w) k = Some Stopped \<Longrightarrow> conn_of (w_broker w) k = Some c \<Longrightarrow>
    traced_conn_step auth w (teardown_calls elapsed (closeConn (w_broker w) k (conn_reason c)) k)
      (w\<lparr>w_broker := teardown (closeConn (w_broker w) k (conn_reason c)) k, w_phase := mput k TornDown (w_phase w)\<rparr>)"
| tick: "d \<ge> 0 \<Longrightarrow> traced_conn_step auth w [] (w\<lparr>w_broker := (w_broker w)\<lparr>b_now := b_now (w_broker w) + d\<rparr>\<rparr>)"

inductive traced_step :: "authenticator \<Rightarrow> world \<Rightarrow> recorder_call list \<Rightarrow> world \<Rightarrow> bool" for auth where
  accept: "traced_step auth w [] (acceptConn w qsize addr)"
| connection: "traced_conn_step auth w calls w' \<Longrightarrow> traced_step auth w calls w'"
| close_all: "traced_step auth w [] (w\<lparr>w_broker := closeConn (w_broker w) k ReasonServerShutdown\<rparr>)"
| resend: "traced_step auth w (RetransmitExpired_calls (w_broker w) timeout)
    (w\<lparr>w_broker := fst (RetransmitExpired (w_broker w) timeout)\<rparr>)"
| refuse: "traced_step auth w [RecordConnectionRejected ''connection_limit''] w"
| sample: "traced_step auth w (sampleGauges (w_broker w)) w"

text \<open>A run of the broker with everything it has recorded so far.\<close>

inductive traced :: "authenticator \<Rightarrow> config \<Rightarrow> recorder_call list \<Rightarrow> world \<Rightarrow> bool" for auth cfg where
  init: "traced auth cfg [] \<lparr>w_broker = NewBroker cfg now wall, w_phase = []\<rparr>"
| move: "traced auth cfg log w \<Longrightarrow> traced_step auth w calls w' \<Longrightarrow> traced auth cfg (log @ calls) w'"

text \<open>Erasing the calls gives exactly the steps and runs of the broker.\<close>

lemma traced_conn_step_erase: "traced_conn_step auth w calls w' \<Longrightarrow> conn_step auth w w'"
  by (induction rule: traced_conn_step.induct) (rule conn_step.intros; assumption)+

lemma conn_step_traced: "conn_step auth w w' \<Longrightarrow> \<exists>calls. traced_conn_step auth w calls w'"
  by (induction rule: conn_step.induct) (rule exI, rule traced_conn_step.intros; assumption)+

lemma step_refl: "step auth w w"
  using step.connection [OF conn_step.tick [of 0]] by simp

lemma traced_step_erase: "traced_step auth w calls w' \<Longrightarrow> step auth w w'"
  by (induction rule: traced_step.induct) (auto intro: step.intros step_refl traced_conn_step_erase)

lemma step_traced: "step auth w w' \<Longrightarrow> \<exists>calls. traced_step auth w calls w'"
  by (induction rule: step.induct) (blast intro: traced_step.intros dest: conn_step_traced)+

lemma traced_erase: "traced auth cfg log w \<Longrightarrow> reachable auth cfg w"
  by (induction rule: traced.induct) (auto intro: reachable.intros traced_step_erase)

lemma reachable_traced: "reachable auth cfg w \<Longrightarrow> \<exists>log. traced auth cfg log w"
  by (induction rule: reachable.induct) (blast intro: traced.intros dest: step_traced)+

subsection \<open>Every action is metered\<close>

definition unmetered :: "broker \<Rightarrow> broker \<Rightarrow> bool" where
  "unmetered b b' \<longleftrightarrow> b_published b' = b_published b \<and> b_delivered b' = b_delivered b \<and> b_dropped b' = b_dropped b
     \<and> b_registry b' = b_registry b \<and> b_sessions b' = b_sessions b \<and> b_retained b' = b_retained b"

lemma metered_after: "metered b calls b' \<Longrightarrow> unmetered b' b'' \<Longrightarrow> metered b calls b''"
  and metered_before: "unmetered b b' \<Longrightarrow> metered b' calls b'' \<Longrightarrow> metered b calls b''"
  by (simp_all add: metered_def unmetered_def)

lemma unmetered_simps [simp]:
  "unmetered b b" "unmetered b (setConn b' k c) = unmetered b b'" "unmetered b (closeConn b' k reason) = unmetered b b'"
  "unmetered b (breakSocket b' k) = unmetered b b'" "unmetered b (writeConn b' k) = unmetered b b'"
  "unmetered b (recordActivity b' k) = unmetered b b'" "unmetered b (keepAliveTick b' k) = unmetered b b'"
  "unmetered b (handleReadError b' k err timeout) = unmetered b b'" "unmetered b (UnregisterSink b' cid k) = unmetered b b'"
  "unmetered b (snd (send b' k p)) = unmetered b b'" "unmetered b (b'\<lparr>b_now := t\<rparr>) = unmetered b b'"
  by (auto simp: unmetered_def setConn_def closeConn_def breakSocket_def writeConn_def recordActivity_def keepAliveTick_def
      handleReadError_def UnregisterSink_def sink_Send_def send_def split: option.split prod.split)

lemma handleConnect_metered:
  "metered b (handleConnect_calls auth newID b k req) (snd (handleConnect auth newID b k req))"
proof (cases "conn_of b k")
  case None
  then show ?thesis by (simp add: handleConnect_calls_def handleConnect_def)
next
  case (Some c0)
  obtain result b1 where co: "Connect auth newID b req (cn_remoteAddr c0) k = (result, b1)" by force
  have m: "metered b (Connect_calls auth newID b req (cn_remoteAddr c0) k) b1"
    using Connect_metered [of b auth newID req "cn_remoteAddr c0" k] co by simp
  have r: "unmetered b1 b2 \<Longrightarrow> metered b (Connect_calls auth newID b req (cn_remoteAddr c0) k @ ResumeSession_calls b2 k)
      (snd (ResumeSession b2 k))" for b2
    by (rule metering.trans [OF metered_after [OF m] ResumeSession_metered])
  show ?thesis
    using Some co
    by (auto simp: handleConnect_calls_def handleConnect_def Let_def
        intro!: m metered_after [OF m] r split: option.split prod.split)
qed


lemma awaitConnect_metered: "metered b (awaitConnect_calls auth newID b k r) (snd (awaitConnect auth newID b k r))"
  by (auto simp: awaitConnect_calls_def awaitConnect_def handleConnect_metered intro: metered_after [OF metering.refl]
      split: sum.split packet.split)

lemma handlePublish_metered: "metered b (handlePublish_calls elapsed b p) (snd (handlePublish b k p))"
  by (auto simp: handlePublish_calls_def handlePublish_def Let_def Publish_metered intro: metered_after [OF Publish_metered]
      split: sum.split)

lemma handleSubscribe_metered: "metered b (Subscribe_calls b client p k) (snd (handleSubscribe b k client p))"
  using Subscribe_metered [of b client p k]
  by (auto simp: handleSubscribe_def intro: metered_after split: prod.split sum.split)

lemma handleUnsubscribe_metered: "metered b (Unsubscribe_calls b client p) (snd (handleUnsubscribe b k client p))"
  using Unsubscribe_metered [of b client p]
  by (auto simp: handleUnsubscribe_def intro: metered_after split: prod.split option.split)

lemma handleAck_metered: "metered b (handleAck_calls b client p) (snd (handleAck b client p))"
  by (simp add: handleAck_calls_def handleAck_def Acknowledge_metered)

lemma handleSimple_metered: "metered b [] (snd (handleSimple b k p))"
  by (simp add: handleSimple_def metered_after [OF metering.refl])

lemma dispatch_metered: "metered b (dispatch_calls elapsed b k p) (snd (dispatch b k p))"
  by (auto simp: dispatch_calls_def dispatch_def handlePublish_metered handleSubscribe_metered handleUnsubscribe_metered
      handleAck_metered handleSimple_metered split: option.split packet.split)

lemma onPacket_metered: "metered b (onPacket_calls elapsed b k p) (snd (onPacket b k p))"
proof -
  have "metered b [RecordPacketReceived t 0] (recordActivity b k)" for t
    by (rule metered_after [where b' = b]) (simp_all add: metered_def)
  from metering.trans [OF this dispatch_metered]
  have "metered b (onPacket_calls elapsed b k p) (snd (dispatch (recordActivity b k) k p))" by (simp add: onPacket_calls_def)
  then show ?thesis by (auto simp: onPacket_def Let_def intro: metered_after split: prod.split option.split)
qed

lemma teardown_metered: "metered b (teardown_calls elapsed b k) (teardown b k)"
  by (auto simp: teardown_calls_def teardown_def Let_def intro: metered_before [OF _ Disconnect_metered] split: option.split)

lemma writeConn_metered: "metered b (writeConn_calls b k) (writeConn b k)"
proof -
  have "metered b (writeConn_calls b k) b" by (simp add: writeConn_calls_def metered_def split: option.split list.split)
  then show ?thesis by (rule metered_after) simp
qed

lemma traced_conn_step_metered: "traced_conn_step auth w calls w' \<Longrightarrow> metered (w_broker w) calls (w_broker w')"
proof (induction rule: traced_conn_step.induct)
  case (tear_down w k c elapsed)
  show ?case using metered_before [OF _ teardown_metered, of "w_broker w"] by simp
qed (simp_all add: runPhase_def awaitConnect_metered onPacket_metered writeConn_metered metered_after [OF metering.refl])

lemma traced_step_metered: "traced_step auth w calls w' \<Longrightarrow> metered (w_broker w) calls (w_broker w')"
proof (induction rule: traced_step.induct)
  case (sample w)
  show ?case by (simp add: sampleGauges_def metered_def Let_def)
next
  case (refuse w)
  show ?case by (simp add: metered_def)
qed (simp_all add: acceptConn_def traced_conn_step_metered RetransmitExpired_metered Let_def metered_after [OF metering.refl])

lemma traced_metered:
  "traced auth cfg log w \<Longrightarrow> \<exists>now wall. metered (NewBroker cfg now wall) log (w_broker w)"
proof (induction rule: traced.induct)
  case (init now wall)
  show ?case by (auto intro: metering.refl)
next
  case (move log w calls w')
  then show ?case using metering.trans [OF _ traced_step_metered] by blast
qed

subsection \<open>The metrics of every run\<close>


text \<open>A client connects and publishes a retained message.\<close>

definition observed_run :: world where
  "observed_run = runPhase sample_run 0 (onPacket (w_broker sample_run) 0 (PPublish (valid_publish\<lparr>p_Retain := True\<rparr>)))"

definition observed_log :: "recorder_call list" where
  "observed_log =
     awaitConnect_calls AllowAll_Authenticate ''x'' (w_broker (acceptConn sample_world 4 ''addr'')) 0 (Inr (PConnect sample_connect))
     @ onPacket_calls 7 (w_broker sample_run) 0 (PPublish (valid_publish\<lparr>p_Retain := True\<rparr>))"

lemma observed_traced: "traced AllowAll_Authenticate sample_config observed_log observed_run"
proof -
  have "traced AllowAll_Authenticate sample_config [] sample_world"
    unfolding sample_world_def by (rule traced.init)
  from traced.move [OF this traced_step.accept]
  have "traced AllowAll_Authenticate sample_config [] (acceptConn sample_world 4 ''addr'')" by simp
  from traced.move [OF this traced_step.connection [OF traced_conn_step.first [OF sample_accepted_phase]]]
  have run: "traced AllowAll_Authenticate sample_config (awaitConnect_calls AllowAll_Authenticate ''x''
      (w_broker (acceptConn sample_world 4 ''addr'')) 0 (Inr (PConnect sample_connect))) sample_run"
    by (simp add: sample_run_def Let_def)
  have "mget (w_phase sample_run) 0 = Some Reading" by code_simp
  from traced.move [OF run traced_step.connection [OF traced_conn_step.packet [OF this]]]
  show ?thesis by (simp add: observed_run_def observed_log_def)
qed

lemma observed_log_value:
  "observed_log = [RecordConnection, SetConnectedClients 1, SetSessionCount 1, RecordPacketReceived ''PUBLISH'' 0,
     RecordMessagePublished 1 1, SetRetainedCount 1]"
proof -
  let ?b = "recordActivity (w_broker sample_run) 0"
  have connect: "awaitConnect_calls AllowAll_Authenticate ''x'' (w_broker (acceptConn sample_world 4 ''addr'')) 0
      (Inr (PConnect sample_connect)) = [RecordConnection, SetConnectedClients 1, SetSessionCount 1]"
    by code_simp
  have "Option.bind (currentClient ?b 0) (mget (b_clients ?b)) \<noteq> None" by code_simp
  moreover have "b_retained ?b = [] \<and> cf_TransportMaxPayloadBytes (b_cfg ?b) = 100 \<and> Match (b_index ?b) ''q/r'' = []"
    by code_simp
  ultimately have "dispatch_calls 7 ?b 0 (PPublish (valid_publish\<lparr>p_Retain := True\<rparr>)) =
      [RecordMessagePublished 1 1, SetRetainedCount 1]"
    by (auto simp: dispatch_calls_def handlePublish_calls_def valid_publish_def NewQoS_def IsSupported_def NewTopicName_sample
        NewMessage_def Publish_calls_def applyRetention_calls_def applyRetention_def ClearsRetained_def IsEmpty_def retained_Count_def
        Store_def PayloadSize_def Let_def)
  with connect show ?thesis by (simp add: observed_log_def onPacket_calls_def ptype_String_def)
qed


text \<open>The byte counters never move: the connection reports every packet with a length of 0.\<close>

lemma bytes_never_counted:
  assumes "traced auth cfg log w"
  shows "byte_total log = 0"
  using traced_metered [OF assms] by (auto simp: metered_def)

end
