(* ===== verification/Spec2Isabelle.thy ===== *)
theory Spec2Isabelle
  imports Server Load_Generator Observability
begin

text \<open>
  GoMQTT is an MQTT 3.1.1 broker in Go. This development models the broker, its configuration, its inspection API, its
  metrics, the process around them, its client library and the load generator, and proves what they promise. This theory imports all the others and holds what spans them.

  \<^bold>\<open>The program.\<close> A TCP listener (\<open>pkg/infrastructure/transport/listener.go\<close>) accepts sockets and runs one
  \<open>Connection\<close> (\<open>connection.go\<close>) for each: a reader goroutine decodes packets and dispatches them to handlers, a writer goroutine
  drains a bounded queue. The handlers call three services, for connections, subscriptions and
  publishing (\<open>pkg/application\<close>), which work on aggregates (\<open>pkg/domain\<close>: client, session, message, subscription) kept in
  in-memory stores and on the topic trie (\<open>pkg/infrastructure/persistence/memory\<close>). The publishing service routes a message to the
  matching sessions and sends it through the sinks, which are the connections. The client library (\<open>pkg/client\<close>) is the other
  end of the same codec (\<open>pkg/infrastructure/mqtt/packet\<close>), and the load generator (\<open>cmd/loadgen\<close>) runs many of them against a broker.
  The process (\<open>cmd/main.go\<close>, \<open>cmd/server\<close>) loads the configuration, wires the object graph (\<open>pkg/di\<close>), starts the listener, the
  retransmission loop and the admin HTTP server (\<open>pkg/api\<close>), and stops them in order.

  \<^bold>\<open>The theories\<close>, in the order of the import graph.

  \<^item> \<open>Prelude\<close>: machine integers, bytes and strings, Go maps as association lists with insertion (\<open>mget\<close>, \<open>mput\<close>, \<open>mdel\<close>), instants and
    saturating differences of instants, the error monad.
  \<^item> \<open>App_Errors\<close>: \<open>pkg/common/errors\<close> and the codes of the aggregates. \<open>Topics\<close>: levels of service, topic names and filters and
    their matching. \<open>Messages\<close>: the message and subscription aggregates. \<open>Clients\<close>: the client aggregate with keep-alive and protocol
    version.
  \<^item> \<open>Codec\<close>, \<open>Packets\<close>, \<open>Packet_Stream\<close>: the wire format, from the variable-length integer and UTF-8 to all fourteen packet types, and
    the streaming reader and writer. Round trip, soundness of the decoder, agreement of the two decoders.
  \<^item> \<open>Sessions\<close>: every method of the session; limits and identifiers as an invariant, the search for a free identifier, the
    insertion sort, the offline queue as a bounded queue.
  \<^item> \<open>Subscription_Index\<close>: the trie; it is refined to the map of subscriptions, and its lookup agrees with the predicate \<open>Matches\<close>.
  \<^item> \<open>Stores\<close>: the session store, the retained store and the client registry; the locales are the ports of
    \<open>pkg/domain/persistence\<close>, interpreted on these stores.
  \<^item> \<open>Connections\<close>: a connection as a packet sink, with its writer; the locale \<open>packet_sink\<close> is the port the services use.
  \<^item> \<open>Publishing\<close>: the record \<open>broker\<close> (all shared state) and the publishing service; \<open>Delivery\<close>: its invariant \<open>broker_ok\<close> and where
    messages go. \<open>Subscribing\<close> and \<open>Connecting\<close>: the other two services.
  \<^item> \<open>Transport\<close>: the handlers, the handshake, the keep-alive check and the teardown; the relation \<open>step\<close> interleaves the goroutines of
    all connections, and every state it reaches satisfies \<open>world_ok\<close>. \<open>Serving\<close>: what the transport promises.
  \<^item> \<open>Listener\<close>: the accept loop and \<open>Stop\<close>, with the relation \<open>lstep\<close> over the steps of the connections. \<open>Settings\<close>: the configuration.
    \<open>Admin\<close>: the inspection API. \<open>Runtime_Support\<close>: identifiers, the fake clock, the fields and levels of the logger, error chains. \<open>Http_Api\<close>: handlers,
    middleware and routes; the locale \<open>http_handler\<close> is what the middleware needs of a handler.
  \<^item> \<open>Metrics\<close>: the metrics port, its collectors and the calls that the services make. \<open>Observability\<close>: the steps of the broker labelled
    with these calls; over every run the metrics agree with the counters of the broker and with its stores.
  \<^item> \<open>Server\<close>: the process, with the relation \<open>sstep\<close> over \<open>lstep\<close> for the background loops and the shutdown; it refines the listener, and
    after a clean stop nothing writes to the stores.
  \<^item> \<open>Mqtt_Client\<close>: the client library. \<open>Latency\<close> and \<open>Load_Generator\<close>: percentiles in floating-point arithmetic, and a benchmark run as a
    step relation over several clients.

  \<^bold>\<open>Correspondence.\<close> A struct is a record whose fields have a short prefix, an operation is a function of the same name (with a prefix
  where several types have a method of that name or HOL has the constant), and an error is a value. A pointer that is
  shared (a client, a connection) is a reference into a table of the record \<open>broker\<close>. An operation under a lock is one step.
  The clock is a field of the broker and stands still during an operation. The order in which Go iterates over a map is
  the order of the association list; no statement depends on it but where the code sorts.

  \<^bold>\<open>Termination and bounds.\<close> All loops of the model terminate: those that are not structural have a measure (the
  search for an identifier is bounded by the 65535 identifiers, the allocation of the client by one extra round, the sort
  and the decoding of a length by their index); the publishing loop of the load generator, which runs until it is told to stop, is a
  relation and a function of the list of its events. No definition uses fuel. 16-, 32- and 64-bit counters are words and wrap around; durations are
  integers, and the lemmas show that the products and differences stay in range or saturate as in Go. \<open>int\<close> of Go is an unbounded integer
  where it holds a size or a limit. The products of the percentile ranks are rounded to 53 bits as IEEE doubles are, and shown exact for up
  to \<open>2 ^ 44\<close> samples.

  \<^bold>\<open>Not modelled.\<close> The libraries: the router gin, the Prometheus client, slog, \<open>yaml.v3\<close> and the operating system; what the code needs of
  them is an argument (the parsed document, random bytes, errors of sockets). Flags, signals and printed reports; the
  floating-point rates of the load generator and its pacing interval; the input of the wire generator, whose output is \<open>InjectBroker\<close>; the
  doubles that discard what they are given (logger, recorder). Deadlines on sockets appear as read errors that may come at any time. The parser of YAML is a
  parameter of \<open>Load\<close>. Locks and goroutines are modelled by interleaving whole operations: a data race inside an operation is not visible.
  \<open>Close\<close> of a connection is one step, although another goroutine may act between the closing of its channel and of its socket.
\<close>

subsection \<open>A client and the broker\<close>

lemma send_None:
  assumes "send b k p = (None, b')"
  obtains cn where "b' = setConn b k cn" and "last (cn_outbound cn) = p"
  using assms by (auto simp: send_def sink_Send_def Send_def setConn_def split: option.splits if_splits)

text \<open>Claim C6. A publish at level 1 of the client library and the handler of the broker fit together: the packet that the
  client writes carries a fresh identifier; when the broker accepts it, it has routed the message and its
  last packet on the connection is an acknowledgement with the same identifier; and reading that packet makes the
  waiting call of the client return successfully.\<close>

theorem publish_end_to_end:
  assumes "waiters_ok c" and "mc_conn c" and "mc_socketOpen c" and "allocatePacketID c = (i, c1)"
    and "broker_ok b" and "conn_of b k \<noteq> None"
    and "handlePublish b k (request_packet i topic payload retain) = (None, b')"
  shows "\<exists>cn ack c'. b' = setConn (Publish b (inbound b (request_packet i topic payload retain))) k cn
    \<and> last (cn_outbound cn) = ack
    \<and> cli_Publish c topic payload 1 retain [(now, Inr ack)] WAck = Some (None, c')
    \<and> mc_written c' = mc_written c @ [PPublish (request_packet i topic payload retain)]"
proof -
  let ?p = "request_packet i topic payload retain" and ?ack = "PAck (NewPuback i)"
  have "admissible b ?p" using handlePublish_refused [of b ?p k] assms(7) by auto
  then have sent: "send (Publish b (inbound b ?p)) k ?ack = (None, b')"
    using handlePublish_accepted [of b ?p k] assms(7) by (simp add: request_packet_def)
  obtain cn where cn: "b' = setConn (Publish b (inbound b ?p)) k cn" "last (cn_outbound cn) = ?ack"
    by (rule send_None [OF sent])
  obtain ch c3 where run: "mget (mc_chans (cli_readLoop c3 [(now, Inr ?ack)])) ch = Some (first_ack i [(now, Inr ?ack)])"
      "mc_written c3 = mc_written c @ [PPublish ?p]"
      "cli_Publish c topic payload 1 retain [(now, Inr ?ack)] WAck =
        map_option (\<lambda>(r, c). (r, forget c i)) (cli_await (cli_readLoop c3 [(now, Inr ?ack)]) ch WAck)"
    by (rule cli_Publish_run [OF assms(1-4)])
  then have "\<exists>c'. cli_Publish c topic payload 1 retain [(now, Inr ?ack)] WAck = Some (None, c')
      \<and> mc_written c' = mc_written c @ [PPublish ?p]"
    by (auto simp: cli_await_def NewPuback_def forget_def)
  with cn show ?thesis by blast
qed

definition idle_broker :: broker where
  "idle_broker = (NewBroker sample_config 5 5)\<lparr>b_conns := [(0, NewConnection 4 ''addr'')]\<rparr>"

lemma idle_broker_ok: "broker_ok idle_broker"
proof -
  have "idle_broker = w_broker (acceptConn sample_world 4 ''addr'')"
    by (simp add: idle_broker_def acceptConn_def fresh_ref_empty Let_def setConn_def) (simp add: sample_world_def NewBroker_def)
  then show ?thesis using reachable_world [OF sample_accept_reachable] by (simp add: world_ok_def)
qed

lemma idle_publish:
  "\<exists>b'. handlePublish idle_broker 0 (request_packet 65535 ''q/r'' [7] False) = (None, b')"
proof -
  let ?p = "request_packet 65535 ''q/r'' [7] False"
  have adm: "admissible idle_broker ?p"
    by (simp add: admissible_def request_packet_def NewTopicName_sample idle_broker_def NewBroker_def
        publishing_withDefaults_def sample_config_def)
  have "Match NewSubscriptionIndex ''q/r'' = []" by code_simp
  then show ?thesis
    using handlePublish_accepted [OF adm, of 0]
    by (simp add: Publish_def applyRetention_def inbound_def request_packet_def idle_broker_def NewBroker_def Let_def
        send_def sink_Send_def Send_def NewConnection_def)
qed

lemma publish_end_to_end_witness:
  "\<exists>cn c'. handlePublish idle_broker 0 (request_packet 65535 ''q/r'' [7] False)
      = (None, setConn (Publish idle_broker (inbound idle_broker (request_packet 65535 ''q/r'' [7] False))) 0 cn)
    \<and> cli_Publish sample_mqtt_client ''q/r'' [7] 1 False [(3, Inr (last (cn_outbound cn)))] WAck = Some (None, c')"
proof -
  obtain c1 where a: "allocatePacketID sample_mqtt_client = (65535, c1)" using sample_allocate by blast
  obtain b' where h: "handlePublish idle_broker 0 (request_packet 65535 ''q/r'' [7] False) = (None, b')" using idle_publish by blast
  have c: "conn_of idle_broker 0 \<noteq> None" by (simp add: conn_of_def idle_broker_def)
  from publish_end_to_end [OF sample_mqtt_client_ok _ _ a idle_broker_ok c h, of 3] show ?thesis
    by (auto simp: h sample_mqtt_client_def)
qed

text \<open>Claim C5. The handshake of the client library and of the broker fit together: the first packet that the broker writes on the
  connection is the CONNACK that the waiting call of the client needs, and both ends draw the same conclusion from it. If
  the broker has accepted, the call succeeds, the connection belongs to a client with the identifier that was asked for,
  messages for it go to this connection, and session present is reported exactly if a persistent session
  was stored for it and is to be kept. If not, the call reports the code of the refusal, both sockets are closed, and
  nothing else has changed in the broker.\<close>

theorem connect_end_to_end:
  assumes "broker_ok b" and "conn_of b k = Some c0" and "cn_socketOpen c0" and "authenticator_port auth"
    and "Encode [] (PConnect (connect_packet (mc_opts mc))) = Inr bs"
    and "handleConnect auth newID b k (connect_packet (mc_opts mc)) = (connected, b')"
  shows "\<exists>cn connack err mc'. conn_of b' k = Some cn \<and> cn_written cn = cn_written c0 @ [PConnack connack]
    \<and> cli_Connect mc None (Inr (PConnack connack)) = (err, mc')
    \<and> mc_written mc' = mc_written mc @ [PConnect (connect_packet (mc_opts mc))]
    \<and> (if connected
       then err = None \<and> mc_socketOpen mc'
         \<and> (\<exists>ref cl. cn_client cn = Some ref \<and> mget (b_clients b') ref = Some cl \<and> sinkFor b' (cl_id cl) = Some k
             \<and> (co_ClientID (mc_opts mc) \<noteq> '''' \<longrightarrow> cl_id cl = co_ClientID (mc_opts mc))
             \<and> mc_SessionPresent mc' = (\<not> co_CleanSession (mc_opts mc)
                 \<and> (\<exists>s. session_Get (b_sessions b) (cl_id cl) = Some s \<and> \<not> se_clean s)))
       else \<not> mc_socketOpen mc' \<and> cn_done cn \<and> b' = setConn b k cn
         \<and> (\<exists>code. code \<noteq> ConnectAccepted \<and> err = Some (ErrConnectionRefused code)))"
proof (cases connected)
  case True
  let ?req = "connect_packet (mc_opts mc)"
  obtain r b1 ref cl cn where con: "Connect auth newID b ?req (cn_remoteAddr c0) k = (r, b1)"
    and r: "cr_Client r = Some ref" "mget (b_clients b1) ref = Some cl"
    and cn: "conn_of b' k = Some cn" "cn_client cn = Some ref" "mget (b_clients b') ref = Some cl" "sinkFor b' (cl_id cl) = Some k"
      "cn_written cn = cn_written c0 @ [PConnack \<lparr>ca_SessionPresent = cr_SessionPresent r, ca_ReturnCode = ConnectAccepted\<rparr>]"
    by (rule handleConnect_bound [OF assms(1,2) assms(6) [unfolded eqTrueI [OF True]]])
  have "cl_id cl = co_ClientID (mc_opts mc)" if "co_ClientID (mc_opts mc) \<noteq> ''''"
    using Connect_entered(1) [OF assms(1) con r] resolveClientID_own that by (fastforce simp: connect_packet_def)
  with Connect_entered(2) [OF assms(1) con r] cn assms(5) True show ?thesis
    by (intro exI [of _ cn] exI [of _ "\<lparr>ca_SessionPresent = cr_SessionPresent r, ca_ReturnCode = ConnectAccepted\<rparr>"])
      (auto simp: cli_Connect_def cli_write_def connect_packet_def)
next
  case False
  then have h: "handleConnect auth newID b k (connect_packet (mc_opts mc)) = (False, b')" using assms(6) by simp
  obtain code cn where "code \<noteq> ConnectAccepted" "b' = setConn b k cn" "cn_done cn"
      "cn_written cn = cn_written c0 @ [PConnack \<lparr>ca_SessionPresent = False, ca_ReturnCode = code\<rparr>]"
    by (rule handleConnect_refusal [OF assms(1-4) h])
  with False assms(5) show ?thesis
    by (intro exI [of _ cn] exI [of _ "\<lparr>ca_SessionPresent = False, ca_ReturnCode = code\<rparr>"])
      (auto simp: cli_Connect_def cli_write_def conn_of_def setConn_def)
qed

lemma connect_end_to_end_witness:
  "\<exists>cn connack mc'. conn_of (snd (handleConnect AllowAll_Authenticate ''x'' idle_broker 0 (connect_packet (mc_opts sample_mqtt_client)))) 0 = Some cn
    \<and> cn_written cn = [PConnack connack]
    \<and> cli_Connect sample_mqtt_client None (Inr (PConnack connack)) = (None, mc') \<and> mc_socketOpen mc' \<and> \<not> mc_SessionPresent mc'"
proof -
  let ?req = "connect_packet (mc_opts sample_mqtt_client)"
  have c: "conn_of idle_broker 0 = Some (NewConnection 4 ''addr'')" "cn_socketOpen (NewConnection 4 ''addr'')"
    "cn_written (NewConnection 4 ''addr'') = []"
    by (simp_all add: conn_of_def idle_broker_def NewConnection_def)
  have "\<not> isl (Encode [] (PConnect ?req))" by code_simp
  then obtain bs where e: "Encode [] (PConnect ?req) = Inr bs" by (cases "Encode [] (PConnect ?req)") auto
  have f: "fst (handleConnect AllowAll_Authenticate ''x'' idle_broker 0 ?req)" by code_simp
  have s: "co_CleanSession (mc_opts sample_mqtt_client)"
    by (simp add: sample_mqtt_client_def cli_New_def sample_options_def options_withDefaults_def Let_def)
  from connect_end_to_end [OF idle_broker_ok c(1,2) allow_all.authenticator_port_axioms e prod.collapse [symmetric], of "''x''"]
  show ?thesis unfolding c(3) append_Nil using f s by auto
qed

text \<open>Claim C7. A delivery at level 1, from the publisher's message to the acknowledgement of the subscriber: publishing a
  message queues one PUBLISH with its topic and payload on the connection of a subscriber that has room, under an identifier
  that was free and is now in the window of its session; the client library hands the packet to its handler once and
  writes a PUBACK with that identifier; and when the broker reads this packet, it takes the message out of the window, so that the
  slot is free for a waiting message.\<close>

theorem delivery_end_to_end:
  assumes "broker_ok b" and "session_Get (b_sessions b) c = Some s" and "se_maxInflight s \<le> 65535" and "HasInflightCapacity s"
    and "sinkFor b c = Some k" and "\<forall>c'. sinkFor b c' = Some k \<longrightarrow> c' = c" and "mget (b_conns b) k = Some cn"
    and "m_qos m \<noteq> 0" and "subscribed b c f = Some q" and "q \<noteq> 0" and "Matches f (m_topic m)"
    and "\<not> cn_done cn" and "length (cn_outbound cn) < cn_queueSize cn" and "cn_client cn = Some ref" and "cn_clientID cn = c"
    and "mc_socketOpen mc" and "co_OnMessage (mc_opts mc)"
  shows "\<exists>p b' s' s''. mget (b_conns (Publish b m)) k = Some (cn\<lparr>cn_outbound := cn_outbound cn @ [PPublish p]\<rparr>)
    \<and> p_Topic p = m_topic m \<and> p_Payload p = m_payload m \<and> p_QoS p = 1
    \<and> mget (se_inflight s) (p_PacketID p) = None
    \<and> session_Get (b_sessions (Publish b m)) c = Some s' \<and> mget (se_inflight s') (p_PacketID p) \<noteq> None
    \<and> mc_received (cli_readLoop mc [(now, Inr (PPublish p))]) = mc_received mc @ [as_message (now, p)]
    \<and> mc_written (cli_readLoop mc [(now, Inr (PPublish p))]) = mc_written mc @ [PAck (NewPuback (p_PacketID p))]
    \<and> onPacket (Publish b m) k (PAck (NewPuback (p_PacketID p))) = (True, b')
    \<and> session_Get (b_sessions b') c = Some s''
    \<and> (\<exists>ps. se_inflight s'' = se_inflight s @ promoted (b_now b) (se_queued s) ps)"
proof -
  let ?m = "AsLiveDelivery m"
  obtain p s' where p: "p \<noteq> 0" "mget (se_inflight s) p = None"
      "mget (b_conns (Publish b m)) k = Some (push cn (Some (WithQoS ?m QoSAtLeastOnce p)))"
    and s': "session_Get (b_sessions (Publish b m)) c = Some s'"
      "se_inflight s' = se_inflight s @ [sent (WithQoS ?m QoSAtLeastOnce 0) (b_now b) p]" "se_queued s' = se_queued s"
    by (rule Publish_due [OF assms(1-11)])
  define pkt where "pkt = \<lparr>p_DUP = m_dup m, p_QoS = 1, p_Retain = False, p_Topic = m_topic m, p_PacketID = p, p_Payload = m_payload m\<rparr>"
  have pkt: "publish_packet (WithQoS ?m QoSAtLeastOnce p) = PPublish pkt" by (simp add: publish_packet_def pkt_def)
  have conn: "mget (b_conns (Publish b m)) k = Some (cn\<lparr>cn_outbound := cn_outbound cn @ [PPublish pkt]\<rparr>)"
    using p(3) assms(12,13) by (simp add: push_def pkt Send_def)
  obtain cl where cl: "mget (b_clients b) ref = Some cl" "cl_id cl = c"
    using assms(1,7,14,15) unfolding broker_ok_def refs_ok_def by blast
  have cur: "currentClient (Publish b m) k = Some ref" using conn assms(14) by (simp add: currentClient_def conn_of_def)
  let ?b = "recordActivity (Publish b m) k"
  have on: "onPacket (Publish b m) k (PAck (NewPuback p)) = (True, snd (Acknowledge ?b c p))"
    using onPacket_puback [OF cur] cl by (simp add: Publish_frame)
  have ok: "session_ok s'" "traffic_ok s'" "se_maxInflight s' \<le> 65535"
    using Publish_ok [OF assms(1)] s'(1) assms(3) Publish_session_limits [OF assms(2) s'(1)]
    by (auto simp: broker_ok_def state_ok_def store_ok_iff)
  have filed: "mget (se_inflight s') p \<noteq> None" using s'(2) p(2) by (simp add: sent_def map_add_def)
  obtain s'' ps where "session_Get (b_sessions (snd (Acknowledge ?b c p))) c = Some s''"
      "se_inflight s'' = se_inflight s @ promoted (b_now b) (se_queued s) ps"
    using Acknowledge_last [of ?b c s' k, OF _ ok _ s'(2) [unfolded sent_def] p(2,1)] s'(1,3) assms(5) by (auto simp: Publish_frame)
  moreover have "mc_received (cli_readLoop mc [(now, Inr (PPublish pkt))]) = mc_received mc @ [as_message (now, pkt)]"
    "mc_written (cli_readLoop mc [(now, Inr (PPublish pkt))]) = mc_written mc @ [PAck (NewPuback p)]"
    using cli_handlePublish_effect [OF assms(16,17), of now pkt] p(1) by (simp_all add: pubacks_def pkt_def)
  ultimately show ?thesis using conn on s'(1) filed p(2)
    by (intro exI [of _ pkt] exI [of _ "snd (Acknowledge ?b c p)"] exI [of _ s'] exI [of _ s'']) (auto simp: pkt_def)
qed

definition attached_conn :: conn where
  "attached_conn = (NewConnection 4 ''addr'')\<lparr>cn_client := Some 0, cn_clientID := ''c''\<rparr>"

definition attached_broker :: broker where
  "attached_broker = sample_broker\<lparr>b_conns := [(0, attached_conn)],
     b_clients := [(0, sample_client\<lparr>cl_id := ''c''\<rparr>)], b_registry := [(''c'', 0)]\<rparr>"

lemma attached_broker_ok: "broker_ok attached_broker"
  using sample_broker_ok sample_broker_sinks
  by (auto simp: sinkFor_def attached_broker_def attached_conn_def broker_ok_def state_ok_def refs_ok_def subscribed_def NewConnection_def
      split: if_splits)

lemma attached_session:
  "session_Get (b_sessions attached_broker) (cl_id (sample_client\<lparr>cl_id := ''c''\<rparr>)) = Some (snd (session_Subscribe sample_session ''a/#'' 1 3))"
  using sample_broker_session by (simp add: attached_broker_def)

lemma delivery_end_to_end_witness:
  "\<exists>p. mget (b_conns (Publish attached_broker sample_message)) 0 = Some (attached_conn\<lparr>cn_outbound := [PPublish p]\<rparr>)
    \<and> mc_written (cli_readLoop sample_mqtt_client [(3, Inr (PPublish p))])
        = mc_written sample_mqtt_client @ [PAck (NewPuback (p_PacketID p))]"
proof -
  let ?s = "snd (session_Subscribe sample_session ''a/#'' 1 3)"
  have s: "session_Get (b_sessions attached_broker) ''c'' = Some ?s" using attached_session by simp
  have m: "se_maxInflight ?s \<le> 65535" "HasInflightCapacity ?s"
    by (simp_all add: sample_session_def session_Subscribe_def NewSession_def withDefaults_def Let_def HasInflightCapacity_def)
  have k: "sinkFor attached_broker ''c'' = Some 0" "\<forall>c'. sinkFor attached_broker c' = Some 0 \<longrightarrow> c' = ''c''"
    using sample_broker_sinks by (auto simp: attached_broker_def sinkFor_def split: if_splits)
  have cn: "mget (b_conns attached_broker) 0 = Some attached_conn" by (simp add: attached_broker_def)
  have f: "m_qos sample_message \<noteq> 0" "subscribed attached_broker ''c'' ''a/#'' = Some 1" "(1 :: qos) \<noteq> 0"
    "Matches ''a/#'' (m_topic sample_message)"
    using s by (simp_all add: sample_message_def subscribed_def sample_session_fields NewSubscription_def)  code_simp
  have c: "\<not> cn_done attached_conn" "length (cn_outbound attached_conn) < cn_queueSize attached_conn"
    "cn_client attached_conn = Some 0" "cn_clientID attached_conn = ''c''" "cn_outbound attached_conn = []"
    by (simp_all add: attached_conn_def NewConnection_def)
  have mc: "mc_socketOpen sample_mqtt_client" "co_OnMessage (mc_opts sample_mqtt_client)"
    by (simp_all add: sample_mqtt_client_def cli_New_def sample_options_def options_withDefaults_def Let_def)
  from delivery_end_to_end [OF attached_broker_ok s m k cn f c(1-4) mc, of 3] show ?thesis
    unfolding c(5) append_Nil by blast
qed

definition subscribe_packet :: "u16 \<Rightarrow> string \<Rightarrow> byte \<Rightarrow> subscribe" where
  "subscribe_packet i filt qos = \<lparr>s_PacketID = i, s_Subscriptions = [\<lparr>ts_Filter = filt, ts_QoS = qos\<rparr>]\<rparr>"

lemma send_subscribed: "subscribed (snd (send b k p)) c f = subscribed b c f"
  by (simp add: send_def sink_Send_def subscribed_def split: prod.split option.split)

text \<open>Claim C8. A subscribe of the client library and the handler of the broker fit together: the answer of the broker makes the
  waiting call return, and what the call returns is what the broker has done. If it returns a level, the broker holds the
  filter for this client at that level, which is the requested one lowered to 1; if it reports a refusal, the client's subscriptions are as before.\<close>

theorem subscribe_end_to_end:
  assumes "waiters_ok c" and "mc_conn c" and "mc_socketOpen c" and "allocatePacketID c = (i, c1)"
    and "Encode [] (PSubscribe (subscribe_packet i filt qos)) = Inr bs"
    and "broker_ok b" and "session_Get (b_sessions b) (cl_id client) = Some s"
    and "handleSubscribe b k client (subscribe_packet i filt qos) = (None, b')"
  shows "\<exists>cn r c'. conn_of b' k = Some cn
    \<and> cli_Subscribe c filt qos [(now, Inr (last (cn_outbound cn)))] WAck = Some (r, c')
    \<and> (case r of
         Inr code \<Rightarrow> code = min qos MaxSupportedQoS
           \<and> (\<forall>f. subscribed b' (cl_id client) f = (if f = filt then Some code else subscribed b (cl_id client) f))
       | Inl err \<Rightarrow> err = SubscriptionRefused filt \<and> (\<forall>f. subscribed b' (cl_id client) f = subscribed b (cl_id client) f))"
proof -
  let ?req = "subscribe_packet i filt qos"
  have req: "s_Subscriptions ?req = [\<lparr>ts_Filter = filt, ts_QoS = qos\<rparr>]" by (simp add: subscribe_packet_def)
  obtain code b1 where S: "Subscribe b client ?req k = (Inr [code], b1)" "code = SubackFailure \<or> code = min qos MaxSupportedQoS"
      "\<And>f. subscribed b1 (cl_id client) f = (if code \<noteq> SubackFailure \<and> f = filt then Some code else subscribed b (cl_id client) f)"
    using Subscribe_one [OF assms(6,7) req, of k] by blast
  let ?ack = "PSuback \<lparr>sa_PacketID = i, sa_ReturnCodes = [code]\<rparr>"
  have sent: "send b1 k ?ack = (None, b')" using assms(8) S(1) by (simp add: handleSubscribe_def subscribe_packet_def)
  obtain cn where cn: "b' = setConn b1 k cn" "last (cn_outbound cn) = ?ack" by (rule send_None [OF sent])
  have sub: "subscribed b' c f = subscribed b1 c f" for c f using send_subscribed [of b1 k ?ack c f] sent by simp
  obtain c' where "cli_Subscribe c filt qos [(now, Inr ?ack)] WAck
      = map_option (\<lambda>p. (suback_result filt p, c')) (first_ack i [(now, Inr ?ack)])"
    by (rule cli_Subscribe_run [OF assms(1-4) assms(5) [unfolded subscribe_packet_def]])
  with S(2) have "cli_Subscribe c filt qos [(now, Inr ?ack)] WAck = Some (suback_result filt ?ack, c')" by simp
  moreover have "conn_of b' k = Some cn" by (simp add: cn(1) setConn_def conn_of_def)
  ultimately show ?thesis using S(2,3) sub
    by (intro exI [of _ cn] exI [of _ "suback_result filt ?ack"] exI [of _ c']) (auto simp: cn(2) suback_result_def)
qed

lemma attached_subscribe:
  "\<exists>b'. handleSubscribe attached_broker 0 (sample_client\<lparr>cl_id := ''c''\<rparr>) (subscribe_packet 65535 ''b'' 2) = (None, b')"
proof -
  let ?cl = "sample_client\<lparr>cl_id := ''c''\<rparr>" and ?req = "subscribe_packet 65535 ''b'' 2"
  have r: "s_Subscriptions ?req = [\<lparr>ts_Filter = ''b'', ts_QoS = 2\<rparr>]" by (simp add: subscribe_packet_def)
  have e: "b_retained attached_broker = []"
    by (simp add: attached_broker_def sample_broker_def NewBroker_def NewRetainedStore_def)
  obtain code b1 where S: "Subscribe attached_broker ?cl ?req 0 = (Inr [code], b1)" "b_conns b1 = b_conns attached_broker"
    using Subscribe_one [OF attached_broker_ok attached_session r, of 0] e by blast
  then show ?thesis
    by (simp add: handleSubscribe_def send_def sink_Send_def attached_broker_def attached_conn_def NewConnection_def Send_def)
qed

lemma subscribe_end_to_end_witness:
  "\<exists>b' cn r c'. handleSubscribe attached_broker 0 (sample_client\<lparr>cl_id := ''c''\<rparr>) (subscribe_packet 65535 ''b'' 2) = (None, b')
    \<and> conn_of b' 0 = Some cn
    \<and> cli_Subscribe sample_mqtt_client ''b'' 2 [(3, Inr (last (cn_outbound cn)))] WAck = Some (r, c')"
proof -
  let ?cl = "sample_client\<lparr>cl_id := ''c''\<rparr>"
  obtain c1 where a: "allocatePacketID sample_mqtt_client = (65535, c1)" using sample_allocate by blast
  obtain bs where e: "Encode [] (PSubscribe (subscribe_packet 65535 ''b'' 2)) = Inr bs"
    by (simp add: subscribe_packet_def subscribe_Encode_def Let_def)
  obtain b' where h: "handleSubscribe attached_broker 0 ?cl (subscribe_packet 65535 ''b'' 2) = (None, b')"
    using attached_subscribe by blast
  have "mc_conn sample_mqtt_client" "mc_socketOpen sample_mqtt_client" by (simp_all add: sample_mqtt_client_def)
  from subscribe_end_to_end [OF sample_mqtt_client_ok this a e attached_broker_ok attached_session h, of 3] h show ?thesis by blast
qed

end
